theory Spec2Isabelle
  imports Complex_Main "HOL-Library.Word"
begin

section \<open>The octilinear grid graph (octi/gridgraph/GridGraph.cpp)\<close>

text \<open>
  Conventions of the embedding.
  \<^item> \<open>size_t\<close> is a 64-bit word: cell coordinates and grid dimensions wrap around as
    they do in the program.  Direction indices and loop counters stay far below any
    overflow and are natural numbers.
  \<^item> A raw cost is an IEEE 754 binary64 value: a real number the format represents, an
    infinity or NaN.  The sums and differences of \<open>addCostVector\<close> and
    \<open>removeCostVector\<close> and the products of \<open>heurCost\<close> round to nearest, ties to even.
    The sign of a zero is not part of the model.  Penalties, coordinates of points and
    the entries of a cost vector are finite and stand as real numbers, and the cost
    expressions of the constructor are kept as the code writes them.
  \<^item> A grid center is identified with the cell it was created for: \<open>writeNd\<close>
    registers the center of cell \<open>(x, y)\<close> in the spatial index at \<open>(x, y)\<close>, stores
    the same coordinates in its payload, and nothing removes or moves a center.
    The eight ports of a center are created with it, so port \<open>i\<close> of center \<open>c\<close> is
    \<open>Port c i\<close> and is never a null pointer.
  \<^item> The graph is undirected: an edge is stored under the set of its two end nodes, so
    \<open>getEdg a b\<close> and \<open>getEdg b a\<close> name the same edge object.
  \<^item> A null pointer that the program dereferences, a failed \<open>assert\<close>, an integer
    division by zero and an operation whose behaviour C++ leaves undefined are error
    results.
\<close>

type_synonym size_t = "64 word"
type_synonym cell = "size_t \<times> size_t"

datatype gnode = Center cell | Port cell nat

datatype cost = Fin real | PInf | NInf | NaN

datatype error = AssertFailed | NullDeref | DivByZero | Undefined

subsection \<open>Double arithmetic\<close>

text \<open>The largest finite \<open>double\<close>, \<open>std::numeric_limits<double>::max()\<close>.\<close>

definition DBL_MAX :: real where
  "DBL_MAX = (2 ^ 53 - 1) * 2 ^ 971"

text \<open>Rounding a real number to the nearest integer, a tie to the even one.\<close>

definition rne :: "real \<Rightarrow> int" where
  "rne q =
     (let f = \<lfloor>q\<rfloor>; r = q - of_int f
      in if r < 1 / 2 then f else if 1 / 2 < r then f + 1 else if even f then f else f + 1)"

text \<open>
  The exponent of the unit in the last place of the doubles around \<open>x\<close>: the least
  exponent \<open>e\<close> of the format, from \<open>-1074\<close> to \<open>971\<close>, with \<open>|x| < 2^(e + 53)\<close>, and
  \<open>971\<close> when \<open>x\<close> is beyond the format.
\<close>

definition dexp :: "real \<Rightarrow> int" where
  "dexp x = (case find (\<lambda>e. \<bar>x\<bar> < 2 powi (e + 53)) [- 1074..971] of Some e \<Rightarrow> e | None \<Rightarrow> 971)"

text \<open>
  The \<open>double\<close> an exact result \<open>x\<close> is rounded to: the nearest multiple of the unit in
  the last place, or an infinity when that is beyond \<open>DBL_MAX\<close>.
\<close>

definition fl :: "real \<Rightarrow> cost" where
  "fl x =
     (let e = dexp x; y = of_int (rne (x / 2 powi e)) * 2 powi e
      in if DBL_MAX < y then PInf else if y < - DBL_MAX then NInf else Fin y)"

text \<open>Negation, addition, subtraction and multiplication of two \<open>double\<close>s.\<close>

fun dneg :: "cost \<Rightarrow> cost" where
  "dneg (Fin a) = Fin (- a)"
| "dneg PInf = NInf"
| "dneg NInf = PInf"
| "dneg NaN = NaN"

fun dadd :: "cost \<Rightarrow> cost \<Rightarrow> cost" where
  "dadd (Fin a) (Fin b) = fl (a + b)"
| "dadd (Fin a) PInf = PInf"
| "dadd (Fin a) NInf = NInf"
| "dadd PInf (Fin b) = PInf"
| "dadd PInf PInf = PInf"
| "dadd PInf NInf = NaN"
| "dadd NInf (Fin b) = NInf"
| "dadd NInf PInf = NaN"
| "dadd NInf NInf = NInf"
| "dadd NaN b = NaN"
| "dadd a NaN = NaN"

definition dsub :: "cost \<Rightarrow> cost \<Rightarrow> cost" where
  "dsub a b = dadd a (dneg b)"

fun dmul :: "cost \<Rightarrow> cost \<Rightarrow> cost" where
  "dmul (Fin a) (Fin b) = fl (a * b)"
| "dmul (Fin a) PInf = (if a = 0 then NaN else if 0 < a then PInf else NInf)"
| "dmul (Fin a) NInf = (if a = 0 then NaN else if 0 < a then NInf else PInf)"
| "dmul PInf (Fin b) = (if b = 0 then NaN else if 0 < b then PInf else NInf)"
| "dmul NInf (Fin b) = (if b = 0 then NaN else if 0 < b then NInf else PInf)"
| "dmul PInf PInf = PInf"
| "dmul PInf NInf = NInf"
| "dmul NInf PInf = NInf"
| "dmul NInf NInf = PInf"
| "dmul NaN b = NaN"
| "dmul a NaN = NaN"

type_synonym combEdge = nat

text \<open>
  Modelled from the spec: the edge payload \<open>GridEdgePL\<close> (its header is not part of
  the sources).  It carries a raw cost, a closed flag that is separate from the raw
  cost, and the set of reserved comb edges, here the list of its elements in iteration
  order.  The constructor takes the cost, the secondary flag and, optionally, the
  closed flag.  The field \<open>closedFlag\<close> is the member \<open>_closed\<close>.
\<close>

record edgePL =
  rawCost :: cost
  secondary :: bool
  closedFlag :: bool
  resEdges :: "combEdge list"

definition GridEdgePL :: "cost \<Rightarrow> bool \<Rightarrow> bool \<Rightarrow> edgePL" where
  "GridEdgePL c sec cl = \<lparr>rawCost = c, secondary = sec, closedFlag = cl, resEdges = []\<rparr>"

text \<open>
  \<open>rawCost() + addC[i]\<close> and \<open>rawCost() - addC[i]\<close>: the sum and the difference of the
  \<open>double\<close> raw cost and a finite \<open>double\<close>, rounded.
\<close>

definition addCost :: "cost \<Rightarrow> real \<Rightarrow> cost" where
  "addCost c r = dadd c (Fin r)"

definition subCost :: "cost \<Rightarrow> real \<Rightarrow> cost" where
  "subCost c r = dsub c (Fin r)"

record penalties =
  verticalPen :: real
  horizontalPen :: real
  diagonalPen :: real
  p_0 :: real
  p_135 :: real
  p_90 :: real
  p_45 :: real

text \<open>
  The state of a \<open>GridGraph\<close>.  \<open>grid\<close> is the spatial index (whether the center of
  a cell has been added), \<open>geom\<close> the position of every node that exists,
  \<open>ndClosed\<close> the closed flag of each center, \<open>edgs\<close> the edges with their payloads.
  \<open>spacer_m\<close> is the member \<open>_spacer\<close>.
\<close>

record gridgraph =
  xWidth :: size_t
  yHeight :: size_t
  pens :: penalties
  bboxLL :: "real \<times> real"
  cellSize :: real
  spacer_m :: real
  grid :: "cell \<Rightarrow> bool"
  geom :: "gnode \<Rightarrow> (real \<times> real) option"
  ndClosed :: "cell \<Rightarrow> bool"
  edgs :: "gnode set \<Rightarrow> edgePL option"

subsection \<open>The graph container\<close>

text \<open>
  Modelled from the spec: the generic graph container \<open>util::graph\<close> (adjacency and
  payload storage; not part of the sources).  \<open>addEdg\<close> is a no-op when the edge
  already exists.
\<close>

definition getEdg :: "gridgraph \<Rightarrow> gnode \<Rightarrow> gnode \<Rightarrow> edgePL option" where
  "getEdg g a b = edgs g {a, b}"

definition setEdg :: "gridgraph \<Rightarrow> gnode \<Rightarrow> gnode \<Rightarrow> edgePL \<Rightarrow> gridgraph" where
  "setEdg g a b e = g\<lparr>edgs := (edgs g)({a, b} \<mapsto> e)\<rparr>"

definition addEdg :: "gridgraph \<Rightarrow> gnode \<Rightarrow> gnode \<Rightarrow> edgePL \<Rightarrow> gridgraph" where
  "addEdg g a b e = (case getEdg g a b of Some _ \<Rightarrow> g | None \<Rightarrow> setEdg g a b e)"

definition addNd :: "gridgraph \<Rightarrow> gnode \<Rightarrow> real \<times> real \<Rightarrow> gridgraph" where
  "addNd g n pt = g\<lparr>geom := (geom g)(n \<mapsto> pt)\<rparr>"

text \<open>A loop whose body can fail stops at the first failure.\<close>

fun foldE :: "('a \<Rightarrow> 's \<Rightarrow> error + 's) \<Rightarrow> 'a list \<Rightarrow> 's \<Rightarrow> error + 's" where
  "foldE f [] s = Inr s"
| "foldE f (x # xs) s = (case f x s of Inl e \<Rightarrow> Inl e | Inr s' \<Rightarrow> foldE f xs s')"

text \<open>The values of \<open>for (size_t x = 0; x < n; x++)\<close>.\<close>

definition upto_size_t :: "size_t \<Rightarrow> size_t list" where
  "upto_size_t n = map of_nat [0..<unat n]"

subsection \<open>Cell lookup\<close>

text \<open>
  \<open>GridGraph::getNode\<close>: the bounds check, then the lookup in the spatial index,
  which holds the center of a cell once \<open>writeNd\<close> has added it.
\<close>

definition getNode :: "gridgraph \<Rightarrow> size_t \<Rightarrow> size_t \<Rightarrow> cell option" where
  "getNode g x y =
     (if xWidth g \<le> x \<or> yHeight g \<le> y then None
      else if grid g (x, y) then Some (x, y) else None)"

text \<open>
  \<open>GridGraph::getNeighbor\<close>.  The offsets are \<open>int8_t\<close> values; in \<open>cx + x\<close> the
  offset is converted to \<open>size_t\<close>, so \<open>-1\<close> becomes \<open>2^64 - 1\<close> and the sum wraps.
  The later assignment wins, as in the source: \<open>i > 4\<close> overrides \<open>i % 4 == 0\<close>.
\<close>

definition nbX :: "nat \<Rightarrow> int" where
  "nbX i = (if 4 < i then - 1 else if i mod 4 = 0 then 0 else 1)"

definition nbY :: "nat \<Rightarrow> int" where
  "nbY i = (if i = 3 \<or> i = 4 \<or> i = 5 then - 1 else if i = 2 \<or> i = 6 then 0 else 1)"

definition getNeighbor :: "gridgraph \<Rightarrow> size_t \<Rightarrow> size_t \<Rightarrow> nat \<Rightarrow> cell option" where
  "getNeighbor g cx cy i = getNode g (cx + word_of_int (nbX i)) (cy + word_of_int (nbY i))"

subsection \<open>Construction\<close>

text \<open>C++ integer division and remainder truncate towards zero.\<close>

definition tdiv :: "int \<Rightarrow> int \<Rightarrow> int" where
  "tdiv a b = sgn a * sgn b * (\<bar>a\<bar> div \<bar>b\<bar>)"

definition tmod :: "int \<Rightarrow> int \<Rightarrow> int" where
  "tmod a b = a - b * tdiv a b"

text \<open>The unit offsets \<open>xi\<close>, \<open>yi\<close> of port \<open>i\<close> in \<open>writeNd\<close>.\<close>

definition portXi :: "int \<Rightarrow> int" where
  "portXi i = (let xi = tmod (4 - tmod i 8) 4 in tdiv xi (\<bar>\<bar>xi\<bar> - 1\<bar> + 1))"

definition portYi :: "int \<Rightarrow> int" where
  "portYi i = (let yi = tmod (4 - tmod (i + 2) 8) 4 in tdiv yi (\<bar>\<bar>yi\<bar> - 1\<bar> + 1))"

text \<open>The angular distance \<open>deg\<close> that the in-node loop of \<open>writeNd\<close> computes.\<close>

definition bendDeg :: "nat \<Rightarrow> nat \<Rightarrow> nat" where
  "bendDeg i j = (let d = int i - int j in nat \<bar>tmod (tmod (d + 4) 8 + 8) 8 - 4\<bar>)"

definition writePort :: "cell \<Rightarrow> real \<Rightarrow> real \<Rightarrow> nat \<Rightarrow> gridgraph \<Rightarrow> gridgraph" where
  "writePort c xPos yPos i g =
     (let xi = portXi (int i); yi = portYi (int i);
          g1 = addNd g (Port c i) (xPos + real_of_int xi * spacer_m g, yPos + real_of_int yi * spacer_m g)
      in addEdg g1 (Center c) (Port c i) (GridEdgePL PInf True False))"

definition writeBend :: "cell \<Rightarrow> nat \<Rightarrow> nat \<Rightarrow> gridgraph \<Rightarrow> gridgraph" where
  "writeBend c i j g =
     (let c_0 = p_45 (pens g) - p_135 (pens g);
          c_135 = p_45 (pens g);
          c_90 = p_45 (pens g) - p_135 (pens g) + p_90 (pens g);
          deg = bendDeg i j;
          pen = c_0
      in if deg = 1 then g
         else let pen = (if deg = 2 then c_90 else pen);
                  pen = (if deg = 3 then c_135 else pen)
              in addEdg g (Port c i) (Port c j) (GridEdgePL (Fin pen) True False))"

text \<open>
  \<open>GridGraph::writeNd\<close>: the center, its eight ports with their port-to-center
  edges, then the in-node connections for \<open>i < j\<close>.
\<close>

definition writeNd :: "gridgraph \<Rightarrow> size_t \<Rightarrow> size_t \<Rightarrow> real \<Rightarrow> real \<Rightarrow> gridgraph" where
  "writeNd g x y xOff yOff =
     (let xPos = fst (bboxLL g) + real (unat x) * cellSize g;
          yPos = snd (bboxLL g) + real (unat y) * cellSize g;
          g1 = addNd g (Center (x, y)) (xPos + xOff, yPos + yOff);
          g2 = g1\<lparr>grid := (grid g1)((x, y) := True), ndClosed := (ndClosed g1)((x, y) := False)\<rparr>;
          g3 = fold (writePort (x, y) (xOff + xPos) (yOff + yPos)) [0..<8] g2
      in fold (\<lambda>i. fold (writeBend (x, y) i) [i + 1..<8]) [0..<8] g3)"

text \<open>The body of the constructor's second loop nest: the inter-cell edges of one cell.\<close>

definition linkPort :: "size_t \<Rightarrow> size_t \<Rightarrow> nat \<Rightarrow> gridgraph \<Rightarrow> gridgraph" where
  "linkPort x y p g =
     (case getNeighbor g x y p of
        None \<Rightarrow> g
      | Some toN \<Rightarrow> addEdg g (Port (x, y) p) (Port toN ((p + 4) mod 8)) (GridEdgePL (Fin 0) False False))"

definition linkCell :: "size_t \<Rightarrow> size_t \<Rightarrow> gridgraph \<Rightarrow> gridgraph" where
  "linkCell x y g =
     (case getNode g x y of None \<Rightarrow> g | Some center \<Rightarrow> fold (linkPort x y) [0..<8] g)"

text \<open>\<open>GridGraph::writeInitialCosts\<close>; \<open>n\<close> and \<open>e\<close> are dereferenced unchecked.\<close>

definition setCost :: "cost \<Rightarrow> edgePL \<Rightarrow> edgePL" where
  "setCost c e = e\<lparr>rawCost := c\<rparr>"

definition initialCost :: "penalties \<Rightarrow> nat \<Rightarrow> edgePL \<Rightarrow> edgePL" where
  "initialCost c i e =
     (let e = (if i mod 4 = 0 then setCost (Fin (verticalPen c)) e else e);
          e = (if (i + 2) mod 4 = 0 then setCost (Fin (horizontalPen c)) e else e);
          e = (if i mod 2 \<noteq> 0 then setCost (Fin (diagonalPen c)) e else e)
      in e)"

definition initPort :: "cell \<Rightarrow> nat \<Rightarrow> gridgraph \<Rightarrow> error + gridgraph" where
  "initPort n i g =
     (case getNeighbor g (fst n) (snd n) i of
        None \<Rightarrow> Inr g
      | Some neigh \<Rightarrow>
          (case getEdg g (Port n i) (Port neigh ((i + 4) mod 8)) of
             None \<Rightarrow> Inl NullDeref
           | Some e \<Rightarrow> Inr (setEdg g (Port n i) (Port neigh ((i + 4) mod 8)) (initialCost (pens g) i e))))"

definition initCell :: "size_t \<Rightarrow> size_t \<Rightarrow> gridgraph \<Rightarrow> error + gridgraph" where
  "initCell x y g =
     (case getNode g x y of None \<Rightarrow> Inl NullDeref | Some n \<Rightarrow> foldE (initPort n) [0..<8] g)"

definition writeInitialCosts :: "gridgraph \<Rightarrow> error + gridgraph" where
  "writeInitialCosts g =
     foldE (\<lambda>x. foldE (initCell x) (upto_size_t (yHeight g))) (upto_size_t (xWidth g)) g"

text \<open>
  The constructor \<open>GridGraph::GridGraph\<close>.  The width and height of the index come
  from the \<open>Grid\<close> class (not part of the sources) and are parameters here.  The member
  \<open>_spacer\<close> is initialised from the parameter \<open>spacer\<close>; the cut-off then assigns
  to the parameter, which is not read again.
\<close>

text \<open>The two loop nests of the constructor, over all cells of the index.\<close>

definition writeNodes :: "gridgraph \<Rightarrow> gridgraph" where
  "writeNodes g =
     fold (\<lambda>x. fold (\<lambda>y g'. writeNd g' x y 0 0) (upto_size_t (yHeight g))) (upto_size_t (xWidth g)) g"

definition linkCells :: "gridgraph \<Rightarrow> gridgraph" where
  "linkCells g =
     fold (\<lambda>x. fold (\<lambda>y. linkCell x y) (upto_size_t (yHeight g))) (upto_size_t (xWidth g)) g"

definition initMembers ::
  "size_t \<Rightarrow> size_t \<Rightarrow> real \<times> real \<Rightarrow> real \<Rightarrow> real \<Rightarrow> penalties \<Rightarrow> gridgraph" where
  "initMembers w h ll cellSz spacer c =
     \<lparr>xWidth = w, yHeight = h, pens = c, bboxLL = ll, cellSize = cellSz,
      spacer_m = spacer, grid = (\<lambda>_. False), geom = (\<lambda>_. None),
      ndClosed = (\<lambda>_. False), edgs = (\<lambda>_. None)\<rparr>"

definition GridGraph ::
  "size_t \<Rightarrow> size_t \<Rightarrow> real \<times> real \<Rightarrow> real \<Rightarrow> real \<Rightarrow> penalties \<Rightarrow> error + gridgraph" where
  "GridGraph w h ll cellSz spacer c =
     (let g0 = initMembers w h ll cellSz spacer c
      in if p_0 (pens g0) < p_135 (pens g0) then
           if p_135 (pens g0) < p_90 (pens g0) then
             if p_90 (pens g0) < p_45 (pens g0) then
               let spacer = (if cellSz / 2 < spacer then cellSz / 2 else spacer);
                   g1 = writeNodes g0;
                   g2 = linkCells g1
               in writeInitialCosts g2
             else Inl AssertFailed
           else Inl AssertFailed
         else Inl AssertFailed)"

subsection \<open>Closing and opening nodes\<close>

text \<open>\<open>GridEdgePL::close\<close> and \<open>GridEdgePL::open\<close>.\<close>

definition closeEdge :: "edgePL \<Rightarrow> edgePL" where
  "closeEdge e = e\<lparr>closedFlag := True\<rparr>"

definition openEdge :: "edgePL \<Rightarrow> edgePL" where
  "openEdge e = e\<lparr>closedFlag := False\<rparr>"

definition closeNode_step :: "cell \<Rightarrow> nat \<Rightarrow> gridgraph \<Rightarrow> gridgraph" where
  "closeNode_step n i g =
     (case getNeighbor g (fst n) (snd n) i of
        None \<Rightarrow> g
      | Some neigh \<Rightarrow>
          (case getEdg g (Port n i) (Port neigh ((i + 4) mod 8)) of
             None \<Rightarrow> g
           | Some e \<Rightarrow> setEdg g (Port n i) (Port neigh ((i + 4) mod 8)) (closeEdge e)))"

definition closeNode :: "gridgraph \<Rightarrow> cell \<Rightarrow> gridgraph" where
  "closeNode g n =
     (if ndClosed g n then g
      else let g' = fold (closeNode_step n) [0..<8] g
           in g'\<lparr>ndClosed := (ndClosed g')(n := True)\<rparr>)"

definition openNode_step :: "cell \<Rightarrow> nat \<Rightarrow> gridgraph \<Rightarrow> gridgraph" where
  "openNode_step n i g =
     (case getNeighbor g (fst n) (snd n) i of
        None \<Rightarrow> g
      | Some neigh \<Rightarrow>
          if ndClosed g neigh then g
          else (case getEdg g (Port n i) (Port neigh ((i + 4) mod 8)) of
                  None \<Rightarrow> g
                | Some e \<Rightarrow>
                    if length (resEdges e) = 0
                    then setEdg g (Port n i) (Port neigh ((i + 4) mod 8)) (openEdge e)
                    else g))"

definition openNode :: "gridgraph \<Rightarrow> cell \<Rightarrow> gridgraph" where
  "openNode g n =
     (if \<not> ndClosed g n then g
      else let g' = fold (openNode_step n) [0..<8] g
           in g'\<lparr>ndClosed := (ndClosed g')(n := False)\<rparr>)"

subsection \<open>Edge lookup between two centers, and \<open>balanceEdge\<close>\<close>

text \<open>
  \<open>GridGraph::getNEdge\<close>: the first mirrored port pair that carries an edge.  An
  edge pointer is the pair of end nodes under which the edge is stored.
\<close>

fun firstDir :: "gridgraph \<Rightarrow> cell \<Rightarrow> cell \<Rightarrow> nat list \<Rightarrow> nat option" where
  "firstDir g a b [] = None"
| "firstDir g a b (i # is) =
     (if getEdg g (Port a i) (Port b ((i + 4) mod 8)) \<noteq> None then Some i else firstDir g a b is)"

definition getNEdge :: "gridgraph \<Rightarrow> cell option \<Rightarrow> cell option \<Rightarrow> (gnode \<times> gnode) option" where
  "getNEdge g a b =
     (case a of None \<Rightarrow> None | Some a' \<Rightarrow>
        (case b of None \<Rightarrow> None | Some b' \<Rightarrow>
           (case firstDir g a' b' [0..<8] of
              None \<Rightarrow> None
            | Some i \<Rightarrow> Some (Port a' i, Port b' ((i + 4) mod 8)))))"

definition setCostAt :: "gridgraph \<Rightarrow> gnode \<times> gnode \<Rightarrow> cost \<Rightarrow> gridgraph" where
  "setCostAt g k c = g\<lparr>edgs := (edgs g)({fst k, snd k} := map_option (setCost c) (edgs g {fst k, snd k}))\<rparr>"

text \<open>
  \<open>GridGraph::balanceEdge\<close>.  \<open>dir\<close> is the value of the loop counter after the
  search loop: the first direction with an edge, or 8.
\<close>

definition balanceEdge :: "gridgraph \<Rightarrow> cell \<Rightarrow> cell \<Rightarrow> error + gridgraph" where
  "balanceEdge g a b =
     (if a = b then Inr g
      else
        let dir = (case firstDir g a b [0..<8] of None \<Rightarrow> 8 | Some d \<Rightarrow> d);
            x = fst a; y = snd a
        in case getNEdge g (Some a) (Some b) of
             None \<Rightarrow> Inl NullDeref
           | Some k \<Rightarrow>
               let g1 = setCostAt g k PInf;
                   g2 = closeNode g1 a;
                   g3 = closeNode g2 b
               in if dir = 1 \<or> dir = 3 \<or> dir = 5 \<or> dir = 7 then
                    let na = getNeighbor g3 x y ((dir + 7) mod 8);
                        nb = getNeighbor g3 x y ((dir + 1) mod 8)
                    in if na \<noteq> None \<and> nb \<noteq> None then
                         (case getNEdge g3 na nb of
                            None \<Rightarrow> Inl NullDeref
                          | Some e \<Rightarrow> Inr (setCostAt g3 e PInf))
                       else Inr g3
                  else Inr g3)"

subsection \<open>Reversible cost vectors\<close>

text \<open>
  Modelled from the spec: \<open>NodeCost\<close> (its header is not part of the sources), a
  real-valued accumulator indexed by direction, all slots zero when constructed.
\<close>

type_synonym NodeCost = "nat \<Rightarrow> real"

definition NodeCost0 :: NodeCost where
  "NodeCost0 = (\<lambda>_. 0)"

text \<open>One iteration of the loop of \<open>GridGraph::addCostVector\<close>.\<close>

definition addCostVector_step ::
  "cell \<Rightarrow> NodeCost \<Rightarrow> nat \<Rightarrow> gridgraph \<times> NodeCost \<Rightarrow> error + gridgraph \<times> NodeCost" where
  "addCostVector_step n addC i s =
     (let g = fst s; invCost = snd s; x = fst n; y = snd n
      in case getNeighbor g x y i of
           None \<Rightarrow> Inr (g, invCost)
         | Some neigh \<Rightarrow>
             let p = Port n i; op = Port neigh ((i + 4) mod 8)
             in (case getEdg g p op of
                   None \<Rightarrow> Inl NullDeref
                 | Some e \<Rightarrow>
                     if addC i < - 1 then
                       (if closedFlag e then Inr (g, invCost(i := 0))
                        else
                          let g1 = setEdg g p op (closeEdge e)
                          in (case getNeighbor g1 x y i of
                                None \<Rightarrow> Inl NullDeref
                              | Some nn \<Rightarrow> Inr (closeNode g1 nn, invCost(i := addC i))))
                     else
                       Inr (setEdg g p op (setCost (addCost (rawCost e) (addC i)) e),
                            invCost(i := addC i))))"

definition addCostVector :: "gridgraph \<Rightarrow> cell \<Rightarrow> NodeCost \<Rightarrow> error + gridgraph \<times> NodeCost" where
  "addCostVector g n addC = foldE (addCostVector_step n addC) [0..<8] (g, NodeCost0)"

text \<open>One iteration of the loop of \<open>GridGraph::removeCostVector\<close>.\<close>

definition removeCostVector_step :: "cell \<Rightarrow> NodeCost \<Rightarrow> nat \<Rightarrow> gridgraph \<Rightarrow> error + gridgraph" where
  "removeCostVector_step n addC i g =
     (let x = fst n; y = snd n
      in case getNeighbor g x y i of
           None \<Rightarrow> Inr g
         | Some neigh \<Rightarrow>
             let p = Port n i; op = Port neigh ((i + 4) mod 8)
             in (case getEdg g p op of
                   None \<Rightarrow> Inl NullDeref
                 | Some e \<Rightarrow>
                     if addC i < - 1 then
                       (let g1 = setEdg g p op (openEdge e)
                        in case getNeighbor g1 x y i of
                             None \<Rightarrow> Inl NullDeref
                           | Some nn \<Rightarrow> Inr (openNode g1 nn))
                     else Inr (setEdg g p op (setCost (subCost (rawCost e) (addC i)) e))))"

definition removeCostVector :: "gridgraph \<Rightarrow> cell \<Rightarrow> NodeCost \<Rightarrow> error + gridgraph" where
  "removeCostVector g n addC = foldE (removeCostVector_step n addC) [0..<8] g"

subsection \<open>The A* heuristic\<close>

text \<open>
  The conversion of a \<open>double\<close> to \<open>size_t\<close> drops the fractional part; its behaviour
  is undefined unless the result fits, that is unless the value lies strictly between
  \<open>-1\<close> and \<open>2^64\<close>.  The conversion of a \<open>size_t\<close> to \<open>double\<close> rounds.
\<close>

definition to_size_t :: "cost \<Rightarrow> error + nat" where
  "to_size_t d =
     (case d of
        Fin v \<Rightarrow> if - 1 < v \<and> v < 2 ^ 64 then Inr (if 0 \<le> v then nat \<lfloor>v\<rfloor> else 0) else Inl Undefined
      | PInf \<Rightarrow> Inl Undefined
      | NInf \<Rightarrow> Inl Undefined
      | NaN \<Rightarrow> Inl Undefined)"

definition of_size_t :: "nat \<Rightarrow> cost" where
  "of_size_t n = fl (real n)"

text \<open>
  \<open>GridGraph::heurCost\<close>.  The coordinates are \<open>int64_t\<close>: a difference that does not
  fit, or whose absolute value does not fit, is undefined.  \<open>minHops\<close>, \<open>edgeCost\<close> and
  \<open>hopCost\<close> are declared \<open>size_t\<close>: each product is computed in \<open>double\<close> and
  converted, the two are added in \<open>size_t\<close>, and the sum is returned as a \<open>double\<close>.
\<close>

definition heurCost :: "penalties \<Rightarrow> 64 word \<Rightarrow> 64 word \<Rightarrow> 64 word \<Rightarrow> 64 word \<Rightarrow> error + cost" where
  "heurCost c xa ya xb yb =
     (if xa = xb \<and> ya = yb then Inr (Fin 0)
      else
        let dx = sint xb - sint xa; dy = sint yb - sint ya
        in if - (2 ^ 63) < dx \<and> dx < 2 ^ 63 \<and> - (2 ^ 63) < dy \<and> dy < 2 ^ 63
           then
             let minHops = nat (max \<bar>dx\<bar> \<bar>dy\<bar>)
             in (case to_size_t (dmul (of_size_t minHops)
                       (Fin (min (verticalPen c) (min (horizontalPen c) (diagonalPen c))))) of
                   Inl err \<Rightarrow> Inl err
                 | Inr edgeCost \<Rightarrow>
                     (case to_size_t (dmul (of_size_t (minHops - 1))
                              (dsub (Fin (p_45 c)) (Fin (p_135 c)))) of
                        Inl err \<Rightarrow> Inl err
                      | Inr hopCost \<Rightarrow> Inr (of_size_t ((edgeCost + hopCost) mod 2 ^ 64))))
           else Inl Undefined)"

subsection \<open>Concrete inputs\<close>

text \<open>The penalties of a grid with a non-integral bend penalty.\<close>

definition demoPens :: penalties where
  "demoPens = \<lparr>verticalPen = 1, horizontalPen = 1, diagonalPen = 7 / 5,
               p_0 = 0, p_135 = 1, p_90 = 2, p_45 = 7 / 2\<rparr>"

subsection \<open>Notions used to state the properties\<close>



text \<open>The payload of a bend edge of angular distance \<open>deg\<close>, as the spec gives its cost.\<close>

definition bendPL :: "penalties \<Rightarrow> nat \<Rightarrow> edgePL" where
  "bendPL c deg = GridEdgePL (Fin (if deg = 3 then p_45 c else if deg = 2 then p_45 c - p_135 c + p_90 c
      else p_45 c - p_135 c)) True False"

text \<open>
  Frame conditions: two grids with the same dimensions and parameters, with the same
  cells on top of that, and the cell a node belongs to.
\<close>

definition sameParams :: "gridgraph \<Rightarrow> gridgraph \<Rightarrow> bool" where
  "sameParams g g' \<longleftrightarrow> xWidth g' = xWidth g \<and> yHeight g' = yHeight g \<and> pens g' = pens g \<and>
     bboxLL g' = bboxLL g \<and> cellSize g' = cellSize g \<and> spacer_m g' = spacer_m g"

definition sameCells :: "gridgraph \<Rightarrow> gridgraph \<Rightarrow> bool" where
  "sameCells g g' \<longleftrightarrow> sameParams g g' \<and> grid g' = grid g"

fun cellOf :: "gnode \<Rightarrow> cell" where
  "cellOf (Center c) = c"
| "cellOf (Port c i) = c"

named_theorems frame

text \<open>
  The offset of direction \<open>i\<close> as \<open>getNeighbor\<close> adds it to the unsigned coordinates, and
  the cell it leads to.
\<close>

definition off :: "nat \<Rightarrow> size_t \<times> size_t" where
  "off i = (word_of_int (nbX i), word_of_int (nbY i))"

definition nbr :: "cell \<Rightarrow> nat \<Rightarrow> cell" where
  "nbr c i = (fst c + fst (off i), snd c + snd (off i))"

text \<open>The grid after the first statements of \<open>writeNd\<close>, when the center has been added.\<close>

definition writeNd_init :: "gridgraph \<Rightarrow> size_t \<Rightarrow> size_t \<Rightarrow> real \<Rightarrow> real \<Rightarrow> gridgraph" where
  "writeNd_init g x y xOff yOff =
     (addNd g (Center (x, y)) (fst (bboxLL g) + real (unat x) * cellSize g + xOff,
                               snd (bboxLL g) + real (unat y) * cellSize g + yOff))
       \<lparr>grid := (grid g)((x, y) := True), ndClosed := (ndClosed g)((x, y) := False)\<rparr>"

text \<open>The cells in the order of the constructor's loops, and the cells of a grid.\<close>

definition allCells :: "size_t \<Rightarrow> size_t \<Rightarrow> cell list" where
  "allCells w h = List.product (upto_size_t w) (upto_size_t h)"

definition inGrid :: "gridgraph \<Rightarrow> cell \<Rightarrow> bool" where
  "inGrid g c \<longleftrightarrow> fst c < xWidth g \<and> snd c < yHeight g \<and> grid g c"

text \<open>
  Invariant I2 of the spec, in two halves: every cell of the grid is linked to each of
  its neighbours by the edge between the mirrored ports, and ports of two different
  cells are joined by an edge only if they are such a mirrored pair of neighbours.
\<close>

definition linked :: "gridgraph \<Rightarrow> bool" where
  "linked g \<longleftrightarrow>
     (\<forall>c p c'. inGrid g c \<and> p < 8 \<and> getNeighbor g (fst c) (snd c) p = Some c'
        \<longrightarrow> getEdg g (Port c p) (Port c' ((p + 4) mod 8)) \<noteq> None)"

definition mirroredOnly :: "gridgraph \<Rightarrow> bool" where
  "mirroredOnly g \<longleftrightarrow>
     (\<forall>c c' i j. c \<noteq> c' \<and> getEdg g (Port c i) (Port c' j) \<noteq> None
        \<longrightarrow> i < 8 \<and> getNeighbor g (fst c) (snd c) i = Some c' \<and> j = (i + 4) mod 8)"

text \<open>
  Two grids with the same cells and the same edges, whatever their payloads; what
  \<open>writeInitialCosts\<close> preserves; and a grid in which no node and no edge is closed or
  reserved.
\<close>

definition sameEdgeSet :: "gridgraph \<Rightarrow> gridgraph \<Rightarrow> bool" where
  "sameEdgeSet g g' \<longleftrightarrow> sameCells g g' \<and> (\<forall>K. edgs g' K = None \<longleftrightarrow> edgs g K = None)"

definition initRel :: "gridgraph \<Rightarrow> gridgraph \<Rightarrow> bool" where
  "initRel g g' \<longleftrightarrow>
     sameEdgeSet g g' \<and> geom g' = geom g \<and> ndClosed g' = ndClosed g \<and>
     (\<forall>c a b. edgs g' {Port c a, Port c b} = edgs g {Port c a, Port c b}) \<and>
     (\<forall>K e e'. edgs g K = Some e \<and> edgs g' K = Some e' \<longrightarrow>
        closedFlag e' = closedFlag e \<and> resEdges e' = resEdges e \<and> secondary e' = secondary e)"

definition allOpen :: "gridgraph \<Rightarrow> bool" where
  "allOpen g \<longleftrightarrow>
     (\<forall>c. \<not> ndClosed g c) \<and> (\<forall>K e. edgs g K = Some e \<longrightarrow> \<not> closedFlag e \<and> resEdges e = [])"

text \<open>The grid after the two loop nests, before the initial costs.\<close>

definition linkedGrid ::
  "size_t \<Rightarrow> size_t \<Rightarrow> real \<times> real \<Rightarrow> real \<Rightarrow> real \<Rightarrow> penalties \<Rightarrow> gridgraph" where
  "linkedGrid w h ll cellSz spacer c = linkCells (writeNodes (initMembers w h ll cellSz spacer c))"

text \<open>The edge between port \<open>i\<close> of cell \<open>c\<close> and the mirrored port of the neighbour in direction \<open>i\<close>.\<close>

definition nkey :: "cell \<Rightarrow> nat \<Rightarrow> gnode set" where
  "nkey c i = {Port c i, Port (nbr c i) ((i + 4) mod 8)}"

text \<open>What \<open>openNode\<close> does to an edge it visits.\<close>

definition openIfFree :: "edgePL \<Rightarrow> edgePL" where
  "openIfFree e = (if length (resEdges e) = 0 then openEdge e else e)"

text \<open>
  A two-cell grid whose only edge, between the east port of \<open>(0, 0)\<close> and the west
  port of \<open>(1, 0)\<close>, is closed and reserved by comb edge 5; cell \<open>(0, 0)\<close> is closed.
\<close>

definition demoReserved :: gridgraph where
  "demoReserved = (initMembers 2 1 (0, 0) 1 (1 / 4) demoPens)
     \<lparr>grid := (\<lambda>_. True), ndClosed := (\<lambda>c. c = (0, 0)),
      edgs := [{Port (0, 0) 2, Port (1, 0) 6} \<mapsto>
                 \<lparr>rawCost = PInf, secondary = False, closedFlag = True, resEdges = [5]\<rparr>]\<rparr>"

text \<open>The 2 x 2 grid the constructor builds.\<close>

definition demoGrid :: gridgraph where
  "demoGrid = projr (GridGraph 2 2 (0, 0) 1 (1 / 4) demoPens)"

text \<open>What one apply step and one unapply step do to the edge of their direction, and the inverse slot.\<close>

definition addEff :: "real \<Rightarrow> edgePL \<Rightarrow> edgePL" where
  "addEff x e = (if x < - 1 then closeEdge e else setCost (addCost (rawCost e) x) e)"

definition remEff :: "real \<Rightarrow> edgePL \<Rightarrow> edgePL" where
  "remEff x e = (if x < - 1 then openEdge e else setCost (subCost (rawCost e) x) e)"

definition invVal :: "real \<Rightarrow> edgePL option \<Rightarrow> real" where
  "invVal x eo = (if x < - 1 \<and> (case eo of None \<Rightarrow> False | Some e \<Rightarrow> closedFlag e) then 0 else x)"

text \<open>Every neighbour of \<open>n\<close> is joined to \<open>n\<close> by its traversal edge.\<close>

definition hasNEdges :: "gridgraph \<Rightarrow> cell \<Rightarrow> bool" where
  "hasNEdges g n \<longleftrightarrow> (\<forall>i<8. inGrid g (nbr n i) \<longrightarrow> edgs g (nkey n i) \<noteq> None)"

text \<open>Penalties that are all doubles, with \<open>p_45 - p_135 = 5/2\<close>.\<close>

definition dblPens :: penalties where
  "dblPens = \<lparr>verticalPen = 1, horizontalPen = 1, diagonalPen = 3 / 2,
              p_0 = 0, p_135 = 1, p_90 = 2, p_45 = 7 / 2\<rparr>"

text \<open>Penalties whose traversal penalties are the \<open>double\<close> nearest to \<open>0.7\<close>.\<close>

definition roundPens :: penalties where
  "roundPens = \<lparr>verticalPen = 3152519739159347 / 2 ^ 52, horizontalPen = 3152519739159347 / 2 ^ 52,
                diagonalPen = 3152519739159347 / 2 ^ 52,
                p_0 = 0, p_135 = 1, p_90 = 2, p_45 = 3\<rparr>"

text \<open>The initial cost of the inter-cell edge in direction \<open>i\<close>, after the three tests of \<open>writeInitialCosts\<close>.\<close>

definition dirPen :: "penalties \<Rightarrow> nat \<Rightarrow> real" where
  "dirPen c i = (if i mod 2 \<noteq> 0 then diagonalPen c else if i mod 4 = 0 then verticalPen c else horizontalPen c)"

text \<open>
  A raw cost is a \<open>double\<close>: a finite one is left as it is by rounding.  The sum of a
  raw cost and a real number is exact when it needs no rounding.
\<close>

definition isDouble :: "cost \<Rightarrow> bool" where
  "isDouble d = (case d of Fin a \<Rightarrow> fl a = Fin a | PInf \<Rightarrow> True | NInf \<Rightarrow> True | NaN \<Rightarrow> True)"

definition exactSum :: "cost \<Rightarrow> real \<Rightarrow> bool" where
  "exactSum d r = (case d of Fin a \<Rightarrow> fl (a + r) = Fin (a + r) | PInf \<Rightarrow> True | NInf \<Rightarrow> True | NaN \<Rightarrow> True)"

text \<open>
  The raw cost that apply and unapply leave on an edge with payload \<open>e\<close> for the slot
  value \<open>x\<close>: a sentinel slot changes no cost, except that it is undone by subtracting
  the inverse entry 0 when the edge was closed already; an additive slot adds \<open>x\<close> and
  subtracts it again, each time rounding.
\<close>

definition roundTrip :: "real \<Rightarrow> edgePL \<Rightarrow> cost" where
  "roundTrip x e =
     (if x < - 1 then (if closedFlag e then subCost (rawCost e) 0 else rawCost e)
      else subCost (addCost (rawCost e) x) x)"

text \<open>
  The grid of two cells side by side the constructor builds from \<open>dblPens\<close>, a cost
  vector whose slot 2 is the \<open>double\<close> nearest to \<open>0.4\<close>, and one whose slot 2 is 1.
\<close>

definition demoGridD :: gridgraph where
  "demoGridD = projr (GridGraph 2 1 (0, 0) 1 (1 / 4) dblPens)"

definition demoCostInexact :: NodeCost where
  "demoCostInexact = NodeCost0(2 := 3602879701896397 / 2 ^ 53)"

definition demoCostExact :: NodeCost where
  "demoCostExact = NodeCost0(2 := 1)"

subsection \<open>The spacing penalty\<close>

text \<open>
  Modelled from the spec: the comb graph (not part of the sources).  A comb node has
  its adjacency list and its cyclic edge ordering; \<open>has\<close> is the membership test and
  \<open>dist a b\<close> the number of clockwise steps from \<open>a\<close> to \<open>b\<close>.
\<close>

record combNode =
  adjList :: "combEdge list"
  edgeOrdering :: "combEdge list"

definition has :: "combEdge list \<Rightarrow> combEdge \<Rightarrow> bool" where
  "has ord e = (e \<in> set ord)"

definition posOf :: "combEdge \<Rightarrow> combEdge list \<Rightarrow> nat" where
  "posOf e ord = length (takeWhile (\<lambda>x. x \<noteq> e) ord)"

definition dist :: "combEdge list \<Rightarrow> combEdge \<Rightarrow> combEdge \<Rightarrow> int" where
  "dist ord a b = (int (posOf b ord) - int (posOf a ord)) mod int (length ord)"

text \<open>What \<open>spacingPenalty\<close> writes to \<open>std::cerr\<close>: the edge and the node it names.\<close>

datatype warning = EdgeNotInNode combEdge combNode

text \<open>\<open>GridGraph::getSettledOutgoingEdges\<close>: slot \<open>i\<close> of the array \<open>outgoing\<close>.\<close>

definition getSettledOutgoingEdges :: "gridgraph \<Rightarrow> cell \<Rightarrow> nat \<Rightarrow> combEdge option" where
  "getSettledOutgoingEdges g n i =
     (case getNeighbor g (fst n) (snd n) i of
        None \<Rightarrow> None
      | Some neigh \<Rightarrow>
          (case getEdg g (Port n i) (Port neigh ((i + 4) mod 8)) of
             None \<Rightarrow> None
           | Some e \<Rightarrow> if length (resEdges e) > 0 then Some (hd (resEdges e)) else None))"

text \<open>
  The body of the main loop of \<open>spacingPenalty\<close> for one direction \<open>i\<close> with a
  settled edge \<open>f\<close>.  \<open>optimDistance\<close> is a \<open>size_t\<close>, so the product in \<open>dd\<close> is
  computed modulo \<open>2^64\<close>; the slot indices are taken modulo 8, of which \<open>2^64\<close> is a
  multiple.
\<close>

definition softCw :: "nat \<Rightarrow> real \<Rightarrow> int \<Rightarrow> int \<Rightarrow> NodeCost \<Rightarrow> NodeCost" where
  "softCw i pen dd j addC =
     (let k = nat ((int i + j) mod 8)
      in if addC k < - 1 then addC
         else addC(k := addC k + pen * (1 - (real_of_int j - 1) / real_of_int dd)))"

definition softCcw :: "nat \<Rightarrow> real \<Rightarrow> int \<Rightarrow> int \<Rightarrow> NodeCost \<Rightarrow> NodeCost" where
  "softCcw i pen ddd j addC =
     (let k = nat ((int i + (8 - j)) mod 8)
      in if addC k < - 1 then addC
         else addC(k := addC k + pen * (1 - (real_of_int j - 1) / real_of_int ddd)))"

definition spacingStep ::
  "penalties \<Rightarrow> combEdge list \<Rightarrow> nat \<Rightarrow> combEdge \<Rightarrow> nat \<Rightarrow> combEdge \<Rightarrow> NodeCost \<Rightarrow> NodeCost" where
  "spacingStep c ord optimDistance e i f addC =
     (let dCw = dist ord f e - 1;
          dCCw = dist ord e f - 1;
          dd = int (((nat (tmod ((dCw + 1) + dCw) 8 mod 2 ^ 64) * optimDistance) mod 2 ^ 64) mod 8);
          ddd = tmod (6 - dd) 8;
          pen = p_45 c * 2 - 1;
          addC = (if dd \<noteq> 0 then fold (softCw i pen dd) [1..dd + 1] addC else addC);
          addC = (if ddd \<noteq> 0 then fold (softCcw i pen ddd) [1..ddd + 1] addC else addC);
          addC = addC(i := - 1 * DBL_MAX);
          addC = fold (\<lambda>j a. a(nat ((int i + j) mod 8) := - 1 * DBL_MAX)) [1..dCw] addC;
          addC = fold (\<lambda>j a. a(nat ((int i + (8 - j)) mod 8) := - 1 * DBL_MAX)) [1..dCCw] addC
      in addC)"

text \<open>
  \<open>GridGraph::spacingPenalty\<close>.  The result carries the grid, which no branch
  writes to, and what was written to \<open>std::cerr\<close>.  The quotient
  \<open>8 / origEdgeNumber\<close> is computed first, before the membership test.
\<close>

definition spacingPenalty ::
  "gridgraph \<Rightarrow> cell \<Rightarrow> combNode \<Rightarrow> combEdge \<Rightarrow> error + gridgraph \<times> warning list \<times> NodeCost" where
  "spacingPenalty g n origNode e =
     (let addC = NodeCost0;
          origEdgeNumber = int (length (adjList origNode))
      in if origEdgeNumber = 0 then Inl DivByZero
         else
           let optimDistance = nat ((tdiv 8 origEdgeNumber - 1) mod 2 ^ 64)
           in if \<not> has (edgeOrdering origNode) e then Inr (g, [EdgeNotInNode e origNode], addC)
              else
                Inr (g, [],
                     fold (\<lambda>i a. case getSettledOutgoingEdges g n i of
                                    None \<Rightarrow> a
                                  | Some f \<Rightarrow> spacingStep (pens g) (edgeOrdering origNode) optimDistance e i f a)
                          [0..<8] addC))"

section \<open>The line-ordering optimiser (transitmap/optim/ILPOptimizer.cpp)\<close>

text \<open>
  The optimisation graph of the line-ordering optimiser.  Pointers (\<open>const Line*\<close>,
  \<open>OptNode*\<close>, the edge of the original graph behind an \<open>etg\<close>) are addresses.
\<close>

type_synonym linePtr = nat
type_synonym etgPtr = nat
type_synonym nodePtr = nat

text \<open>One entry of \<open>OptEdgePL::etgs\<close>.\<close>

record etgPart =
  etg :: etgPtr
  dir :: bool
  order :: nat
  wasCut :: bool

text \<open>One entry of \<open>OptEdgePL::getLines()\<close>: a line and the original lines it stands for.\<close>

record lineOcc =
  line :: linePtr
  relatives :: "linePtr list"

text \<open>
  Modelled from the spec: an \<open>OptEdge\<close> with its payload (\<open>OptGraph.h\<close> is not part of
  the sources): its address, the node it starts at, its \<open>etgs\<close>, its lines, its
  cardinality and its string representation.
\<close>

record optEdge =
  edgeAddr :: nat
  getFrom :: nodePtr
  etgs :: "etgPart list"
  getLines :: "lineOcc list"
  getCardinality :: nat
  getStrRepr :: string

text \<open>An \<open>OptNode\<close>: its address and its adjacency list.\<close>

record optNode =
  nodeAddr :: nodePtr
  getAdjList :: "optEdge list"

text \<open>What \<open>operator<<\<close> writes for a \<open>size_t\<close> and for a pointer.\<close>

fun showDigits :: "nat \<Rightarrow> nat \<Rightarrow> string" where
  "showDigits b n =
     (if b < 2 \<or> n < b then [''0123456789abcdef'' ! n]
      else showDigits b (n div b) @ [''0123456789abcdef'' ! (n mod b)])"

definition showNat :: "nat \<Rightarrow> string" where
  "showNat n = showDigits 10 n"

definition showPtr :: "nat \<Rightarrow> string" where
  "showPtr a = ''0x'' @ showDigits 16 a"

text \<open>\<open>ILPOptimizer::getILPVarName\<close>.\<close>

definition getILPVarName :: "optEdge \<Rightarrow> linePtr \<Rightarrow> nat \<Rightarrow> string" where
  "getILPVarName seg r p =
     ''x_('' @ getStrRepr seg @ '',l='' @ showPtr r @ '',p='' @ showNat p @ '')''"

text \<open>
  The hierarchical order configuration: \<open>(*hc)[etg][order]\<close>, a vector that is empty
  until something is inserted.
\<close>

type_synonym hierarOrderCfg = "etgPtr \<Rightarrow> nat \<Rightarrow> nat list"

text \<open>
  \<open>ILPOptimizer::getConfigurationFromSolution\<close>, innermost loop body first.  The
  solved program enters through \<open>getVarVal\<close>, the original graph through \<open>linePos\<close>.
\<close>

definition placeRel ::
  "(etgPtr \<Rightarrow> linePtr \<Rightarrow> nat) \<Rightarrow> optEdge \<Rightarrow> etgPart \<Rightarrow> linePtr \<Rightarrow> hierarOrderCfg \<Rightarrow> hierarOrderCfg" where
  "placeRel linePos e etgp rel hc =
     (let p = linePos (etg etgp) rel
      in if \<not> (dir etgp \<noteq> dir (hd (etgs e)))
         then hc(etg etgp := (hc (etg etgp))(order etgp := p # hc (etg etgp) (order etgp)))
         else hc(etg etgp := (hc (etg etgp))(order etgp := hc (etg etgp) (order etgp) @ [p])))"

definition lineStep ::
  "(string \<Rightarrow> real) \<Rightarrow> (etgPtr \<Rightarrow> linePtr \<Rightarrow> nat) \<Rightarrow> optEdge \<Rightarrow> etgPart \<Rightarrow> nat \<Rightarrow> lineOcc \<Rightarrow>
   hierarOrderCfg \<times> bool \<Rightarrow> error + hierarOrderCfg \<times> bool" where
  "lineStep getVarVal linePos e etgp tp lo s =
     (let varName = getILPVarName e (line lo) tp;
          val = getVarVal varName
      in if val > 1 / 2
         then (let hc = fold (placeRel linePos e etgp) (relatives lo) (fst s)
               in if snd s then Inl AssertFailed else Inr (hc, True))
         else Inr s)"

definition slotStep ::
  "(string \<Rightarrow> real) \<Rightarrow> (etgPtr \<Rightarrow> linePtr \<Rightarrow> nat) \<Rightarrow> optEdge \<Rightarrow> etgPart \<Rightarrow> nat \<Rightarrow>
   hierarOrderCfg \<Rightarrow> error + hierarOrderCfg" where
  "slotStep getVarVal linePos e etgp tp hc =
     (case foldE (lineStep getVarVal linePos e etgp tp) (getLines e) (hc, False) of
        Inl err \<Rightarrow> Inl err
      | Inr s \<Rightarrow> if snd s then Inr (fst s) else Inl AssertFailed)"

definition etgStep ::
  "(string \<Rightarrow> real) \<Rightarrow> (etgPtr \<Rightarrow> linePtr \<Rightarrow> nat) \<Rightarrow> optEdge \<Rightarrow> etgPart \<Rightarrow>
   hierarOrderCfg \<Rightarrow> error + hierarOrderCfg" where
  "etgStep getVarVal linePos e etgp hc =
     (if wasCut etgp then Inr hc
      else foldE (slotStep getVarVal linePos e etgp) [0..<getCardinality e] hc)"

definition edgeStep ::
  "(string \<Rightarrow> real) \<Rightarrow> (etgPtr \<Rightarrow> linePtr \<Rightarrow> nat) \<Rightarrow> optNode \<Rightarrow> optEdge \<Rightarrow>
   hierarOrderCfg \<Rightarrow> error + hierarOrderCfg" where
  "edgeStep getVarVal linePos n e hc =
     (if getFrom e \<noteq> nodeAddr n then Inr hc
      else foldE (etgStep getVarVal linePos e) (etgs e) hc)"

definition getConfigurationFromSolution ::
  "(string \<Rightarrow> real) \<Rightarrow> (etgPtr \<Rightarrow> linePtr \<Rightarrow> nat) \<Rightarrow> hierarOrderCfg \<Rightarrow> optNode list \<Rightarrow>
   error + hierarOrderCfg" where
  "getConfigurationFromSolution getVarVal linePos hc g =
     foldE (\<lambda>n. foldE (edgeStep getVarVal linePos n) (getAdjList n)) g hc"

text \<open>
  The statement of the extraction: the parts of the segments it visits, the lines
  the solution puts at a slot, the original positions of their relatives, and their
  placement in one go.
\<close>

definition partsOf :: "optNode list \<Rightarrow> (optEdge \<times> etgPart) list" where
  "partsOf g =
     concat (map (\<lambda>n. concat (map (\<lambda>e. map (Pair e) (filter (\<lambda>p. \<not> wasCut p) (etgs e)))
                                  (filter (\<lambda>e. getFrom e = nodeAddr n) (getAdjList n)))) g)"

definition chosen :: "(string \<Rightarrow> real) \<Rightarrow> optEdge \<Rightarrow> nat \<Rightarrow> lineOcc list" where
  "chosen getVarVal e tp = filter (\<lambda>lo. getVarVal (getILPVarName e (line lo) tp) > 1 / 2) (getLines e)"

definition positionsOf ::
  "(string \<Rightarrow> real) \<Rightarrow> (etgPtr \<Rightarrow> linePtr \<Rightarrow> nat) \<Rightarrow> optEdge \<Rightarrow> etgPart \<Rightarrow> nat list" where
  "positionsOf getVarVal linePos e etgp =
     concat (map (\<lambda>tp. concat (map (\<lambda>lo. map (linePos (etg etgp)) (relatives lo)) (chosen getVarVal e tp)))
                 [0..<getCardinality e])"

definition place :: "optEdge \<Rightarrow> etgPart \<Rightarrow> nat list \<Rightarrow> hierarOrderCfg \<Rightarrow> hierarOrderCfg" where
  "place e etgp ps hc =
     hc(etg etgp := (hc (etg etgp))(order etgp :=
        (if dir etgp = dir (hd (etgs e)) then rev ps @ hc (etg etgp) (order etgp)
         else hc (etg etgp) (order etgp) @ ps)))"

definition oneLinePerSlot :: "(string \<Rightarrow> real) \<Rightarrow> optNode list \<Rightarrow> bool" where
  "oneLinePerSlot getVarVal g =
     list_all (\<lambda>ep. list_all (\<lambda>tp. length (chosen getVarVal (fst ep) tp) = 1) [0..<getCardinality (fst ep)])
              (partsOf g)"

text \<open>A segment with two parts, one along and one against the reference direction.\<close>

definition demoSeg :: optEdge where
  "demoSeg = \<lparr>edgeAddr = 0, getFrom = 0,
              etgs = [\<lparr>etg = 0, dir = True, order = 0, wasCut = False\<rparr>,
                      \<lparr>etg = 1, dir = False, order = 0, wasCut = False\<rparr>],
              getLines = [\<lparr>line = 0, relatives = [0, 1]\<rparr>],
              getCardinality = 1,
              getStrRepr = ''s''\<rparr>"

definition demoOptGraph :: "optNode list" where
  "demoOptGraph = [\<lparr>nodeAddr = 0, getAdjList = [demoSeg]\<rparr>]"

text \<open>
  Modelled from the spec: the interface of the ILP back end
  (\<open>shared/optim/ILPSolvProv.h\<close> is not part of the sources).  A program is its rows
  and its columns, numbered from 0 in the order they were added; \<open>addRow\<close> and
  \<open>addCol\<close> return the number of the new row or column, \<open>addColToRow\<close> appends a
  coefficient to a row, \<open>getNumConstrs\<close> is the number of rows, and \<open>getVarByName\<close>
  is the first column with the name, or nothing (\<open>-1\<close>).  Only the row and column
  types the optimiser uses are listed.
\<close>

datatype rowType = FIX | UP

datatype colType = BIN

record ilpRow =
  rowName :: string
  bnd :: real
  rowTy :: rowType
  coefs :: "(nat \<times> real) list"

record ilpCol =
  colName :: string
  colTy :: colType
  objCoef :: real

record ilpSolver =
  numRows :: nat
  rowAt :: "nat \<Rightarrow> ilpRow"
  numCols :: nat
  colAt :: "nat \<Rightarrow> ilpCol"

definition getSolver :: ilpSolver where
  "getSolver = \<lparr>numRows = 0, rowAt = (\<lambda>r. \<lparr>rowName = [], bnd = 0, rowTy = FIX, coefs = []\<rparr>),
                numCols = 0, colAt = (\<lambda>c. \<lparr>colName = [], colTy = BIN, objCoef = 0\<rparr>)\<rparr>"

definition getNumConstrs :: "ilpSolver \<Rightarrow> nat" where
  "getNumConstrs lp = numRows lp"

definition addRow :: "string \<Rightarrow> real \<Rightarrow> rowType \<Rightarrow> ilpSolver \<Rightarrow> nat \<times> ilpSolver" where
  "addRow name b t lp =
     (numRows lp,
      lp\<lparr>numRows := numRows lp + 1,
         rowAt := (rowAt lp)(numRows lp := \<lparr>rowName = name, bnd = b, rowTy = t, coefs = []\<rparr>)\<rparr>)"

definition addCol :: "string \<Rightarrow> colType \<Rightarrow> real \<Rightarrow> ilpSolver \<Rightarrow> nat \<times> ilpSolver" where
  "addCol name t c lp =
     (numCols lp,
      lp\<lparr>numCols := numCols lp + 1,
         colAt := (colAt lp)(numCols lp := \<lparr>colName = name, colTy = t, objCoef = c\<rparr>)\<rparr>)"

definition addColToRow :: "nat \<Rightarrow> nat \<Rightarrow> real \<Rightarrow> ilpSolver \<Rightarrow> ilpSolver" where
  "addColToRow r c a lp =
     lp\<lparr>rowAt := (rowAt lp)(r := (rowAt lp r)\<lparr>coefs := coefs (rowAt lp r) @ [(c, a)]\<rparr>)\<rparr>"

definition getVarByName :: "ilpSolver \<Rightarrow> string \<Rightarrow> nat option" where
  "getVarByName lp name = find (\<lambda>c. colName (colAt lp c) = name) [0..<numCols lp]"

text \<open>
  Modelled from the spec: a solution gives every column a value; it is feasible when
  every row holds (\<open>FIX\<close>: the weighted sum equals the bound, \<open>UP\<close>: it is at most the
  bound) and every binary column is 0 or 1.
\<close>

definition rowSum :: "(nat \<Rightarrow> real) \<Rightarrow> ilpRow \<Rightarrow> real" where
  "rowSum v r = sum_list (map (\<lambda>ca. snd ca * v (fst ca)) (coefs r))"

definition rowHolds :: "(nat \<Rightarrow> real) \<Rightarrow> ilpRow \<Rightarrow> bool" where
  "rowHolds v r = (case rowTy r of FIX \<Rightarrow> rowSum v r = bnd r | UP \<Rightarrow> rowSum v r \<le> bnd r)"

definition feasible :: "ilpSolver \<Rightarrow> (nat \<Rightarrow> real) \<Rightarrow> bool" where
  "feasible lp v =
     (list_all (\<lambda>r. rowHolds v (rowAt lp r)) [0..<numRows lp] \<and>
      list_all (\<lambda>c. v c = 0 \<or> v c = 1) [0..<numCols lp])"

text \<open>The first part of \<open>ILPOptimizer::createProblem\<close>: the rows and columns of a segment.\<close>

definition slotRowName :: "optEdge \<Rightarrow> nat \<Rightarrow> string" where
  "slotRowName e p = ''sum('' @ getStrRepr e @ '',p='' @ showNat p @ '')''"

definition lineRowName :: "optEdge \<Rightarrow> linePtr \<Rightarrow> string" where
  "lineRowName e l = ''sum('' @ getStrRepr e @ '',l='' @ showPtr l @ '')''"

definition colStep :: "optEdge \<Rightarrow> lineOcc \<Rightarrow> nat \<Rightarrow> nat \<Rightarrow> nat \<Rightarrow> ilpSolver \<Rightarrow> ilpSolver" where
  "colStep e l row rowA p lp =
     (let varName = getILPVarName e (line l) p;
          cc = addCol varName BIN 0 lp;
          curCol = fst cc;
          lp = addColToRow row curCol 1 (snd cc);
          lp = addColToRow (rowA + p) curCol 1 lp
      in lp)"

definition lineRows :: "optEdge \<Rightarrow> nat \<Rightarrow> lineOcc \<Rightarrow> ilpSolver \<Rightarrow> ilpSolver" where
  "lineRows e rowA l lp =
     (let rr = addRow (lineRowName e (line l)) 1 FIX lp
      in fold (colStep e l (fst rr) rowA) [0..<getCardinality e] (snd rr))"

definition segRows :: "optEdge \<Rightarrow> ilpSolver \<Rightarrow> ilpSolver" where
  "segRows e lp =
     (let rowA = getNumConstrs lp;
          lp = fold (\<lambda>p lp. snd (addRow (slotRowName e p) 1 FIX lp)) [0..<getCardinality e] lp
      in fold (lineRows e rowA) (getLines e) lp)"

definition segStep :: "optNode \<Rightarrow> optEdge \<Rightarrow> ilpSolver \<Rightarrow> ilpSolver" where
  "segStep n e lp = (if getFrom e \<noteq> nodeAddr n then lp else segRows e lp)"

definition writeSegments :: "optNode list \<Rightarrow> ilpSolver \<Rightarrow> ilpSolver" where
  "writeSegments g lp = fold (\<lambda>n. fold (segStep n) (getAdjList n)) g lp"

text \<open>
  Modelled from the spec: what the optimiser asks of the bundled-graph layer and of
  the scorer (none of them part of the sources): the line pairs of a segment, the
  partner segments of a line pair at a node, the two crossing tests, the crossing
  penalties of a node, and the id of a line.
\<close>

type_synonym linePair = "lineOcc \<times> lineOcc"
type_synonym posCom = "nat \<times> nat"
type_synonym posComPair = "posCom \<times> posCom"
type_synonym edgePair = "optEdge \<times> optEdge"

record optimEnv =
  getLinePairs :: "optEdge \<Rightarrow> linePair list"
  getEdgePartners :: "optNode \<Rightarrow> optEdge \<Rightarrow> linePair \<Rightarrow> optEdge list"
  getEdgePartnerPairs :: "optNode \<Rightarrow> optEdge \<Rightarrow> linePair \<Rightarrow> edgePair list"
  crossesSame :: "optNode \<Rightarrow> optEdge \<Rightarrow> optEdge \<Rightarrow> posComPair \<Rightarrow> bool"
  crossesDiff :: "optNode \<Rightarrow> optEdge \<Rightarrow> edgePair \<Rightarrow> posCom \<Rightarrow> bool"
  getCrossingPenaltySameSeg :: "optNode \<Rightarrow> int"
  getCrossingPenaltyDiffSeg :: "optNode \<Rightarrow> int"
  lineId :: "linePtr \<Rightarrow> string"

text \<open>The two overloads of \<open>ILPOptimizer::getPositionCombinations\<close>.\<close>

definition getPositionCombinations2 :: "optEdge \<Rightarrow> optEdge \<Rightarrow> posComPair list" where
  "getPositionCombinations2 a b =
     concat (map (\<lambda>posLineAinA.
       concat (map (\<lambda>posLineBinA.
         if posLineAinA = posLineBinA then []
         else concat (map (\<lambda>posLineAinB.
                concat (map (\<lambda>posLineBinB.
                  if posLineAinB = posLineBinB then []
                  else [((posLineAinA, posLineAinB), (posLineBinA, posLineBinB))])
                  [0..<getCardinality b]))
                [0..<getCardinality b]))
         [0..<getCardinality a]))
       [0..<getCardinality a])"

definition getPositionCombinations1 :: "optEdge \<Rightarrow> posCom list" where
  "getPositionCombinations1 a =
     concat (map (\<lambda>posLineAinA.
       concat (map (\<lambda>posLineBinA.
         if posLineAinA = posLineBinA then [] else [(posLineAinA, posLineBinA)])
         [0..<getCardinality a]))
       [0..<getCardinality a])"

text \<open>
  The objective coefficient of a decision variable: an \<open>int\<close> times two \<open>size_t\<close>,
  computed in \<open>size_t\<close>.
\<close>

definition decCoef :: "int \<Rightarrow> linePair \<Rightarrow> real" where
  "decCoef pen linepair =
     real ((nat (pen mod 2 ^ 64) * length (relatives (fst linepair)) *
            length (relatives (snd linepair))) mod 2 ^ 64)"

text \<open>\<open>ILPOptimizer::writeSameSegConstraints\<close>, innermost loop body first.\<close>

definition sameSegDecName :: "optimEnv \<Rightarrow> optNode \<Rightarrow> optEdge \<Rightarrow> optEdge \<Rightarrow> linePair \<Rightarrow> string" where
  "sameSegDecName env node segmentA segmentB linepair =
     ''x_dec('' @ getStrRepr segmentA @ '','' @ getStrRepr segmentB @ '','' @
     showPtr (line (fst linepair)) @ ''('' @ lineId env (line (fst linepair)) @ ''),'' @
     showPtr (line (snd linepair)) @ ''('' @ lineId env (line (snd linepair)) @ ''),'' @
     showPtr (nodeAddr node) @ '')''"

definition sameSegRowName :: "optNode \<Rightarrow> optEdge \<Rightarrow> optEdge \<Rightarrow> linePair \<Rightarrow> posComPair \<Rightarrow> string" where
  "sameSegRowName node segmentA segmentB linepair poscomb =
     ''dec_sum('' @ getStrRepr segmentA @ '','' @ getStrRepr segmentB @ '','' @
     showPtr (line (fst linepair)) @ '','' @ showPtr (line (snd linepair)) @
     ''pa='' @ showNat (fst (fst poscomb)) @ '',pb='' @ showNat (fst (snd poscomb)) @
     '',pa'' @ [CHR 0x27] @ ''='' @ showNat (snd (fst poscomb)) @
     '',pb'' @ [CHR 0x27] @ ''='' @ showNat (snd (snd poscomb)) @
     '',n='' @ showPtr (nodeAddr node) @ '')''"

definition sameSegComb ::
  "optimEnv \<Rightarrow> optNode \<Rightarrow> optEdge \<Rightarrow> optEdge \<Rightarrow> linePair \<Rightarrow> nat \<Rightarrow> posComPair \<Rightarrow>
   ilpSolver \<Rightarrow> error + ilpSolver" where
  "sameSegComb env node segmentA segmentB linepair decisionVar poscomb lp =
     (if crossesSame env node segmentA segmentB poscomb
      then (case getVarByName lp (getILPVarName segmentA (line (fst linepair)) (fst (fst poscomb))) of
              None \<Rightarrow> Inl AssertFailed
            | Some lineAinAatP \<Rightarrow>
          (case getVarByName lp (getILPVarName segmentA (line (snd linepair)) (fst (snd poscomb))) of
              None \<Rightarrow> Inl AssertFailed
            | Some lineBinAatP \<Rightarrow>
          (case getVarByName lp (getILPVarName segmentB (line (fst linepair)) (snd (fst poscomb))) of
              None \<Rightarrow> Inl AssertFailed
            | Some lineAinBatP \<Rightarrow>
          (case getVarByName lp (getILPVarName segmentB (line (snd linepair)) (snd (snd poscomb))) of
              None \<Rightarrow> Inl AssertFailed
            | Some lineBinBatP \<Rightarrow>
                (let rr = addRow (sameSegRowName node segmentA segmentB linepair poscomb) 3 UP lp;
                     row = fst rr;
                     lp = addColToRow row lineAinAatP 1 (snd rr);
                     lp = addColToRow row lineBinAatP 1 lp;
                     lp = addColToRow row lineAinBatP 1 lp;
                     lp = addColToRow row lineBinBatP 1 lp;
                     lp = addColToRow row decisionVar (- 1) lp
                 in Inr lp)))))
      else Inr lp)"

definition sameSegPartner ::
  "optimEnv \<Rightarrow> optNode \<Rightarrow> nat list \<Rightarrow> optEdge \<Rightarrow> linePair \<Rightarrow> optEdge \<Rightarrow>
   ilpSolver \<Rightarrow> error + ilpSolver" where
  "sameSegPartner env node processed segmentA linepair segmentB lp =
     (if edgeAddr segmentB \<in> set processed then Inr lp
      else (let cc = addCol (sameSegDecName env node segmentA segmentB linepair) BIN
                       (decCoef (getCrossingPenaltySameSeg env node) linepair) lp
            in foldE (sameSegComb env node segmentA segmentB linepair (fst cc))
                 (getPositionCombinations2 segmentA segmentB) (snd cc)))"

definition sameSegSegment ::
  "optimEnv \<Rightarrow> optNode \<Rightarrow> optEdge \<Rightarrow> nat list \<times> ilpSolver \<Rightarrow> error + nat list \<times> ilpSolver" where
  "sameSegSegment env node segmentA s =
     (let processed = edgeAddr segmentA # fst s
      in case foldE (\<lambda>linepair.
                foldE (sameSegPartner env node processed segmentA linepair)
                  (getEdgePartners env node segmentA linepair))
              (getLinePairs env segmentA) (snd s) of
           Inl err \<Rightarrow> Inl err
         | Inr lp \<Rightarrow> Inr (processed, lp))"

definition writeSameSegConstraints :: "optimEnv \<Rightarrow> optNode list \<Rightarrow> ilpSolver \<Rightarrow> error + ilpSolver" where
  "writeSameSegConstraints env g lp =
     foldE (\<lambda>node lp. case foldE (sameSegSegment env node) (getAdjList node) ([], lp) of
                         Inl err \<Rightarrow> Inl err
                       | Inr s \<Rightarrow> Inr (snd s)) g lp"

text \<open>\<open>ILPOptimizer::writeDiffSegConstraints\<close>, innermost loop body first.\<close>

definition diffSegDecName :: "optimEnv \<Rightarrow> optNode \<Rightarrow> optEdge \<Rightarrow> edgePair \<Rightarrow> linePair \<Rightarrow> string" where
  "diffSegDecName env node segmentA segments linepair =
     ''x_dec('' @ getStrRepr segmentA @ '','' @ getStrRepr (fst segments) @
     getStrRepr (snd segments) @ '','' @
     showPtr (line (fst linepair)) @ ''('' @ lineId env (line (fst linepair)) @ ''),'' @
     showPtr (line (snd linepair)) @ ''('' @ lineId env (line (snd linepair)) @ ''),'' @
     showPtr (nodeAddr node) @ '')''"

definition diffSegRowName :: "optNode \<Rightarrow> optEdge \<Rightarrow> edgePair \<Rightarrow> linePair \<Rightarrow> posCom \<Rightarrow> string" where
  "diffSegRowName node segmentA segments linepair poscomb =
     ''dec_sum('' @ getStrRepr segmentA @ '','' @ getStrRepr (fst segments) @
     getStrRepr (snd segments) @ '','' @
     showPtr (line (fst linepair)) @ '','' @ showPtr (line (snd linepair)) @
     ''pa='' @ showNat (fst poscomb) @ '',pb='' @ showNat (snd poscomb) @
     '',n='' @ showPtr (nodeAddr node) @ '')''"

definition diffSegComb ::
  "optimEnv \<Rightarrow> optNode \<Rightarrow> optEdge \<Rightarrow> edgePair \<Rightarrow> linePair \<Rightarrow> nat \<Rightarrow> posCom \<Rightarrow>
   ilpSolver \<Rightarrow> error + ilpSolver" where
  "diffSegComb env node segmentA segments linepair decisionVar poscomb lp =
     (if crossesDiff env node segmentA segments poscomb
      then (case getVarByName lp (getILPVarName segmentA (line (fst linepair)) (fst poscomb)) of
              None \<Rightarrow> Inl AssertFailed
            | Some lineAinAatP \<Rightarrow>
          (case getVarByName lp (getILPVarName segmentA (line (snd linepair)) (snd poscomb)) of
              None \<Rightarrow> Inl AssertFailed
            | Some lineBinAatP \<Rightarrow>
                (let rr = addRow (diffSegRowName node segmentA segments linepair poscomb) 1 UP lp;
                     row = fst rr;
                     lp = addColToRow row lineAinAatP 1 (snd rr);
                     lp = addColToRow row lineBinAatP 1 lp;
                     lp = addColToRow row decisionVar (- 1) lp
                 in Inr lp)))
      else Inr lp)"

definition diffSegPartner ::
  "optimEnv \<Rightarrow> optNode \<Rightarrow> optEdge \<Rightarrow> linePair \<Rightarrow> edgePair \<Rightarrow> ilpSolver \<Rightarrow> error + ilpSolver" where
  "diffSegPartner env node segmentA linepair segments lp =
     (let cc = addCol (diffSegDecName env node segmentA segments linepair) BIN
                 (decCoef (getCrossingPenaltyDiffSeg env node) linepair) lp
      in foldE (diffSegComb env node segmentA segments linepair (fst cc))
           (getPositionCombinations1 segmentA) (snd cc))"

definition diffSegSegment :: "optimEnv \<Rightarrow> optNode \<Rightarrow> optEdge \<Rightarrow> ilpSolver \<Rightarrow> error + ilpSolver" where
  "diffSegSegment env node segmentA lp =
     foldE (\<lambda>linepair.
        foldE (diffSegPartner env node segmentA linepair)
          (getEdgePartnerPairs env node segmentA linepair))
       (getLinePairs env segmentA) lp"

definition writeDiffSegConstraints :: "optimEnv \<Rightarrow> optNode list \<Rightarrow> ilpSolver \<Rightarrow> error + ilpSolver" where
  "writeDiffSegConstraints env g lp =
     foldE (\<lambda>node. foldE (diffSegSegment env node) (getAdjList node)) g lp"

text \<open>
  \<open>ILPOptimizer::createProblem\<close>.  \<open>update\<close> hands the pending rows and columns to
  the back end and changes nothing in this model.
\<close>

definition createProblem :: "optimEnv \<Rightarrow> optNode list \<Rightarrow> error + ilpSolver" where
  "createProblem env g =
     (let lp = getSolver;
          lp = writeSegments g lp
      in case writeSameSegConstraints env g lp of
           Inl err \<Rightarrow> Inl err
         | Inr lp \<Rightarrow> writeDiffSegConstraints env g lp)"

text \<open>
  The rows below \<open>N\<close> and the columns below \<open>C\<close> of \<open>lp\<close> are those of \<open>lp0\<close>, and \<open>lp\<close>
  has at least that many.
\<close>

definition keepsBelow :: "nat \<Rightarrow> nat \<Rightarrow> ilpSolver \<Rightarrow> ilpSolver \<Rightarrow> bool" where
  "keepsBelow N C lp0 lp =
     (N \<le> numRows lp \<and> C \<le> numCols lp \<and>
      (\<forall>r<N. rowAt lp r = rowAt lp0 r) \<and> (\<forall>c<C. colAt lp c = colAt lp0 c))"

text \<open>
  The segments \<open>createProblem\<close> visits, in the order it visits them, and the numbers
  of the rows and columns it gives them: the segments before the \<open>k\<close>-th have taken
  \<open>rowBase\<close> rows and \<open>colBase\<close> columns, and the variable of the \<open>j\<close>-th line of the
  \<open>k\<close>-th segment at slot \<open>p\<close> is column \<open>xCol g k j p\<close>.
\<close>

definition segmentsOf :: "optNode list \<Rightarrow> optEdge list" where
  "segmentsOf g = concat (map (\<lambda>n. filter (\<lambda>e. getFrom e = nodeAddr n) (getAdjList n)) g)"

definition rowBase :: "optEdge list \<Rightarrow> nat" where
  "rowBase es = sum_list (map (\<lambda>e. getCardinality e + length (getLines e)) es)"

definition colBase :: "optEdge list \<Rightarrow> nat" where
  "colBase es = sum_list (map (\<lambda>e. length (getLines e) * getCardinality e) es)"

definition xCol :: "optNode list \<Rightarrow> nat \<Rightarrow> nat \<Rightarrow> nat \<Rightarrow> nat" where
  "xCol g k j p = colBase (take k (segmentsOf g)) + j * getCardinality (segmentsOf g ! k) + p"

text \<open>The rows and columns of segment \<open>e\<close> stand in \<open>lp\<close> from row \<open>N\<close> and column \<open>C\<close> on.\<close>

definition segWritten :: "optEdge \<Rightarrow> nat \<Rightarrow> nat \<Rightarrow> ilpSolver \<Rightarrow> bool" where
  "segWritten e N C lp =
     ((\<forall>p<getCardinality e. rowAt lp (N + p) =
         \<lparr>rowName = slotRowName e p, bnd = 1, rowTy = FIX,
          coefs = map (\<lambda>j. (C + j * getCardinality e + p, 1)) [0..<length (getLines e)]\<rparr>) \<and>
      (\<forall>j<length (getLines e). rowAt lp (N + getCardinality e + j) =
         \<lparr>rowName = lineRowName e (line (getLines e ! j)), bnd = 1, rowTy = FIX,
          coefs = map (\<lambda>p. (C + j * getCardinality e + p, 1)) [0..<getCardinality e]\<rparr>) \<and>
      (\<forall>j<length (getLines e). \<forall>p<getCardinality e. colAt lp (C + j * getCardinality e + p) =
         \<lparr>colName = getILPVarName e (line (getLines e ! j)) p, colTy = BIN, objCoef = 0\<rparr>))"

text \<open>
  A component with one segment of two lines and two slots, no line pairs to
  penalise, and the solution that puts the first line at slot 0 and the second at
  slot 1.
\<close>

definition demoSeg2 :: optEdge where
  "demoSeg2 = \<lparr>edgeAddr = 1, getFrom = 0,
               etgs = [\<lparr>etg = 0, dir = True, order = 0, wasCut = False\<rparr>],
               getLines = [\<lparr>line = 0, relatives = [0]\<rparr>, \<lparr>line = 1, relatives = [1]\<rparr>],
               getCardinality = 2,
               getStrRepr = ''s''\<rparr>"

definition demoOptGraph2 :: "optNode list" where
  "demoOptGraph2 = [\<lparr>nodeAddr = 0, getAdjList = [demoSeg2]\<rparr>]"

definition demoEnv :: optimEnv where
  "demoEnv = \<lparr>getLinePairs = (\<lambda>e. []),
              getEdgePartners = (\<lambda>n e lpair. []),
              getEdgePartnerPairs = (\<lambda>n e lpair. []),
              crossesSame = (\<lambda>n a b pc. False),
              crossesDiff = (\<lambda>n a bs pc. False),
              getCrossingPenaltySameSeg = (\<lambda>n. 4),
              getCrossingPenaltyDiffSeg = (\<lambda>n. 1),
              lineId = (\<lambda>l. [])\<rparr>"

definition demoSolution :: "nat \<Rightarrow> real" where
  "demoSolution c = (if c = 0 \<or> c = 3 then 1 else 0)"

definition demoProblem :: ilpSolver where
  "demoProblem = projr (createProblem demoEnv demoOptGraph2)"

section \<open>Loops and the edge store\<close>

lemma edgs_setEdg: "edgs (setEdg g a b e) K = (if K = {a, b} then Some e else edgs g K)"
  by (simp add: setEdg_def)

lemma edgs_addEdg:
  "edgs (addEdg g a b e) K = (if K = {a, b} \<and> edgs g {a, b} = None then Some e else edgs g K)"
  by (simp add: addEdg_def getEdg_def setEdg_def split: option.split)

lemma edgs_addNd: "edgs (addNd g n pt) = edgs g"
  by (simp add: addNd_def)

lemma fold_untouched:
  assumes "\<And>x s. x \<in> set xs \<Longrightarrow> obs (f x s) = obs s"
  shows "obs (fold f xs s) = obs s"
  using assms by (induction xs arbitrary: s) simp_all

lemma fold_touch_once:
  assumes "distinct xs" "x0 \<in> set xs"
    and "\<And>x s. x \<in> set xs \<Longrightarrow> x \<noteq> x0 \<Longrightarrow> obs (f x s) = obs s"
    and "\<And>s. obs (f x0 s) = F (obs s)"
  shows "obs (fold f xs s) = F (obs s)"
  using assms(1,2,3)
proof (induction xs arbitrary: s)
  case Nil
  then show ?case by simp
next
  case (Cons x xs)
  show ?case
  proof (cases "x = x0")
    case True
    then have "x0 \<notin> set xs" using Cons.prems by simp
    then have "obs (fold f xs (f x s)) = obs (f x s)"
      by (intro fold_untouched Cons.prems(3)) auto
    then show ?thesis using True assms(4) by simp
  next
    case False
    then have "x0 \<in> set xs" "distinct xs" using Cons.prems by auto
    then have "obs (fold f xs (f x s)) = F (obs (f x s))" using Cons.IH Cons.prems(3) by simp
    then show ?thesis using False Cons.prems(3) by simp
  qed
qed

lemma fold_nested:
  "fold (\<lambda>x. fold (f x) (ys x)) xs = fold (\<lambda>p. f (fst p) (snd p)) (concat (map (\<lambda>x. map (Pair x) (ys x)) xs))"
  by (induction xs) (simp_all add: fold_map comp_def)

lemma upt8: "[0..<8] = [0, 1, 2, 3, 4, 5, 6, 7]"
  by (simp add: upt_rec)




lemma lt8_cases: "i < 8 \<Longrightarrow> i = 0 \<or> i = 1 \<or> i = 2 \<or> i = 3 \<or> i = 4 \<or> i = 5 \<or> i = 6 \<or> i = (7::nat)"
  by arith






lemma edgs_writeBend:
  "edgs (writeBend c i j g) K =
     (if K = {Port c i, Port c j} \<and> bendDeg i j \<noteq> 1 \<and> edgs g K = None
      then Some (bendPL (pens g) (bendDeg i j)) else edgs g K)"
  by (auto simp add: writeBend_def Let_def edgs_addEdg bendPL_def)




section \<open>Bounds of the cell lookup\<close>

lemma uint_add_offset:
  fixes c :: size_t
  assumes "- 1 \<le> d" "d \<le> 1"
  shows "uint (c + word_of_int d) = (uint c + d) mod 2 ^ 64"
  by (simp add: uint_word_ariths uint_word_of_int mod_add_right_eq)

text \<open>
  C10.  \<open>getNode\<close> answers none for every coordinate pair with \<open>x \<ge> W\<close> or
  \<open>y \<ge> H\<close>.  Hence for a cell \<open>(cx, cy)\<close> of the grid and any direction whose offset
  leaves the grid, \<open>getNeighbor\<close> answers none; this covers the unsigned wrap-around
  of \<open>cx - 1\<close> at \<open>cx = 0\<close> (and of \<open>cy - 1\<close> at \<open>cy = 0\<close>).
\<close>

theorem getNeighbor_border_none:
  "(xWidth g \<le> x \<or> yHeight g \<le> y \<longrightarrow> getNode g x y = None) \<and>
   (cx < xWidth g \<and> cy < yHeight g \<and>
      (uint cx + nbX i < 0 \<or> uint (xWidth g) \<le> uint cx + nbX i \<or>
       uint cy + nbY i < 0 \<or> uint (yHeight g) \<le> uint cy + nbY i)
    \<longrightarrow> getNeighbor g cx cy i = None)"
proof (intro conjI impI)
  assume "xWidth g \<le> x \<or> yHeight g \<le> y"
  then show "getNode g x y = None" by (simp add: getNode_def)
next
  assume h: "cx < xWidth g \<and> cy < yHeight g \<and>
      (uint cx + nbX i < 0 \<or> uint (xWidth g) \<le> uint cx + nbX i \<or>
       uint cy + nbY i < 0 \<or> uint (yHeight g) \<le> uint cy + nbY i)"
  have bx: "- 1 \<le> nbX i" "nbX i \<le> 1" by (simp_all add: nbX_def)
  have by': "- 1 \<le> nbY i" "nbY i \<le> 1" by (simp_all add: nbY_def)
  have ux: "uint (cx + word_of_int (nbX i)) = (uint cx + nbX i) mod 2 ^ 64"
    using bx by (rule uint_add_offset)
  have uy: "uint (cy + word_of_int (nbY i)) = (uint cy + nbY i) mod 2 ^ 64"
    using by' by (rule uint_add_offset)
  have cxW: "uint cx < uint (xWidth g)" and cyH: "uint cy < uint (yHeight g)"
    using h by (simp_all add: word_less_def)
  have W: "uint (xWidth g) < 2 ^ 64" and H: "uint (yHeight g) < 2 ^ 64"
    using uint_lt2p [of "xWidth g"] uint_lt2p [of "yHeight g"] by simp_all
  have cx0: "0 \<le> uint cx" and cy0: "0 \<le> uint cy" by simp_all
  from h have "uint cx + nbX i < 0 \<or> uint (xWidth g) \<le> uint cx + nbX i \<or>
       uint cy + nbY i < 0 \<or> uint (yHeight g) \<le> uint cy + nbY i" by simp
  then have "uint (xWidth g) \<le> uint (cx + word_of_int (nbX i)) \<or>
             uint (yHeight g) \<le> uint (cy + word_of_int (nbY i))"
  proof (elim disjE)
    assume n: "uint cx + nbX i < 0"
    then have "uint cx + nbX i = - 1" using bx cx0 by linarith
    then have "(uint cx + nbX i) mod 2 ^ 64 = 2 ^ 64 - 1" by simp
    then show ?thesis using ux W by simp
  next
    assume n: "uint (xWidth g) \<le> uint cx + nbX i"
    then have "uint cx + nbX i < 2 ^ 64" "0 \<le> uint cx + nbX i" using cxW W bx cx0 by linarith+
    then have "(uint cx + nbX i) mod 2 ^ 64 = uint cx + nbX i" by simp
    then show ?thesis using ux n by simp
  next
    assume n: "uint cy + nbY i < 0"
    then have "uint cy + nbY i = - 1" using by' cy0 by linarith
    then have "(uint cy + nbY i) mod 2 ^ 64 = 2 ^ 64 - 1" by simp
    then show ?thesis using uy H by simp
  next
    assume n: "uint (yHeight g) \<le> uint cy + nbY i"
    then have "uint cy + nbY i < 2 ^ 64" "0 \<le> uint cy + nbY i" using cyH H by' cy0 by linarith+
    then have "(uint cy + nbY i) mod 2 ^ 64 = uint cy + nbY i" by simp
    then show ?thesis using uy n by simp
  qed
  then show "getNeighbor g cx cy i = None"
    by (simp add: getNeighbor_def getNode_def word_le_def)
qed

theorem getNeighbor_border_none_witness:
  "getNode (initMembers 3 3 (0, 0) 1 (1 / 4) demoPens) 3 0 = None \<and>
   getNeighbor (initMembers 3 3 (0, 0) 1 (1 / 4) demoPens) 0 2 6 = None \<and>
   getNeighbor (initMembers 3 3 (0, 0) 1 (1 / 4) demoPens) 0 2 0 = None"
  using getNeighbor_border_none [of "initMembers 3 3 (0, 0) 1 (1 / 4) demoPens" 3 0 0 2 6]
    getNeighbor_border_none [of "initMembers 3 3 (0, 0) 1 (1 / 4) demoPens" 3 0 0 2 0]
  by (simp add: initMembers_def nbX_def nbY_def)

section \<open>Frame conditions and the eight directions\<close>

lemma sameCells_refl [frame]: "sameCells g g"
  by (simp add: sameCells_def sameParams_def)

lemma sameCells_trans: "sameCells g g' \<Longrightarrow> sameCells g' g'' \<Longrightarrow> sameCells g g''"
  by (simp add: sameCells_def sameParams_def)

lemma sameParams_refl [frame]: "sameParams g g"
  by (simp add: sameParams_def)

lemma sameParams_trans: "sameParams g g' \<Longrightarrow> sameParams g' g'' \<Longrightarrow> sameParams g g''"
  by (simp add: sameParams_def)

lemma sameCells_params: "sameCells g g' \<Longrightarrow> sameParams g g'"
  by (simp add: sameCells_def)

lemma sameParams_fold:
  assumes "\<And>x s. sameParams s (f x s)"
  shows "sameParams s (fold f xs s)"
proof (induction xs arbitrary: s)
  case Nil
  show ?case by (simp add: sameParams_refl)
next
  case (Cons x xs)
  show ?case using sameParams_trans [OF assms [of s x] Cons.IH [of "f x s"]] by simp
qed

lemma sameCells_fold:
  assumes "\<And>x s. sameCells s (f x s)"
  shows "sameCells s (fold f xs s)"
proof (induction xs arbitrary: s)
  case Nil
  show ?case by (simp add: sameCells_refl)
next
  case (Cons x xs)
  show ?case using sameCells_trans [OF assms [of s x] Cons.IH [of "f x s"]] by simp
qed

lemma getNode_sameCells: "sameCells g g' \<Longrightarrow> getNode g' x y = getNode g x y"
  by (simp add: sameCells_def sameParams_def getNode_def)

lemma getNeighbor_sameCells: "sameCells g g' \<Longrightarrow> getNeighbor g' x y i = getNeighbor g x y i"
  by (simp add: getNeighbor_def getNode_sameCells)

lemma sameCells_setEdg [frame]: "sameCells g (setEdg g a b e)"
  by (simp add: sameCells_def sameParams_def setEdg_def)

lemma sameCells_addEdg [frame]: "sameCells g (addEdg g a b e)"
  by (simp add: addEdg_def sameCells_setEdg sameCells_refl split: option.split)

lemma sameCells_addNd [frame]: "sameCells g (addNd g n pt)"
  by (simp add: sameCells_def sameParams_def addNd_def)

text \<open>Offsets of the eight directions.\<close>

lemma nb_table:
  "nbX 0 = 0" "nbX (Suc 0) = 1" "nbY (Suc 0) = 1" "nbX 1 = 1" "nbX 2 = 1" "nbX 3 = 1" "nbX 4 = 0" "nbX 5 = - 1" "nbX 6 = - 1" "nbX 7 = - 1"
  "nbY 0 = 1" "nbY 1 = 1" "nbY 2 = 0" "nbY 3 = - 1" "nbY 4 = - 1" "nbY 5 = - 1" "nbY 6 = 0" "nbY 7 = 1"
  by (simp_all add: nbX_def nbY_def)

lemma off_table:
  "off 0 = (0, 1)" "off (Suc 0) = (1, 1)" "off 1 = (1, 1)" "off 2 = (1, 0)" "off 3 = (1, - 1)"
  "off 4 = (0, - 1)" "off 5 = (- 1, - 1)" "off 6 = (- 1, 0)" "off 7 = (- 1, 1)"
  by (simp_all add: off_def nb_table)

lemma off_inj:
  assumes "i < 8" "j < 8" "off i = off j"
  shows "i = j"
  using lt8_cases [OF assms(1)] lt8_cases [OF assms(2)] assms(3)
  by (elim disjE) (simp_all add: off_table)

lemma off_nonzero: "off i \<noteq> (0, 0)"
proof (cases "i < 8")
  case True
  then show ?thesis using lt8_cases [of i] by (auto simp: off_table)
next
  case False
  then have "nbX i = - 1" by (simp add: nbX_def)
  then show ?thesis by (simp add: off_def)
qed

lemma off_opp: "i < 8 \<Longrightarrow> off ((i + 4) mod 8) = (- fst (off i), - snd (off i))"
  using lt8_cases [of i] by (auto simp: off_table)

lemma opp_lt8: "(i + 4) mod 8 < (8::nat)"
  by simp

lemma opp_opp: "i < 8 \<Longrightarrow> ((i + 4) mod 8 + 4) mod 8 = (i::nat)"
  by presburger

lemma getNeighbor_Some:
  "getNeighbor g x y i = Some c \<longleftrightarrow>
     c = nbr (x, y) i \<and> fst c < xWidth g \<and> snd c < yHeight g \<and> grid g c"
  by (auto simp add: getNeighbor_def getNode_def nbr_def off_def not_le)

lemma nbr_neq: "nbr c i \<noteq> c"
  using off_nonzero [of i] by (cases c; cases "off i") (auto simp: nbr_def)

lemma nbr_inj: "i < 8 \<Longrightarrow> j < 8 \<Longrightarrow> nbr c i = nbr c j \<Longrightarrow> i = j"
  using off_inj [of i j] by (cases "off i"; cases "off j") (auto simp: nbr_def)

lemma nbr_opp: "i < 8 \<Longrightarrow> nbr (nbr c i) ((i + 4) mod 8) = c"
  by (cases c) (simp add: nbr_def off_opp)

subsection \<open>What \<open>writeNd\<close> writes\<close>

lemma geom_addEdg: "geom (addEdg g a b e) = geom g"
  by (simp add: addEdg_def setEdg_def split: option.split)

lemma geom_addNd: "geom (addNd g n pt) m = (if m = n then Some pt else geom g m)"
  by (simp add: addNd_def)

lemma sameCells_writePort [frame]: "sameCells g (writePort c xp yp i g)"
  unfolding writePort_def Let_def
  by (rule sameCells_trans [OF sameCells_addNd sameCells_addEdg])

lemma sameCells_writeBend [frame]: "sameCells g (writeBend c i j g)"
  by (simp add: writeBend_def Let_def sameCells_addEdg sameCells_refl)

lemma edgs_writePort:
  "edgs (writePort c xp yp i g) K =
     (if K = {Center c, Port c i} \<and> edgs g K = None then Some (GridEdgePL PInf True False)
      else edgs g K)"
  by (auto simp add: writePort_def Let_def edgs_addEdg edgs_addNd)

lemma geom_writePort:
  "geom (writePort c xp yp i g) n =
     (if n = Port c i
      then Some (xp + real_of_int (portXi (int i)) * spacer_m g, yp + real_of_int (portYi (int i)) * spacer_m g)
      else geom g n)"
  by (simp add: writePort_def Let_def geom_addEdg geom_addNd)

lemma geom_writeBend: "geom (writeBend c i j g) = geom g"
  by (simp add: writeBend_def Let_def geom_addEdg)

lemma writePorts_edgs:
  assumes "\<forall>i. K \<noteq> {Center c, Port c i}"
  shows "edgs (fold (writePort c xp yp) is g) K = edgs g K"
  by (rule fold_untouched) (simp add: edgs_writePort assms)

lemma writePorts_geom:
  assumes "i < 8"
  shows "geom (fold (writePort c xp yp) [0..<8] g) (Port c i) =
     Some (xp + real_of_int (portXi (int i)) * spacer_m g, yp + real_of_int (portYi (int i)) * spacer_m g)"
proof -
  let ?obs = "\<lambda>g. (spacer_m g, geom g (Port c i))"
  let ?F = "\<lambda>v :: real \<times> (real \<times> real) option. (fst v,
     Some (xp + real_of_int (portXi (int i)) * fst v, yp + real_of_int (portYi (int i)) * fst v))"
  have sp: "spacer_m (writePort c xp yp j s) = spacer_m s" for j s
    using sameCells_writePort [of s c xp yp j] by (simp add: sameCells_def sameParams_def)
  have "?obs (fold (writePort c xp yp) [0..<8] g) = ?F (?obs g)"
  proof (rule fold_touch_once)
    show "distinct [0..<8::nat]" by simp
    show "i \<in> set [0..<8]" using assms by simp
    show "?obs (writePort c xp yp j s) = ?obs s" if "j \<noteq> i" for j s
      using that by (simp add: sp geom_writePort)
    show "?obs (writePort c xp yp i s) = ?F (?obs s)" for s
      by (simp add: sp geom_writePort)
  qed
  then show ?thesis by simp
qed

lemma writePorts_geom_other:
  assumes "\<forall>i. n \<noteq> Port c i"
  shows "geom (fold (writePort c xp yp) is g) n = geom g n"
  by (rule fold_untouched) (simp add: geom_writePort assms)

lemma writeBends_frame:
  "sameCells g (fold (\<lambda>i. fold (writeBend c i) [i + 1..<8]) [0..<8] g)"
  by (intro sameCells_fold sameCells_writeBend)

lemma writeBends_geom:
  "geom (fold (\<lambda>i. fold (writeBend c i) (js i)) is g) = geom g"
  by (intro fold_untouched geom_writeBend)

lemma writeBends_edgs_other:
  assumes "\<forall>i j. K \<noteq> {Port c i, Port c j}"
  shows "edgs (fold (\<lambda>i. fold (writeBend c i) (js i)) is g) K = edgs g K"
  by (intro fold_untouched) (simp add: edgs_writeBend assms)

lemma writeNd_unfold:
  "writeNd g x y xOff yOff =
     fold (\<lambda>i. fold (writeBend (x, y) i) [i + 1..<8]) [0..<8]
       (fold (writePort (x, y) (xOff + (fst (bboxLL g) + real (unat x) * cellSize g))
                               (yOff + (snd (bboxLL g) + real (unat y) * cellSize g))) [0..<8]
          (writeNd_init g x y xOff yOff))"
  by (simp add: writeNd_def writeNd_init_def Let_def addNd_def)

lemma writeNd_init_fields:
  "sameParams g (writeNd_init g x y xo yo)"
  "grid (writeNd_init g x y xo yo) = (grid g)((x, y) := True)"
  "edgs (writeNd_init g x y xo yo) = edgs g"
  "geom (writeNd_init g x y xo yo) = (geom g)(Center (x, y) \<mapsto>
      (fst (bboxLL g) + real (unat x) * cellSize g + xo, snd (bboxLL g) + real (unat y) * cellSize g + yo))"
  by (simp_all add: writeNd_init_def addNd_def sameParams_def)

lemma writeNd_sameCells_init:
  "sameCells (writeNd_init g x y xo yo) (writeNd g x y xo yo)"
  unfolding writeNd_unfold
  by (rule sameCells_trans [OF sameCells_fold [OF sameCells_writePort] writeBends_frame])

lemma writeNd_params: "sameParams g (writeNd g x y xo yo)"
  using sameParams_trans [OF writeNd_init_fields(1) sameCells_params [OF writeNd_sameCells_init]] .

lemma writeNd_grid: "grid (writeNd g x y xo yo) = (grid g)((x, y) := True)"
  using writeNd_sameCells_init [of g x y xo yo] by (simp add: sameCells_def writeNd_init_fields)


lemma writeNd_edgs_other:
  assumes "\<exists>n\<in>K. cellOf n \<noteq> (x, y)"
  shows "edgs (writeNd g x y xo yo) K = edgs g K"
proof -
  have 1: "\<forall>i j. K \<noteq> {Port (x, y) i, Port (x, y) j}" using assms by auto
  have 2: "\<forall>i. K \<noteq> {Center (x, y), Port (x, y) i}" using assms by auto
  show ?thesis
    unfolding writeNd_unfold writeBends_edgs_other [OF 1] writePorts_edgs [OF 2]
    by (simp add: writeNd_init_fields)
qed

lemma writeNd_geom_port:
  assumes "i < 8"
  shows "geom (writeNd g x y xo yo) (Port (x, y) i) =
     Some (xo + (fst (bboxLL g) + real (unat x) * cellSize g) + real_of_int (portXi (int i)) * spacer_m g,
           yo + (snd (bboxLL g) + real (unat y) * cellSize g) + real_of_int (portYi (int i)) * spacer_m g)"
proof -
  have "spacer_m (writeNd_init g x y xo yo) = spacer_m g"
    using writeNd_init_fields(1) [of g x y xo yo] by (simp add: sameParams_def)
  then show ?thesis
    unfolding writeNd_unfold writeBends_geom writePorts_geom [OF assms] by simp
qed

lemma writeNd_geom_other:
  assumes "cellOf n \<noteq> (x, y)"
  shows "geom (writeNd g x y xo yo) n = geom g n"
proof -
  have 1: "\<forall>i. n \<noteq> Port (x, y) i" using assms by auto
  have 2: "n \<noteq> Center (x, y)" using assms by auto
  show ?thesis
    unfolding writeNd_unfold writeBends_geom writePorts_geom_other [OF 1]
    using 2 by (simp add: writeNd_init_fields)
qed

lemma fold_cells:
  "fold (\<lambda>x. fold (f x) (upto_size_t h)) (upto_size_t w) = fold (\<lambda>c. f (fst c) (snd c)) (allCells w h)"
  unfolding allCells_def product_concat_map by (rule fold_nested)

lemma unat_of_nat_below:
  fixes n :: "'a::len word"
  assumes "k < unat n"
  shows "unat (of_nat k :: 'a word) = k"
proof -
  have "unat n < 2 ^ LENGTH('a)" by (rule unsigned_less)
  then have "k < 2 ^ LENGTH('a)" using assms by (rule less_trans [rotated])
  then show ?thesis by (rule of_nat_inverse [OF refl])
qed

lemma set_word_upto:
  fixes n :: "'a::len word"
  shows "set (map (of_nat :: nat \<Rightarrow> 'a word) [0..<unat n]) = {x. x < n}"
proof (intro set_eqI iffI)
  fix x :: "'a word"
  assume "x \<in> set (map of_nat [0..<unat n])"
  then obtain k where k: "k < unat n" "x = of_nat k" by auto
  have "unat x = k" unfolding k(2) using k(1) by (rule unat_of_nat_below)
  then have "unat x < unat n" using k(1) by simp
  then show "x \<in> {x. x < n}" by (simp only: word_less_nat_alt mem_Collect_eq)
next
  fix x :: "'a word"
  assume "x \<in> {x. x < n}"
  then have "unat x < unat n" by (simp only: word_less_nat_alt mem_Collect_eq)
  then have "unat x \<in> set [0..<unat n]" by simp
  then have "(of_nat (unat x) :: 'a word) \<in> of_nat ` set [0..<unat n]" by (rule imageI)
  then show "x \<in> set (map of_nat [0..<unat n])" by simp
qed

lemma distinct_word_upto:
  fixes n :: "'a::len word"
  shows "distinct (map (of_nat :: nat \<Rightarrow> 'a word) [0..<unat n])"
proof -
  have "inj_on (of_nat :: nat \<Rightarrow> 'a word) (set [0..<unat n])"
  proof (rule inj_onI)
    fix a b
    assume a: "a \<in> set [0..<unat n]" and b: "b \<in> set [0..<unat n]"
      and e: "(of_nat a :: 'a word) = of_nat b"
    have "a < unat n" using a by simp
    then have 1: "unat (of_nat a :: 'a word) = a" by (rule unat_of_nat_below)
    have "b < unat n" using b by simp
    then have 2: "unat (of_nat b :: 'a word) = b" by (rule unat_of_nat_below)
    show "a = b" using 1 2 e by metis
  qed
  then show ?thesis unfolding distinct_map using distinct_upt by blast
qed

lemma set_allCells: "c \<in> set (allCells w h) \<longleftrightarrow> fst c < w \<and> snd c < h"
  unfolding allCells_def upto_size_t_def set_product set_word_upto by (cases c) simp

lemma distinct_allCells: "distinct (allCells w h)"
  unfolding allCells_def upto_size_t_def by (intro distinct_product distinct_word_upto)

lemma getNode_Some: "getNode g x y = Some c \<longleftrightarrow> c = (x, y) \<and> inGrid g c"
  by (auto simp add: getNode_def inGrid_def not_le)

lemma getNeighbor_iff: "getNeighbor g x y i = Some c \<longleftrightarrow> c = nbr (x, y) i \<and> inGrid g c"
  by (simp add: getNeighbor_Some inGrid_def)

lemma inGrid_sameCells: "sameCells g g' \<Longrightarrow> inGrid g' c = inGrid g c"
  by (simp add: inGrid_def sameCells_def sameParams_def)

lemma fold_preserve:
  assumes "\<And>x s. P s \<Longrightarrow> P (f x s)" "P s"
  shows "P (fold f xs s)"
  using assms(2) by (induction xs arbitrary: s) (simp_all add: assms(1))

lemma fold_establish:
  assumes "x0 \<in> set xs" "\<And>s. P (f x0 s)" "\<And>x s. P s \<Longrightarrow> P (f x s)"
  shows "P (fold f xs s)"
  using assms(1)
proof (induction xs arbitrary: s)
  case Nil
  then show ?case by simp
next
  case (Cons x xs)
  show ?case
  proof (cases "x0 \<in> set xs")
    case True
    then show ?thesis using Cons.IH by simp
  next
    case False
    then have "x = x0" using Cons.prems by simp
    then have "P (f x s)" using assms(2) by simp
    then have "P (fold f xs (f x s))" by (rule fold_preserve [rotated]) (rule assms(3))
    then show ?thesis by simp
  qed
qed

lemma writeNodes_unfold:
  "writeNodes g = fold (\<lambda>c g'. writeNd g' (fst c) (snd c) 0 0) (allCells (xWidth g) (yHeight g)) g"
  unfolding writeNodes_def by (rule fun_cong [OF fold_cells])

lemma writeNodes_params: "sameParams g (writeNodes g)"
  unfolding writeNodes_unfold by (intro sameParams_fold writeNd_params)

lemma writeNodes_grid:
  "grid (writeNodes g) c \<longleftrightarrow> grid g c \<or> (fst c < xWidth g \<and> snd c < yHeight g)"
proof (cases "c \<in> set (allCells (xWidth g) (yHeight g))")
  case True
  have "grid (writeNodes g) c"
    unfolding writeNodes_unfold
    by (rule fold_establish [where P = "\<lambda>g. grid g c", OF True]) (simp_all add: writeNd_grid)
  then show ?thesis using True by (simp add: set_allCells)
next
  case False
  have "grid (writeNodes g) c = grid g c"
    unfolding writeNodes_unfold
  proof (rule fold_untouched [where obs = "\<lambda>g. grid g c"])
    fix x s
    assume "x \<in> set (allCells (xWidth g) (yHeight g))"
    then have "x \<noteq> c" using False by blast
    then show "grid (writeNd s (fst x) (snd x) 0 0) c = grid s c" by (simp add: writeNd_grid)
  qed
  then show ?thesis using False by (auto simp add: set_allCells)
qed


lemma writeNodes_inter:
  assumes "c1 \<noteq> c2"
  shows "edgs (writeNodes g) {Port c1 i, Port c2 j} = edgs g {Port c1 i, Port c2 j}"
  unfolding writeNodes_unfold
proof (rule fold_untouched [where obs = "\<lambda>g. edgs g {Port c1 i, Port c2 j}"])
  fix x s
  have "\<exists>n\<in>{Port c1 i, Port c2 j}. cellOf n \<noteq> (fst x, snd x)" using assms by auto
  then show "edgs (writeNd s (fst x) (snd x) 0 0) {Port c1 i, Port c2 j} = edgs s {Port c1 i, Port c2 j}"
    by (rule writeNd_edgs_other)
qed

lemma writeNodes_geom_port:
  assumes "fst c < xWidth g" "snd c < yHeight g" "i < 8"
  shows "geom (writeNodes g) (Port c i) =
     Some (fst (bboxLL g) + real (unat (fst c)) * cellSize g + real_of_int (portXi (int i)) * spacer_m g,
           snd (bboxLL g) + real (unat (snd c)) * cellSize g + real_of_int (portYi (int i)) * spacer_m g)"
proof -
  let ?obs = "\<lambda>g. ((bboxLL g, cellSize g, spacer_m g), geom g (Port c i))"
  let ?F = "\<lambda>v :: ((real \<times> real) \<times> real \<times> real) \<times> (real \<times> real) option. (fst v,
     Some (fst (fst (fst v)) + real (unat (fst c)) * fst (snd (fst v)) + real_of_int (portXi (int i)) * snd (snd (fst v)),
           snd (fst (fst v)) + real (unat (snd c)) * fst (snd (fst v)) + real_of_int (portYi (int i)) * snd (snd (fst v))))"
  let ?f = "\<lambda>c g'. writeNd g' (fst c) (snd c) 0 0"
  have mem: "c \<in> set (allCells (xWidth g) (yHeight g))" using assms by (simp add: set_allCells)
  have par: "bboxLL (writeNd s x y 0 0) = bboxLL s" "cellSize (writeNd s x y 0 0) = cellSize s"
    "spacer_m (writeNd s x y 0 0) = spacer_m s" for s x y
    using writeNd_params [of s x y 0 0] by (simp_all add: sameParams_def)
  have "?obs (fold ?f (allCells (xWidth g) (yHeight g)) g) = ?F (?obs g)"
  proof (rule fold_touch_once [where obs = ?obs and F = ?F, OF distinct_allCells mem])
    fix x s
    assume "x \<noteq> c"
    then have "cellOf (Port c i) \<noteq> (fst x, snd x)" by auto
    then have "geom (writeNd s (fst x) (snd x) 0 0) (Port c i) = geom s (Port c i)"
      by (rule writeNd_geom_other)
    then show "?obs (?f x s) = ?obs s" by (simp only: par)
  next
    fix s
    show "?obs (?f c s) = ?F (?obs s)"
      using writeNd_geom_port [OF assms(3), of s "fst c" "snd c" 0 0] by (simp add: par)
  qed
  then show ?thesis unfolding writeNodes_unfold by simp
qed

lemma sameEdgeSet_refl: "sameEdgeSet g g"
  by (simp add: sameEdgeSet_def sameCells_refl)

lemma sameEdgeSet_trans: "sameEdgeSet g g' \<Longrightarrow> sameEdgeSet g' g'' \<Longrightarrow> sameEdgeSet g g''"
  unfolding sameEdgeSet_def using sameCells_trans by blast

lemma linked_sameEdgeSet:
  assumes "sameEdgeSet g g'" "linked g"
  shows "linked g'"
proof -
  have c: "sameCells g g'" and e: "\<And>K. edgs g' K = None \<longleftrightarrow> edgs g K = None"
    using assms(1) by (simp_all add: sameEdgeSet_def)
  show ?thesis
    using assms(2) unfolding linked_def getEdg_def e inGrid_sameCells [OF c] getNeighbor_sameCells [OF c] .
qed

lemma mirroredOnly_sameEdgeSet:
  assumes "sameEdgeSet g g'" "mirroredOnly g"
  shows "mirroredOnly g'"
proof -
  have c: "sameCells g g'" and e: "\<And>K. edgs g' K = None \<longleftrightarrow> edgs g K = None"
    using assms(1) by (simp_all add: sameEdgeSet_def)
  show ?thesis
    using assms(2) unfolding mirroredOnly_def getEdg_def e getNeighbor_sameCells [OF c] .
qed

subsection \<open>The inter-cell edges the constructor adds\<close>

lemma sameCells_linkPort: "sameCells g (linkPort x y p g)"
  by (simp add: linkPort_def sameCells_refl sameCells_addEdg split: option.split)

lemma sameCells_linkCell: "sameCells g (linkCell x y g)"
  unfolding linkCell_def
  by (cases "getNode g x y") (simp_all add: sameCells_refl sameCells_fold sameCells_linkPort)

lemma geom_linkPort: "geom (linkPort x y p g) = geom g"
  by (simp add: linkPort_def geom_addEdg split: option.split)

lemma edgs_linkPort:
  "edgs (linkPort x y p g) K =
     (if inGrid g (nbr (x, y) p) \<and> K = {Port (x, y) p, Port (nbr (x, y) p) ((p + 4) mod 8)} \<and> edgs g K = None
      then Some (GridEdgePL (Fin 0) False False) else edgs g K)"
proof (cases "getNeighbor g x y p")
  case None
  then have "\<not> inGrid g (nbr (x, y) p)" using getNeighbor_iff [of g x y p "nbr (x, y) p"] by simp
  then show ?thesis using None by (simp add: linkPort_def)
next
  case (Some c)
  then have "c = nbr (x, y) p" "inGrid g (nbr (x, y) p)" using getNeighbor_iff [of g x y p c] by auto
  then show ?thesis using Some by (auto simp add: linkPort_def edgs_addEdg)
qed

lemma linkPort_keeps: "edgs g K \<noteq> None \<Longrightarrow> edgs (linkPort x y p g) K = edgs g K"
  by (auto simp add: edgs_linkPort)


lemma linkPorts_unfold:
  assumes "inGrid g (x, y)"
  shows "linkCell x y g = fold (linkPort x y) [0..<8] g"
  using assms getNode_Some [of g x y "(x, y)"] by (simp add: linkCell_def)

lemma linkCell_keeps:
  assumes "edgs g K \<noteq> None"
  shows "edgs (linkCell x y g) K = edgs g K"
proof (cases "getNode g x y")
  case None
  then show ?thesis by (simp add: linkCell_def)
next
  case (Some c)
  have "edgs (fold (linkPort x y) [0..<8] g) K = edgs g K \<and> edgs (fold (linkPort x y) [0..<8] g) K \<noteq> None"
    by (rule fold_preserve [where P = "\<lambda>s. edgs s K = edgs g K \<and> edgs s K \<noteq> None"])
       (simp_all add: assms linkPort_keeps)
  then show ?thesis using Some by (simp add: linkCell_def)
qed


lemma geom_linkCell: "geom (linkCell x y g) = geom g"
proof (cases "getNode g x y")
  case None
  then show ?thesis by (simp add: linkCell_def)
next
  case (Some c')
  have "geom (fold (linkPort x y) [0..<8] g) = geom g"
    by (rule fold_untouched [where obs = geom]) (rule geom_linkPort)
  then show ?thesis using Some by (simp add: linkCell_def)
qed

lemma fold_establish_inv:
  assumes "x0 \<in> set xs" "I s"
    and "\<And>x s. I s \<Longrightarrow> I (f x s)"
    and "\<And>s. I s \<Longrightarrow> P (f x0 s)"
    and "\<And>x s. I s \<Longrightarrow> P s \<Longrightarrow> P (f x s)"
  shows "P (fold f xs s)"
  using assms(1,2)
proof (induction xs arbitrary: s)
  case Nil
  then show ?case by simp
next
  case (Cons x xs)
  show ?case
  proof (cases "x0 \<in> set xs")
    case True
    then show ?thesis using Cons.IH [of "f x s"] assms(3) [OF Cons.prems(2)] by simp
  next
    case False
    then have "x = x0" using Cons.prems by simp
    then have "I (f x s) \<and> P (f x s)" using assms(3,4) Cons.prems(2) by simp
    then have "I (fold f xs (f x s)) \<and> P (fold f xs (f x s))"
      by (rule fold_preserve [where P = "\<lambda>s. I s \<and> P s", rotated]) (simp add: assms(3,5))
    then show ?thesis by simp
  qed
qed

lemma linkCell_links:
  assumes "inGrid g (x, y)" "p < 8" "inGrid g (nbr (x, y) p)"
  shows "edgs (linkCell x y g) {Port (x, y) p, Port (nbr (x, y) p) ((p + 4) mod 8)} \<noteq> None"
proof -
  let ?K = "{Port (x, y) p, Port (nbr (x, y) p) ((p + 4) mod 8)}"
  have "edgs (fold (linkPort x y) [0..<8] g) ?K \<noteq> None"
  proof (rule fold_establish_inv [where P = "\<lambda>s. edgs s ?K \<noteq> None" and I = "sameCells g" and ?x0.0 = p])
    show "p \<in> set [0..<8]" using assms(2) by simp
    show "sameCells g g" by (rule sameCells_refl)
    show "sameCells g (linkPort x y q s)" if "sameCells g s" for q s
      using that sameCells_linkPort by (rule sameCells_trans)
    show "edgs (linkPort x y p s) ?K \<noteq> None" if "sameCells g s" for s
      using assms(3) inGrid_sameCells [OF that] by (simp add: edgs_linkPort)
    show "edgs (linkPort x y q s) ?K \<noteq> None" if "edgs s ?K \<noteq> None" for q s
      using that by (simp add: linkPort_keeps)
  qed
  then show ?thesis using linkPorts_unfold [OF assms(1)] by simp
qed

lemma linkCells_unfold:
  "linkCells g = fold (\<lambda>c. linkCell (fst c) (snd c)) (allCells (xWidth g) (yHeight g)) g"
  unfolding linkCells_def by (rule fun_cong [OF fold_cells])

lemma sameCells_linkCells: "sameCells g (linkCells g)"
  unfolding linkCells_unfold by (intro sameCells_fold sameCells_linkCell)

lemma geom_linkCells: "geom (linkCells g) = geom g"
  unfolding linkCells_unfold by (rule fold_untouched [where obs = geom]) (rule geom_linkCell)


lemma linked_linkCells: "linked (linkCells g)"
  unfolding linked_def
proof (intro allI impI)
  fix c p c'
  let ?g = "linkCells g"
  assume h: "inGrid ?g c \<and> p < 8 \<and> getNeighbor ?g (fst c) (snd c) p = Some c'"
  have sc: "sameCells g ?g" by (rule sameCells_linkCells)
  have c: "inGrid g c" using h inGrid_sameCells [OF sc] by simp
  have p: "p < 8" using h by simp
  have "getNeighbor g (fst c) (snd c) p = Some c'" using h getNeighbor_sameCells [OF sc] by simp
  then have c': "c' = nbr c p" "inGrid g (nbr c p)" by (auto simp add: getNeighbor_iff)
  let ?K = "{Port c p, Port (nbr c p) ((p + 4) mod 8)}"
  have mem: "c \<in> set (allCells (xWidth g) (yHeight g))"
    using c by (simp add: set_allCells inGrid_def)
  have "edgs ?g ?K \<noteq> None"
    unfolding linkCells_unfold
  proof (rule fold_establish_inv [where P = "\<lambda>s. edgs s ?K \<noteq> None" and I = "sameCells g", OF mem])
    show "sameCells g g" by (rule sameCells_refl)
    show "sameCells g (linkCell (fst q) (snd q) s)" if "sameCells g s" for q s
      using that sameCells_linkCell by (rule sameCells_trans)
    show "edgs (linkCell (fst c) (snd c) s) ?K \<noteq> None" if "sameCells g s" for s
      using linkCell_links [of s "fst c" "snd c" p] p c c'(2) inGrid_sameCells [OF that] by simp
    show "edgs (linkCell (fst q) (snd q) s) ?K \<noteq> None" if "edgs s ?K \<noteq> None" for q s
      using that by (simp add: linkCell_keeps)
  qed
  then show "getEdg ?g (Port c p) (Port c' ((p + 4) mod 8)) \<noteq> None"
    by (simp add: getEdg_def c'(1))
qed

lemma mirroredOnly_linkPort:
  assumes "mirroredOnly g" "inGrid g (x, y)" "p < 8"
  shows "mirroredOnly (linkPort x y p g)"
  unfolding mirroredOnly_def
proof (intro allI impI)
  fix c c' i j
  let ?g = "linkPort x y p g"
  let ?K = "{Port (x, y) p, Port (nbr (x, y) p) ((p + 4) mod 8)}"
  assume h: "c \<noteq> c' \<and> getEdg ?g (Port c i) (Port c' j) \<noteq> None"
  have nb: "getNeighbor ?g = getNeighbor g"
    by (intro ext getNeighbor_sameCells sameCells_linkPort)
  show "i < 8 \<and> getNeighbor ?g (fst c) (snd c) i = Some c' \<and> j = (i + 4) mod 8"
  proof (cases "edgs g {Port c i, Port c' j} = None")
    case False
    then show ?thesis using assms(1) h unfolding mirroredOnly_def nb getEdg_def by blast
  next
    case True
    then have new: "inGrid g (nbr (x, y) p)" "{Port c i, Port c' j} = ?K"
      using h by (auto simp add: getEdg_def edgs_linkPort split: if_splits)
    from new(2) consider "c = (x, y)" "i = p" "c' = nbr (x, y) p" "j = (p + 4) mod 8"
      | "c = nbr (x, y) p" "i = (p + 4) mod 8" "c' = (x, y)" "j = p"
      by (auto simp: doubleton_eq_iff)
    then show ?thesis
    proof cases
      case 1
      then show ?thesis using assms(3) new(1) by (simp add: nb getNeighbor_iff)
    next
      case 2
      have "nbr c i = c'" unfolding 2 using assms(3) by (rule nbr_opp)
      then show ?thesis using 2 assms(2,3) opp_opp [OF assms(3)] by (simp add: nb getNeighbor_iff)
    qed
  qed
qed

lemma mirroredOnly_linkCell:
  assumes "mirroredOnly g"
  shows "mirroredOnly (linkCell x y g)"
proof (cases "getNode g x y")
  case None
  then show ?thesis using assms by (simp add: linkCell_def)
next
  case (Some c)
  then have c: "inGrid g (x, y)" by (auto simp add: getNode_Some)
  have "sameCells g (fold (linkPort x y) [0..<8] g) \<and> mirroredOnly (fold (linkPort x y) [0..<8] g)"
  proof (rule fold_invariant [where Q = "\<lambda>p. p < 8" and P = "\<lambda>s. sameCells g s \<and> mirroredOnly s"])
    show "p < 8" if "p \<in> set [0..<8]" for p :: nat using that by simp
    show "sameCells g g \<and> mirroredOnly g" using assms by (simp add: sameCells_refl)
    show "sameCells g (linkPort x y p s) \<and> mirroredOnly (linkPort x y p s)"
      if "p < 8" "sameCells g s \<and> mirroredOnly s" for p s
    proof
      show "sameCells g (linkPort x y p s)"
        using that(2) sameCells_linkPort sameCells_trans by blast
      have "inGrid s (x, y)" using c that(2) inGrid_sameCells by blast
      then show "mirroredOnly (linkPort x y p s)" using that mirroredOnly_linkPort by blast
    qed
  qed
  then show ?thesis using Some by (simp add: linkCell_def)
qed

lemma mirroredOnly_linkCells: "mirroredOnly g \<Longrightarrow> mirroredOnly (linkCells g)"
  unfolding linkCells_unfold by (rule fold_preserve [where P = mirroredOnly]) (rule mirroredOnly_linkCell)

subsection \<open>The initial costs\<close>

lemma foldE_invariant:
  assumes "P s" "\<And>x s. x \<in> set xs \<Longrightarrow> P s \<Longrightarrow> \<exists>s'. f x s = Inr s' \<and> P s'"
  shows "\<exists>s'. foldE f xs s = Inr s' \<and> P s'"
  using assms
proof (induction xs arbitrary: s)
  case Nil
  then show ?case by simp
next
  case (Cons x xs)
  obtain s1 where s1: "f x s = Inr s1" "P s1" using Cons.prems(2) [of x s] Cons.prems(1) by auto
  have "\<exists>s'. foldE f xs s1 = Inr s' \<and> P s'"
    by (rule Cons.IH [OF s1(2)]) (simp add: Cons.prems(2))
  then show ?case using s1(1) by simp
qed

lemma foldE_append:
  "foldE f (xs @ ys) s = (case foldE f xs s of Inl e \<Rightarrow> Inl e | Inr s' \<Rightarrow> foldE f ys s')"
  by (induction xs arbitrary: s) (simp_all split: sum.split)

lemma foldE_map: "foldE f (map h xs) s = foldE (\<lambda>x. f (h x)) xs s"
  by (induction xs arbitrary: s) (simp_all split: sum.split)

lemma foldE_product:
  "foldE (\<lambda>x. foldE (f x) ys) xs s = foldE (\<lambda>c. f (fst c) (snd c)) (List.product xs ys) s"
  by (induction xs arbitrary: s) (simp_all add: foldE_append foldE_map split: sum.split)

lemma foldE_cells:
  "foldE (\<lambda>x. foldE (f x) (upto_size_t h)) (upto_size_t w) s = foldE (\<lambda>c. f (fst c) (snd c)) (allCells w h) s"
  unfolding allCells_def by (rule foldE_product)

lemma initRel_refl: "initRel g g"
  by (auto simp add: initRel_def sameEdgeSet_refl)

lemma initRel_trans:
  assumes "initRel g g'" "initRel g' g''"
  shows "initRel g g''"
proof -
  have e: "sameEdgeSet g g''"
    using assms sameEdgeSet_trans unfolding initRel_def by blast
  have d: "\<And>K. edgs g' K = None \<longleftrightarrow> edgs g K = None"
    using assms(1) by (simp add: initRel_def sameEdgeSet_def)
  have "closedFlag e'' = closedFlag e \<and> resEdges e'' = resEdges e \<and> secondary e'' = secondary e"
    if "edgs g K = Some e" "edgs g'' K = Some e''" for K e e''
  proof -
    have "edgs g' K \<noteq> None" using d [of K] that(1) by simp
    then obtain e' where e': "edgs g' K = Some e'" by blast
    have "closedFlag e' = closedFlag e \<and> resEdges e' = resEdges e \<and> secondary e' = secondary e"
      using assms(1) that(1) e' unfolding initRel_def by blast
    moreover have "closedFlag e'' = closedFlag e' \<and> resEdges e'' = resEdges e' \<and> secondary e'' = secondary e'"
      using assms(2) that(2) e' unfolding initRel_def by blast
    ultimately show ?thesis by simp
  qed
  moreover have "geom g'' = geom g" "ndClosed g'' = ndClosed g"
    using assms unfolding initRel_def by simp_all
  moreover have "edgs g'' {Port c a, Port c b} = edgs g {Port c a, Port c b}" for c a b
    using assms unfolding initRel_def by metis
  ultimately show ?thesis
    using e unfolding initRel_def by blast
qed

lemma initialCost_fields:
  "closedFlag (initialCost c i e) = closedFlag e" "resEdges (initialCost c i e) = resEdges e"
  "secondary (initialCost c i e) = secondary e"
  by (simp_all add: initialCost_def Let_def setCost_def)

lemma initPort_ok:
  assumes "linked g" "inGrid g n" "i < 8"
  shows "\<exists>g'. initPort n i g = Inr g' \<and> initRel g g'"
proof (cases "getNeighbor g (fst n) (snd n) i")
  case None
  then show ?thesis by (simp add: initPort_def initRel_refl)
next
  case (Some c')
  let ?a = "Port n i" and ?b = "Port c' ((i + 4) mod 8)"
  have "getEdg g ?a ?b \<noteq> None" using assms Some unfolding linked_def by blast
  then obtain e where e: "getEdg g ?a ?b = Some e" by auto
  let ?g' = "setEdg g ?a ?b (initialCost (pens g) i e)"
  have r: "initPort n i g = Inr ?g'" using Some e by (simp add: initPort_def)
  have c': "c' = nbr n i" using Some by (simp add: getNeighbor_iff)
  have ne: "{Port c a, Port c b} \<noteq> {?a, ?b}" for c a b
    using nbr_neq [of n i] c' by (auto simp: doubleton_eq_iff)
  have "sameEdgeSet g ?g'"
    using e by (auto simp add: sameEdgeSet_def sameCells_setEdg edgs_setEdg getEdg_def)
  moreover have "geom ?g' = geom g" "ndClosed ?g' = ndClosed g" by (simp_all add: setEdg_def)
  moreover have "edgs ?g' {Port c a, Port c b} = edgs g {Port c a, Port c b}" for c a b
    using ne [of c a b] by (simp add: edgs_setEdg)
  moreover have "closedFlag e2 = closedFlag e1 \<and> resEdges e2 = resEdges e1 \<and> secondary e2 = secondary e1"
    if "edgs g K = Some e1" "edgs ?g' K = Some e2" for K e1 e2
    using that e by (cases "K = {?a, ?b}") (auto simp add: edgs_setEdg getEdg_def initialCost_fields)
  ultimately have "initRel g ?g'" unfolding initRel_def by blast
  then show ?thesis using r by blast
qed

lemma initRel_linked: "initRel g g' \<Longrightarrow> linked g \<Longrightarrow> linked g'"
  using linked_sameEdgeSet unfolding initRel_def by blast

lemma initRel_inGrid: "initRel g g' \<Longrightarrow> inGrid g' c = inGrid g c"
  using inGrid_sameCells unfolding initRel_def sameEdgeSet_def by blast

lemma initCell_ok:
  assumes "linked g" "inGrid g (x, y)"
  shows "\<exists>g'. initCell x y g = Inr g' \<and> initRel g g'"
proof -
  have n: "getNode g x y = Some (x, y)" using assms(2) by (simp add: getNode_Some)
  have "\<exists>g'. foldE (initPort (x, y)) [0..<8] g = Inr g' \<and> initRel g g'"
  proof (rule foldE_invariant [where P = "initRel g"])
    show "initRel g g" by (rule initRel_refl)
    fix i s
    assume i: "i \<in> set [0..<8]" and s: "initRel g s"
    have "\<exists>s'. initPort (x, y) i s = Inr s' \<and> initRel s s'"
      using initPort_ok [of s "(x, y)" i] i initRel_linked [OF s assms(1)] initRel_inGrid [OF s] assms(2)
      by simp
    then show "\<exists>s'. initPort (x, y) i s = Inr s' \<and> initRel g s'"
      using initRel_trans [OF s] by blast
  qed
  then show ?thesis using n by (simp add: initCell_def)
qed

lemma writeInitialCosts_ok:
  assumes "linked g" "\<And>c. fst c < xWidth g \<Longrightarrow> snd c < yHeight g \<Longrightarrow> grid g c"
  shows "\<exists>g'. writeInitialCosts g = Inr g' \<and> initRel g g'"
  unfolding writeInitialCosts_def foldE_cells
proof (rule foldE_invariant [where P = "initRel g"])
  show "initRel g g" by (rule initRel_refl)
  fix c s
  assume c: "c \<in> set (allCells (xWidth g) (yHeight g))" and s: "initRel g s"
  have "inGrid g c" using c assms(2) by (simp add: set_allCells inGrid_def)
  then have "inGrid s (fst c, snd c)" using initRel_inGrid [OF s] by simp
  then have "\<exists>s'. initCell (fst c) (snd c) s = Inr s' \<and> initRel s s'"
    using initCell_ok initRel_linked [OF s assms(1)] by blast
  then show "\<exists>s'. initCell (fst c) (snd c) s = Inr s' \<and> initRel g s'"
    using initRel_trans [OF s] by blast
qed

lemma allOpen_addEdg:
  assumes "allOpen g"
  shows "allOpen (addEdg g a b (GridEdgePL c s False))"
proof -
  have "ndClosed (addEdg g a b (GridEdgePL c s False)) = ndClosed g"
    by (simp add: addEdg_def setEdg_def split: option.split)
  then show ?thesis
    using assms unfolding allOpen_def by (auto simp add: edgs_addEdg GridEdgePL_def split: if_splits)
qed

lemma allOpen_writePort: "allOpen g \<Longrightarrow> allOpen (writePort c xp yp i g)"
  unfolding writePort_def Let_def
  by (rule allOpen_addEdg) (simp add: allOpen_def addNd_def)

lemma allOpen_writeBend: "allOpen g \<Longrightarrow> allOpen (writeBend c i j g)"
  by (simp add: writeBend_def Let_def allOpen_addEdg)

lemma allOpen_writeNd: "allOpen g \<Longrightarrow> allOpen (writeNd g x y xo yo)"
  unfolding writeNd_unfold
proof (intro fold_preserve [where P = allOpen] allOpen_writeBend allOpen_writePort)
  assume "allOpen g"
  then show "allOpen (writeNd_init g x y xo yo)"
    by (simp add: allOpen_def writeNd_init_def addNd_def)
qed

lemma allOpen_writeNodes: "allOpen g \<Longrightarrow> allOpen (writeNodes g)"
  unfolding writeNodes_unfold by (rule fold_preserve [where P = allOpen]) (rule allOpen_writeNd)

lemma allOpen_linkPort: "allOpen g \<Longrightarrow> allOpen (linkPort x y p g)"
  by (simp add: linkPort_def allOpen_addEdg split: option.split)

lemma allOpen_linkCell: "allOpen g \<Longrightarrow> allOpen (linkCell x y g)"
  unfolding linkCell_def
  by (cases "getNode g x y") (simp_all add: fold_preserve [where P = allOpen] allOpen_linkPort)

lemma allOpen_linkCells: "allOpen g \<Longrightarrow> allOpen (linkCells g)"
  unfolding linkCells_unfold by (rule fold_preserve [where P = allOpen]) (rule allOpen_linkCell)

lemma allOpen_initRel:
  assumes "initRel g g'" "allOpen g"
  shows "allOpen g'"
proof -
  have n: "ndClosed g' = ndClosed g" using assms(1) by (simp add: initRel_def)
  have "\<not> closedFlag e' \<and> resEdges e' = []" if "edgs g' K = Some e'" for K e'
  proof -
    have "edgs g' K = None \<longleftrightarrow> edgs g K = None"
      using assms(1) unfolding initRel_def sameEdgeSet_def by blast
    then have "edgs g K \<noteq> None" using that by simp
    then obtain e where e: "edgs g K = Some e" by blast
    then have "closedFlag e' = closedFlag e \<and> resEdges e' = resEdges e"
      using assms(1) that unfolding initRel_def by blast
    then show ?thesis using assms(2) e by (simp add: allOpen_def)
  qed
  then show ?thesis using assms(2) n by (simp add: allOpen_def)
qed

lemma mirroredOnly_writeNodes:
  assumes "\<And>K. edgs g K = None"
  shows "mirroredOnly (writeNodes g)"
  unfolding mirroredOnly_def getEdg_def
proof (intro allI impI)
  fix c c' :: cell and i j
  assume "c \<noteq> c' \<and> edgs (writeNodes g) {Port c i, Port c' j} \<noteq> None"
  then have False using writeNodes_inter [of c c' g i j] assms by simp
  then show "i < 8 \<and> getNeighbor (writeNodes g) (fst c) (snd c) i = Some c' \<and> j = (i + 4) mod 8" ..
qed

lemma linkedGrid_params:
  "xWidth (linkedGrid w h ll cs sp c) = w" "yHeight (linkedGrid w h ll cs sp c) = h"
  "pens (linkedGrid w h ll cs sp c) = c" "bboxLL (linkedGrid w h ll cs sp c) = ll"
  "cellSize (linkedGrid w h ll cs sp c) = cs" "spacer_m (linkedGrid w h ll cs sp c) = sp"
proof -
  let ?g0 = "initMembers w h ll cs sp c"
  have "sameParams ?g0 (linkedGrid w h ll cs sp c)"
    unfolding linkedGrid_def
    by (rule sameParams_trans [OF writeNodes_params sameCells_params [OF sameCells_linkCells]])
  then show "xWidth (linkedGrid w h ll cs sp c) = w" "yHeight (linkedGrid w h ll cs sp c) = h"
    "pens (linkedGrid w h ll cs sp c) = c" "bboxLL (linkedGrid w h ll cs sp c) = ll"
    "cellSize (linkedGrid w h ll cs sp c) = cs" "spacer_m (linkedGrid w h ll cs sp c) = sp"
    by (simp_all add: sameParams_def initMembers_def)
qed

lemma linkedGrid_grid: "grid (linkedGrid w h ll cs sp c) cl \<longleftrightarrow> fst cl < w \<and> snd cl < h"
proof -
  let ?g0 = "initMembers w h ll cs sp c"
  have "grid (linkedGrid w h ll cs sp c) = grid (writeNodes ?g0)"
    unfolding linkedGrid_def using sameCells_linkCells [of "writeNodes ?g0"] by (simp add: sameCells_def)
  then show ?thesis by (simp add: writeNodes_grid) (simp add: initMembers_def)
qed

lemma GridGraph_assert:
  assumes "\<not> (p_0 c < p_135 c \<and> p_135 c < p_90 c \<and> p_90 c < p_45 c)"
  shows "GridGraph w h ll cs sp c = Inl AssertFailed"
  using assms by (auto simp add: GridGraph_def Let_def initMembers_def)

lemma GridGraph_unfold:
  assumes "p_0 c < p_135 c" "p_135 c < p_90 c" "p_90 c < p_45 c"
  shows "GridGraph w h ll cs sp c = writeInitialCosts (linkedGrid w h ll cs sp c)"
proof -
  have "pens (initMembers w h ll cs sp c) = c" by (simp add: initMembers_def)
  then show ?thesis using assms by (simp add: GridGraph_def Let_def linkedGrid_def)
qed

lemma GridGraph_result:
  assumes "p_0 c < p_135 c" "p_135 c < p_90 c" "p_90 c < p_45 c"
  shows "\<exists>g. GridGraph w h ll cs sp c = Inr g \<and> initRel (linkedGrid w h ll cs sp c) g"
  unfolding GridGraph_unfold [OF assms]
proof (rule writeInitialCosts_ok)
  show "linked (linkedGrid w h ll cs sp c)" unfolding linkedGrid_def by (rule linked_linkCells)
  fix cl
  assume "fst cl < xWidth (linkedGrid w h ll cs sp c)" "snd cl < yHeight (linkedGrid w h ll cs sp c)"
  then show "grid (linkedGrid w h ll cs sp c) cl" by (simp add: linkedGrid_params linkedGrid_grid)
qed

lemma writeNd_geom_center:
  "geom (writeNd g x y xo yo) (Center (x, y)) =
     Some (fst (bboxLL g) + real (unat x) * cellSize g + xo, snd (bboxLL g) + real (unat y) * cellSize g + yo)"
proof -
  have 1: "\<forall>i. Center (x, y) \<noteq> Port (x, y) i" by simp
  show ?thesis
    unfolding writeNd_unfold writeBends_geom writePorts_geom_other [OF 1]
    by (simp add: writeNd_init_fields)
qed

lemma writeNodes_geom_center:
  assumes "fst c < xWidth g" "snd c < yHeight g"
  shows "geom (writeNodes g) (Center c) =
     Some (fst (bboxLL g) + real (unat (fst c)) * cellSize g, snd (bboxLL g) + real (unat (snd c)) * cellSize g)"
proof -
  let ?obs = "\<lambda>g. ((bboxLL g, cellSize g), geom g (Center c))"
  let ?F = "\<lambda>v :: ((real \<times> real) \<times> real) \<times> (real \<times> real) option. (fst v,
     Some (fst (fst (fst v)) + real (unat (fst c)) * snd (fst v),
           snd (fst (fst v)) + real (unat (snd c)) * snd (fst v)))"
  let ?f = "\<lambda>c g'. writeNd g' (fst c) (snd c) 0 0"
  have mem: "c \<in> set (allCells (xWidth g) (yHeight g))" using assms by (simp add: set_allCells)
  have par: "bboxLL (writeNd s x y 0 0) = bboxLL s" "cellSize (writeNd s x y 0 0) = cellSize s" for s x y
    using writeNd_params [of s x y 0 0] by (simp_all add: sameParams_def)
  have "?obs (fold ?f (allCells (xWidth g) (yHeight g)) g) = ?F (?obs g)"
  proof (rule fold_touch_once [where obs = ?obs and F = ?F, OF distinct_allCells mem])
    fix x s
    assume "x \<noteq> c"
    then have "cellOf (Center c) \<noteq> (fst x, snd x)" by auto
    then have "geom (writeNd s (fst x) (snd x) 0 0) (Center c) = geom s (Center c)"
      by (rule writeNd_geom_other)
    then show "?obs (?f x s) = ?obs s" by (simp only: par)
  next
    fix s
    show "?obs (?f c s) = ?F (?obs s)"
      using writeNd_geom_center [of s "fst c" "snd c" 0 0] by (simp add: par)
  qed
  then show ?thesis unfolding writeNodes_unfold by simp
qed

lemma GridGraph_Inr:
  assumes "GridGraph w h ll cs sp c = Inr g"
  shows "initRel (linkedGrid w h ll cs sp c) g"
proof (cases "p_0 c < p_135 c \<and> p_135 c < p_90 c \<and> p_90 c < p_45 c")
  case True
  then obtain g' where "GridGraph w h ll cs sp c = Inr g'" "initRel (linkedGrid w h ll cs sp c) g'"
    using GridGraph_result [of c w h ll cs sp] by blast
  then show ?thesis using assms by simp
next
  case False
  then show ?thesis using GridGraph_assert [OF False, of w h ll cs sp] assms by simp
qed

lemma GridGraph_params:
  assumes "GridGraph w h ll cs sp c = Inr g"
  shows "xWidth g = w" "yHeight g = h" "pens g = c" "bboxLL g = ll" "cellSize g = cs" "spacer_m g = sp"
proof -
  have "sameParams (linkedGrid w h ll cs sp c) g"
    using GridGraph_Inr [OF assms] by (simp add: initRel_def sameEdgeSet_def sameCells_def)
  then show "xWidth g = w" "yHeight g = h" "pens g = c" "bboxLL g = ll" "cellSize g = cs" "spacer_m g = sp"
    by (simp_all add: sameParams_def linkedGrid_params)
qed

lemma GridGraph_inGrid:
  assumes "GridGraph w h ll cs sp c = Inr g"
  shows "inGrid g cl \<longleftrightarrow> fst cl < w \<and> snd cl < h"
  using initRel_inGrid [OF GridGraph_Inr [OF assms], of cl]
  by (auto simp add: inGrid_def linkedGrid_params linkedGrid_grid)

lemma GridGraph_linked:
  assumes "GridGraph w h ll cs sp c = Inr g"
  shows "linked g"
  using initRel_linked [OF GridGraph_Inr [OF assms]] linked_linkCells by (simp add: linkedGrid_def)

lemma GridGraph_mirroredOnly:
  assumes "GridGraph w h ll cs sp c = Inr g"
  shows "mirroredOnly g"
proof -
  have "mirroredOnly (linkedGrid w h ll cs sp c)"
    unfolding linkedGrid_def
    by (intro mirroredOnly_linkCells mirroredOnly_writeNodes) (simp add: initMembers_def)
  moreover have "sameEdgeSet (linkedGrid w h ll cs sp c) g"
    using GridGraph_Inr [OF assms] by (simp add: initRel_def)
  ultimately show ?thesis using mirroredOnly_sameEdgeSet by blast
qed

lemma GridGraph_allOpen:
  assumes "GridGraph w h ll cs sp c = Inr g"
  shows "allOpen g"
proof -
  have "allOpen (initMembers w h ll cs sp c)" by (simp add: allOpen_def initMembers_def)
  then have "allOpen (linkedGrid w h ll cs sp c)"
    unfolding linkedGrid_def by (intro allOpen_linkCells allOpen_writeNodes)
  then show ?thesis using allOpen_initRel [OF GridGraph_Inr [OF assms]] by simp
qed

lemma GridGraph_geom_port:
  assumes "GridGraph w h ll cs sp c = Inr g" "x < w" "y < h" "i < 8"
  shows "geom g (Port (x, y) i) =
     Some (fst ll + real (unat x) * cs + real_of_int (portXi (int i)) * sp,
           snd ll + real (unat y) * cs + real_of_int (portYi (int i)) * sp)"
proof -
  have "geom g = geom (writeNodes (initMembers w h ll cs sp c))"
    using GridGraph_Inr [OF assms(1)] by (simp add: initRel_def linkedGrid_def geom_linkCells)
  then show ?thesis
    using writeNodes_geom_port [of "(x, y)" "initMembers w h ll cs sp c" i] assms(2-)
    by (simp add: initMembers_def)
qed

lemma GridGraph_geom_center:
  assumes "GridGraph w h ll cs sp c = Inr g" "x < w" "y < h"
  shows "geom g (Center (x, y)) = Some (fst ll + real (unat x) * cs, snd ll + real (unat y) * cs)"
proof -
  have "geom g = geom (writeNodes (initMembers w h ll cs sp c))"
    using GridGraph_Inr [OF assms(1)] by (simp add: initRel_def linkedGrid_def geom_linkCells)
  then show ?thesis
    using writeNodes_geom_center [of "(x, y)" "initMembers w h ll cs sp c"] assms(2-)
    by (simp add: initMembers_def)
qed



section \<open>Bend edges of a constructed grid\<close>





section \<open>Port positions and the spacer\<close>

text \<open>
  In a constructed grid, port \<open>i\<close> of the center of cell \<open>(x, y)\<close> lies at the
  center's position plus \<open>spacer\<close> times the unit offset of \<open>i\<close>, where \<open>spacer\<close>
  is the constructor's argument as passed.
\<close>

lemma GridGraph_port_offset:
  assumes "GridGraph w h ll cs sp c = Inr g" "x < w" "y < h" "i < 8"
  shows "\<exists>cx cy. geom g (Center (x, y)) = Some (cx, cy) \<and>
     geom g (Port (x, y) i) = Some (cx + real_of_int (portXi (int i)) * sp, cy + real_of_int (portYi (int i)) * sp)"
  using GridGraph_geom_center [OF assms(1-3)] GridGraph_geom_port [OF assms] by simp

text \<open>
  C5 at a concrete input: cell size 1 and spacer 2, which is above half the cell size.
  The east port of the only cell lies 2 to the right of its center, not 1/2: the cut-off
  in the constructor changes the parameter after the member \<open>_spacer\<close> has been
  initialised from it, and \<open>writeNd\<close> reads the member.
\<close>

theorem GridGraph_spacer_not_clamped:
  "\<exists>g. GridGraph 1 1 (0, 0) 1 2 demoPens = Inr g \<and>
       geom g (Center (0, 0)) = Some (0, 0) \<and> geom g (Port (0, 0) 2) = Some (2, 0)"
proof -
  obtain g where g: "GridGraph 1 1 (0, 0) 1 2 demoPens = Inr g"
    using GridGraph_result [of demoPens 1 1 "(0, 0)" 1 2] by (auto simp add: demoPens_def)
  have "portXi 2 = 1" "portYi 2 = 0" by (simp_all add: portXi_def portYi_def tmod_def tdiv_def)
  then show ?thesis
    using g GridGraph_geom_center [OF g, of 0 0] GridGraph_geom_port [OF g, of 0 0 2] by simp
qed

lemma nkey_eq_iff:
  assumes "i < 8" "j < 8"
  shows "nkey c i = nkey d j \<longleftrightarrow> (c = d \<and> i = j) \<or> (d = nbr c i \<and> j = (i + 4) mod 8)"
proof
  assume "nkey c i = nkey d j"
  then have "(Port c i = Port d j \<and> Port (nbr c i) ((i + 4) mod 8) = Port (nbr d j) ((j + 4) mod 8)) \<or>
             (Port c i = Port (nbr d j) ((j + 4) mod 8) \<and> Port (nbr c i) ((i + 4) mod 8) = Port d j)"
    unfolding nkey_def doubleton_eq_iff .
  then have "(c = d \<and> i = j) \<or> (nbr c i = d \<and> (i + 4) mod 8 = j)"
    unfolding gnode.inject by blast
  then show "(c = d \<and> i = j) \<or> (d = nbr c i \<and> j = (i + 4) mod 8)" by blast
next
  assume "(c = d \<and> i = j) \<or> (d = nbr c i \<and> j = (i + 4) mod 8)"
  then show "nkey c i = nkey d j"
  proof
    assume "c = d \<and> i = j"
    then show ?thesis by simp
  next
    assume h: "d = nbr c i \<and> j = (i + 4) mod 8"
    have "nkey (nbr c i) ((i + 4) mod 8) = {Port (nbr c i) ((i + 4) mod 8), Port c i}"
      unfolding nkey_def nbr_opp [OF assms(1)] opp_opp [OF assms(1)] ..
    also have "\<dots> = nkey c i" unfolding nkey_def by (rule insert_commute)
    finally show ?thesis using h by simp
  qed
qed

lemma nkey_same_cell: "i < 8 \<Longrightarrow> j < 8 \<Longrightarrow> nkey c i = nkey c j \<longleftrightarrow> i = j"
  using nkey_eq_iff [of i j c c] nbr_neq [of c i] by auto

lemma sameCells_closeNode_step: "sameCells g (closeNode_step n i g)"
  by (simp add: closeNode_step_def sameCells_refl sameCells_setEdg split: option.split)

lemma ndClosed_setEdg: "ndClosed (setEdg g a b e) = ndClosed g"
  by (simp add: setEdg_def)

lemma ndClosed_closeNode_step: "ndClosed (closeNode_step n i g) = ndClosed g"
  by (simp add: closeNode_step_def ndClosed_setEdg split: option.split)

lemma edgs_closeNode_step:
  "edgs (closeNode_step n i g) K =
     (if inGrid g (nbr n i) \<and> K = nkey n i then map_option closeEdge (edgs g K) else edgs g K)"
proof (cases "getNeighbor g (fst n) (snd n) i")
  case None
  then have "\<not> inGrid g (nbr n i)" using getNeighbor_iff [of g "fst n" "snd n" i "nbr n i"] by simp
  then show ?thesis using None by (simp add: closeNode_step_def)
next
  case (Some c)
  then have c: "c = nbr n i" "inGrid g (nbr n i)" using getNeighbor_iff [of g "fst n" "snd n" i c] by auto
  show ?thesis
    using Some c by (auto simp add: closeNode_step_def getEdg_def nkey_def edgs_setEdg split: option.split)
qed

lemma closeEdge_idem: "map_option closeEdge (map_option closeEdge e) = map_option closeEdge e"
  by (cases e) (simp_all add: closeEdge_def)

lemma closeNode_steps:
  "sameCells g (fold (closeNode_step n) is g) \<and>
   ndClosed (fold (closeNode_step n) is g) = ndClosed g \<and>
   edgs (fold (closeNode_step n) is g) K =
     (if \<exists>i\<in>set is. inGrid g (nbr n i) \<and> K = nkey n i then map_option closeEdge (edgs g K)
      else edgs g K)"
proof (induction "is" arbitrary: g)
  case Nil
  show ?case by (simp add: sameCells_refl)
next
  case (Cons a "is")
  let ?s = "closeNode_step n a g"
  have sc: "sameCells g ?s" by (rule sameCells_closeNode_step)
  have ig: "inGrid ?s = inGrid g" by (intro ext inGrid_sameCells sc)
  have "sameCells g (fold (closeNode_step n) is ?s)" using Cons.IH [of ?s] sc sameCells_trans by blast
  moreover have "ndClosed (fold (closeNode_step n) is ?s) = ndClosed g"
    using Cons.IH [of ?s] by (simp add: ndClosed_closeNode_step)
  moreover have "edgs (fold (closeNode_step n) is ?s) K =
     (if \<exists>i\<in>set (a # is). inGrid g (nbr n i) \<and> K = nkey n i then map_option closeEdge (edgs g K)
      else edgs g K)"
    using Cons.IH [of ?s] by (auto simp add: ig edgs_closeNode_step closeEdge_idem)
  ultimately show ?case by simp
qed

lemma closeNode_edgs:
  "edgs (closeNode g n) K =
     (if \<not> ndClosed g n \<and> (\<exists>i<8. inGrid g (nbr n i) \<and> K = nkey n i)
      then map_option closeEdge (edgs g K) else edgs g K)"
proof (cases "ndClosed g n")
  case True
  then show ?thesis by (simp add: closeNode_def)
next
  case False
  have "edgs (closeNode g n) K = edgs (fold (closeNode_step n) [0..<8] g) K"
    using False by (simp add: closeNode_def Let_def)
  then show ?thesis using False closeNode_steps [of g n "[0..<8]" K] by auto
qed

lemma closeNode_ndClosed: "ndClosed (closeNode g n) = (ndClosed g)(n := True)"
  using closeNode_steps [of g n "[0..<8]"] by (auto simp add: closeNode_def Let_def fun_eq_iff)

lemma sameCells_closeNode: "sameCells g (closeNode g n)"
proof (cases "ndClosed g n")
  case True
  then show ?thesis by (simp add: closeNode_def sameCells_refl)
next
  case False
  have "sameCells g (fold (closeNode_step n) [0..<8] g)" using closeNode_steps [of g n "[0..<8]"] by simp
  then show ?thesis using False by (simp add: closeNode_def Let_def sameCells_def sameParams_def)
qed

lemma sameCells_openNode_step: "sameCells g (openNode_step n i g)"
  by (simp add: openNode_step_def sameCells_refl sameCells_setEdg split: option.split)

lemma ndClosed_openNode_step: "ndClosed (openNode_step n i g) = ndClosed g"
  by (simp add: openNode_step_def ndClosed_setEdg split: option.split)

lemma edgs_openNode_step:
  "edgs (openNode_step n i g) K =
     (if inGrid g (nbr n i) \<and> \<not> ndClosed g (nbr n i) \<and> K = nkey n i
      then map_option openIfFree (edgs g K) else edgs g K)"
proof (cases "getNeighbor g (fst n) (snd n) i")
  case None
  then have "\<not> inGrid g (nbr n i)" using getNeighbor_iff [of g "fst n" "snd n" i "nbr n i"] by simp
  then show ?thesis using None by (simp add: openNode_step_def)
next
  case (Some c)
  then have c: "c = nbr n i" "inGrid g (nbr n i)" using getNeighbor_iff [of g "fst n" "snd n" i c] by auto
  show ?thesis
    using Some c
    by (auto simp add: openNode_step_def getEdg_def nkey_def edgs_setEdg openIfFree_def split: option.split)
qed

lemma openIfFree_idem: "map_option openIfFree (map_option openIfFree e) = map_option openIfFree e"
  by (cases e) (simp_all add: openIfFree_def openEdge_def)

lemma openNode_steps:
  "sameCells g (fold (openNode_step n) is g) \<and>
   ndClosed (fold (openNode_step n) is g) = ndClosed g \<and>
   edgs (fold (openNode_step n) is g) K =
     (if \<exists>i\<in>set is. inGrid g (nbr n i) \<and> \<not> ndClosed g (nbr n i) \<and> K = nkey n i
      then map_option openIfFree (edgs g K) else edgs g K)"
proof (induction "is" arbitrary: g)
  case Nil
  show ?case by (simp add: sameCells_refl)
next
  case (Cons a "is")
  let ?s = "openNode_step n a g"
  have sc: "sameCells g ?s" by (rule sameCells_openNode_step)
  have ig: "inGrid ?s = inGrid g" by (intro ext inGrid_sameCells sc)
  have nc: "ndClosed ?s = ndClosed g" by (rule ndClosed_openNode_step)
  have "sameCells g (fold (openNode_step n) is ?s)" using Cons.IH [of ?s] sc sameCells_trans by blast
  moreover have "ndClosed (fold (openNode_step n) is ?s) = ndClosed g"
    using Cons.IH [of ?s] by (simp add: nc)
  moreover have "edgs (fold (openNode_step n) is ?s) K =
     (if \<exists>i\<in>set (a # is). inGrid g (nbr n i) \<and> \<not> ndClosed g (nbr n i) \<and> K = nkey n i
      then map_option openIfFree (edgs g K) else edgs g K)"
    using Cons.IH [of ?s] by (auto simp add: ig nc edgs_openNode_step openIfFree_idem)
  ultimately show ?case by simp
qed

lemma openNode_edgs:
  "edgs (openNode g n) K =
     (if ndClosed g n \<and> (\<exists>i<8. inGrid g (nbr n i) \<and> \<not> ndClosed g (nbr n i) \<and> K = nkey n i)
      then map_option openIfFree (edgs g K) else edgs g K)"
proof (cases "ndClosed g n")
  case False
  then show ?thesis by (simp add: openNode_def)
next
  case True
  have "edgs (openNode g n) K = edgs (fold (openNode_step n) [0..<8] g) K"
    using True by (simp add: openNode_def Let_def)
  then show ?thesis using True openNode_steps [of g n "[0..<8]" K] by auto
qed

lemma openNode_ndClosed: "ndClosed (openNode g n) = (ndClosed g)(n := False)"
  using openNode_steps [of g n "[0..<8]"] by (auto simp add: openNode_def Let_def fun_eq_iff)

lemma sameCells_openNode: "sameCells g (openNode g n)"
proof (cases "ndClosed g n")
  case False
  then show ?thesis by (simp add: openNode_def sameCells_refl)
next
  case True
  have "sameCells g (fold (openNode_step n) [0..<8] g)" using openNode_steps [of g n "[0..<8]"] by simp
  then show ?thesis using True by (simp add: openNode_def Let_def sameCells_def sameParams_def)
qed

section \<open>Reserved edges stay closed\<close>

text \<open>
  C3.  Let the edge between port \<open>i\<close> of \<open>n\<close> and the mirrored port of the neighbour
  \<open>m\<close> be closed and have a non-empty reserved-edges set.  After \<open>openNode n\<close> it
  is still there, still closed, with the same reserved edges.  More generally, an edge
  that \<open>openNode n\<close> turns from closed to open had an empty reserved-edges set.
\<close>

theorem openNode_keeps_reserved_closed:
  assumes "i < 8" "getNeighbor g (fst n) (snd n) i = Some m"
    and "getEdg g (Port n i) (Port m ((i + 4) mod 8)) = Some e"
    and "resEdges e \<noteq> []" "closedFlag e"
  shows "(\<exists>e'. getEdg (openNode g n) (Port n i) (Port m ((i + 4) mod 8)) = Some e' \<and>
               closedFlag e' \<and> resEdges e' = resEdges e) \<and>
         (\<forall>K e0 e1. edgs g K = Some e0 \<and> closedFlag e0 \<and>
               edgs (openNode g n) K = Some e1 \<and> \<not> closedFlag e1 \<longrightarrow> resEdges e0 = [])"
proof
  let ?K = "{Port n i, Port m ((i + 4) mod 8)}"
  have "openIfFree e = e" using assms(4) by (simp add: openIfFree_def)
  then have "edgs (openNode g n) ?K = Some e"
    using assms(3) by (simp add: openNode_edgs getEdg_def)
  then show "\<exists>e'. getEdg (openNode g n) (Port n i) (Port m ((i + 4) mod 8)) = Some e' \<and>
               closedFlag e' \<and> resEdges e' = resEdges e"
    using assms(5) by (simp add: getEdg_def)
next
  show "\<forall>K e0 e1. edgs g K = Some e0 \<and> closedFlag e0 \<and>
               edgs (openNode g n) K = Some e1 \<and> \<not> closedFlag e1 \<longrightarrow> resEdges e0 = []"
  proof (intro allI impI)
    fix K e0 e1
    assume h: "edgs g K = Some e0 \<and> closedFlag e0 \<and> edgs (openNode g n) K = Some e1 \<and> \<not> closedFlag e1"
    show "resEdges e0 = []"
    proof (rule ccontr)
      assume "resEdges e0 \<noteq> []"
      then have "openIfFree e0 = e0" by (simp add: openIfFree_def)
      moreover have "edgs g K = Some e0" using h by simp
      ultimately have "edgs (openNode g n) K = Some e0" by (simp add: openNode_edgs)
      then show False using h by auto
    qed
  qed
qed

theorem openNode_keeps_reserved_closed_witness:
  "getNeighbor demoReserved 0 0 2 = Some (1, 0) \<and> ndClosed demoReserved (0, 0) \<and>
   \<not> ndClosed demoReserved (1, 0) \<and>
   (\<exists>e'. getEdg (openNode demoReserved (0, 0)) (Port (0, 0) 2) (Port (1, 0) 6) = Some e' \<and>
         closedFlag e' \<and> resEdges e' = [5])"
  using openNode_keeps_reserved_closed [of 2 demoReserved "(0, 0)" "(1, 0)"
      "\<lparr>rawCost = PInf, secondary = False, closedFlag = True, resEdges = [5]\<rparr>"]
  by (simp add: demoReserved_def initMembers_def getNeighbor_def getNode_def nbX_def nbY_def getEdg_def
      word_le_nat_alt)

lemma edgs_setCostAt:
  "edgs (setCostAt g (p, q) c) K = (if K = {p, q} then map_option (setCost c) (edgs g K) else edgs g K)"
  by (simp add: setCostAt_def)

lemma sameCells_setCostAt: "sameCells g (setCostAt g k c)"
  by (simp add: setCostAt_def sameCells_def sameParams_def)

lemma ndClosed_setCostAt: "ndClosed (setCostAt g k c) = ndClosed g"
  by (simp add: setCostAt_def)

lemma sameEdgeSet_setCostAt: "sameEdgeSet g (setCostAt g k c)"
  by (cases k) (simp add: sameEdgeSet_def sameCells_setCostAt edgs_setCostAt)

lemma sameEdgeSet_closeNode: "sameEdgeSet g (closeNode g n)"
  by (simp add: sameEdgeSet_def sameCells_closeNode closeNode_edgs)

lemma firstDir_unique:
  assumes "d \<in> set is" "getEdg g (Port a d) (Port b ((d + 4) mod 8)) \<noteq> None"
    and "\<forall>k\<in>set is. k \<noteq> d \<longrightarrow> getEdg g (Port a k) (Port b ((k + 4) mod 8)) = None"
  shows "firstDir g a b is = Some d"
  using assms by (induction "is") auto

lemma nkey_getEdg: "getEdg g (Port c i) (Port (nbr c i) ((i + 4) mod 8)) = edgs g (nkey c i)"
  by (simp add: getEdg_def nkey_def)

lemma linkedD:
  assumes "linked g" "inGrid g c" "p < 8" "inGrid g (nbr c p)"
  shows "edgs g (nkey c p) \<noteq> None"
proof -
  have "getNeighbor g (fst c) (snd c) p = Some (nbr c p)" using assms(4) by (simp add: getNeighbor_iff)
  then have "getEdg g (Port c p) (Port (nbr c p) ((p + 4) mod 8)) \<noteq> None"
    using assms(1,2,3) unfolding linked_def by blast
  then show ?thesis by (simp add: nkey_getEdg)
qed

text \<open>In a well-formed grid the search for the direction from \<open>a\<close> to a neighbour finds it.\<close>

lemma firstDir_neighbour:
  assumes "linked g" "mirroredOnly g" "inGrid g a" "d < 8" "inGrid g (nbr a d)"
  shows "firstDir g a (nbr a d) [0..<8] = Some d"
proof (rule firstDir_unique)
  show "d \<in> set [0..<8]" using assms(4) by simp
  show "getEdg g (Port a d) (Port (nbr a d) ((d + 4) mod 8)) \<noteq> None"
    unfolding nkey_getEdg using assms(1,3,4,5) by (rule linkedD)
  show "\<forall>k\<in>set [0..<8]. k \<noteq> d \<longrightarrow> getEdg g (Port a k) (Port (nbr a d) ((k + 4) mod 8)) = None"
  proof (intro ballI impI)
    fix k
    assume k: "k \<in> set [0..<8]" "k \<noteq> d"
    show "getEdg g (Port a k) (Port (nbr a d) ((k + 4) mod 8)) = None"
    proof (rule ccontr)
      assume "getEdg g (Port a k) (Port (nbr a d) ((k + 4) mod 8)) \<noteq> None"
      moreover have "a \<noteq> nbr a d" using nbr_neq [of a d] by simp
      ultimately have "getNeighbor g (fst a) (snd a) k = Some (nbr a d)"
        using assms(2) unfolding mirroredOnly_def by blast
      then have "nbr a d = nbr a k" by (simp add: getNeighbor_iff)
      then have "d = k" using nbr_inj [of d k a] assms(4) k(1) by simp
      then show False using k(2) by simp
    qed
  qed
qed

lemma getNEdge_neighbour:
  assumes "linked g" "mirroredOnly g" "inGrid g a" "d < 8" "inGrid g (nbr a d)"
  shows "getNEdge g (Some a) (Some (nbr a d)) = Some (Port a d, Port (nbr a d) ((d + 4) mod 8))"
  by (simp add: getNEdge_def firstDir_neighbour [OF assms])

text \<open>The two off-axis neighbours of a diagonal direction are themselves diagonal neighbours.\<close>

lemma nbr_cross:
  assumes "d = 1 \<or> d = 3 \<or> d = 5 \<or> d = 7"
  shows "nbr (nbr a ((d + 7) mod 8)) ((d + 2) mod 8) = nbr a ((d + 1) mod 8)"
proof -
  consider "d = 1" | "d = 3" | "d = 5" | "d = 7" using assms by blast
  then show ?thesis
  proof cases
    case 1
    then have e: "(d + 7) mod 8 = 0" "(d + 2) mod 8 = 3" "(d + 1) mod 8 = 2" by simp_all
    show ?thesis unfolding e by (cases a) (simp add: nbr_def off_table)
  next
    case 2
    then have e: "(d + 7) mod 8 = 2" "(d + 2) mod 8 = 5" "(d + 1) mod 8 = 4" by simp_all
    show ?thesis unfolding e by (cases a) (simp add: nbr_def off_table)
  next
    case 3
    then have e: "(d + 7) mod 8 = 4" "(d + 2) mod 8 = 7" "(d + 1) mod 8 = 6" by simp_all
    show ?thesis unfolding e by (cases a) (simp add: nbr_def off_table)
  next
    case 4
    then have e: "(d + 7) mod 8 = 6" "(d + 2) mod 8 = 1" "(d + 1) mod 8 = 0" by simp_all
    show ?thesis unfolding e by (cases a) (simp add: nbr_def off_table)
  qed
qed

lemma nkey_not_of_cell:
  assumes "\<forall>n\<in>K. cellOf n \<noteq> c"
  shows "K \<noteq> nkey c i"
  using assms by (auto simp add: nkey_def)

lemma closeNode_other:
  assumes "\<forall>n\<in>K. cellOf n \<noteq> c"
  shows "edgs (closeNode g c) K = edgs g K"
  using nkey_not_of_cell [OF assms] by (simp add: closeNode_edgs)

lemma closeNode_rawCost: "map_option rawCost (edgs (closeNode g c) K) = map_option rawCost (edgs g K)"
  by (cases "edgs g K") (simp_all add: closeNode_edgs closeEdge_def)

lemma closeNode_closes: "ndClosed (closeNode g c) c"
  by (simp add: closeNode_ndClosed)

lemma closeNode_stays_closed: "ndClosed g n \<Longrightarrow> ndClosed (closeNode g c) n"
  by (simp add: closeNode_ndClosed)

text \<open>The state after the first three steps of \<open>balanceEdge\<close>.\<close>

lemma balance_steps:
  fixes g a b k
  defines "g3 \<equiv> closeNode (closeNode (setCostAt g k PInf) a) b"
  shows "sameEdgeSet g g3"
    and "ndClosed g3 a" and "ndClosed g3 b"
    and "\<forall>n\<in>K. cellOf n \<noteq> a \<and> cellOf n \<noteq> b \<Longrightarrow> K \<noteq> {fst k, snd k} \<Longrightarrow> edgs g3 K = edgs g K"
    and "edgs g {fst k, snd k} \<noteq> None \<Longrightarrow> map_option rawCost (edgs g3 {fst k, snd k}) = Some PInf"
proof -
  let ?g1 = "setCostAt g k PInf"
  let ?g2 = "closeNode ?g1 a"
  show "sameEdgeSet g g3"
    unfolding g3_def
    by (rule sameEdgeSet_trans [OF sameEdgeSet_trans [OF sameEdgeSet_setCostAt sameEdgeSet_closeNode]
          sameEdgeSet_closeNode])
  show "ndClosed g3 a" unfolding g3_def by (intro closeNode_stays_closed closeNode_closes)
  show "ndClosed g3 b" unfolding g3_def by (rule closeNode_closes)
  show "edgs g3 K = edgs g K" if "\<forall>n\<in>K. cellOf n \<noteq> a \<and> cellOf n \<noteq> b" "K \<noteq> {fst k, snd k}"
  proof -
    have "edgs g3 K = edgs ?g2 K" unfolding g3_def using that(1) by (intro closeNode_other) blast
    also have "\<dots> = edgs ?g1 K" using that(1) by (intro closeNode_other) blast
    also have "\<dots> = edgs g K" using that(2) by (cases k) (simp add: edgs_setCostAt)
    finally show ?thesis .
  qed
  show "map_option rawCost (edgs g3 {fst k, snd k}) = Some PInf" if "edgs g {fst k, snd k} \<noteq> None"
  proof -
    have "map_option rawCost (edgs g3 {fst k, snd k}) = map_option rawCost (edgs ?g1 {fst k, snd k})"
      unfolding g3_def by (simp only: closeNode_rawCost)
    also have "\<dots> = Some PInf" using that by (cases k) (auto simp add: edgs_setCostAt setCost_def)
    finally show ?thesis .
  qed
qed

lemma odd_dir_facts:
  fixes d :: nat
  assumes "d = 1 \<or> d = 3 \<or> d = 5 \<or> d = 7"
  shows "d < 8" "(d + 7) mod 8 < 8" "(d + 1) mod 8 < 8" "(d + 2) mod 8 < 8"
    "(d + 7) mod 8 \<noteq> d" "(d + 1) mod 8 \<noteq> d" "((d + 2) mod 8 + 4) mod 8 = (d + 6) mod 8"
  using assms by auto

lemma balanceEdge_diagonal_aux:
  assumes wf: "linked g" "mirroredOnly g" and a: "inGrid g a"
    and d: "d = 1 \<or> d = 3 \<or> d = 5 \<or> d = 7"
    and b: "getNeighbor g (fst a) (snd a) d = Some b"
  shows "\<exists>g'. balanceEdge g a b = Inr g' \<and> sameEdgeSet g g' \<and>
           map_option rawCost (getEdg g' (Port a d) (Port b ((d + 4) mod 8))) = Some PInf \<and>
           ndClosed g' a \<and> ndClosed g' b \<and>
           (\<forall>na nb. getNeighbor g (fst a) (snd a) ((d + 7) mod 8) = Some na \<and>
                    getNeighbor g (fst a) (snd a) ((d + 1) mod 8) = Some nb \<longrightarrow>
              (\<exists>e0. getEdg g (Port na ((d + 2) mod 8)) (Port nb ((d + 6) mod 8)) = Some e0 \<and>
                    getEdg g' (Port na ((d + 2) mod 8)) (Port nb ((d + 6) mod 8)) = Some (setCost PInf e0)))"
proof -
  note df = odd_dir_facts [OF d]
  have bn: "b = nbr a d" and bg: "inGrid g (nbr a d)" using b by (auto simp add: getNeighbor_iff)
  have ab: "a \<noteq> b" using nbr_neq [of a d] bn by simp
  let ?k = "(Port a d, Port b ((d + 4) mod 8))"
  have kk: "{fst ?k, snd ?k} = nkey a d" by (simp add: nkey_def bn)
  have fd: "firstDir g a b [0..<8] = Some d"
    unfolding bn by (rule firstDir_neighbour [OF wf a df(1) bg])
  have ne: "getNEdge g (Some a) (Some b) = Some ?k"
    unfolding bn by (rule getNEdge_neighbour [OF wf a df(1) bg])
  define g3 where "g3 = closeNode (closeNode (setCostAt g ?k PInf) a) b"
  have ses: "sameEdgeSet g g3" unfolding g3_def by (rule balance_steps(1))
  then have sc: "sameCells g g3" by (simp add: sameEdgeSet_def)
  have wf3: "linked g3" "mirroredOnly g3"
    using linked_sameEdgeSet [OF ses wf(1)] mirroredOnly_sameEdgeSet [OF ses wf(2)] by simp_all
  have nc3: "ndClosed g3 a" "ndClosed g3 b" unfolding g3_def by (rule balance_steps(2), rule balance_steps(3))
  have ex: "edgs g {fst ?k, snd ?k} \<noteq> None" unfolding kk by (rule linkedD [OF wf(1) a df(1) bg])
  have rc3: "map_option rawCost (edgs g3 {fst ?k, snd ?k}) = Some PInf"
    unfolding g3_def using ex by (rule balance_steps(5))
  let ?na = "getNeighbor g3 (fst a) (snd a) ((d + 7) mod 8)"
  let ?nb = "getNeighbor g3 (fst a) (snd a) ((d + 1) mod 8)"
  have nb3: "getNeighbor g3 = getNeighbor g" by (intro ext getNeighbor_sameCells sc)
  have unfold: "balanceEdge g a b =
     (if ?na \<noteq> None \<and> ?nb \<noteq> None
      then (case getNEdge g3 ?na ?nb of None \<Rightarrow> Inl NullDeref | Some e \<Rightarrow> Inr (setCostAt g3 e PInf))
      else Inr g3)"
    unfolding g3_def balanceEdge_def Let_def fd ne option.case
    by (simp only: if_not_P [OF ab] if_P [OF d])
  show ?thesis
  proof (cases "?na \<noteq> None \<and> ?nb \<noteq> None")
    case False
    have r: "balanceEdge g a b = Inr g3" unfolding unfold by (rule if_not_P [OF False])
    have noex: "\<not> (getNeighbor g (fst a) (snd a) ((d + 7) mod 8) = Some na \<and>
              getNeighbor g (fst a) (snd a) ((d + 1) mod 8) = Some nb)" for na nb
      using False unfolding nb3 by (metis option.distinct(1))
    show ?thesis
    proof (rule exI [where x = g3], intro conjI allI impI)
      show "balanceEdge g a b = Inr g3" by (rule r)
      show "sameEdgeSet g g3" by (rule ses)
      show "map_option rawCost (getEdg g3 (Port a d) (Port b ((d + 4) mod 8))) = Some PInf"
        using rc3 by (simp add: getEdg_def)
      show "ndClosed g3 a" "ndClosed g3 b" by (rule nc3)+
      fix na nb
      assume "getNeighbor g (fst a) (snd a) ((d + 7) mod 8) = Some na \<and>
              getNeighbor g (fst a) (snd a) ((d + 1) mod 8) = Some nb"
      then show "\<exists>e0. getEdg g (Port na ((d + 2) mod 8)) (Port nb ((d + 6) mod 8)) = Some e0 \<and>
            getEdg g3 (Port na ((d + 2) mod 8)) (Port nb ((d + 6) mod 8)) = Some (setCost PInf e0)"
        using noex by blast
    qed
  next
    case True
    then obtain na nb where n: "?na = Some na" "?nb = Some nb" by auto
    have na: "na = nbr a ((d + 7) mod 8)" "inGrid g na" using n(1) by (auto simp add: nb3 getNeighbor_iff)
    have nb: "nb = nbr a ((d + 1) mod 8)" "inGrid g nb" using n(2) by (auto simp add: nb3 getNeighbor_iff)
    have cross: "nb = nbr na ((d + 2) mod 8)" unfolding na(1) nb(1) by (rule nbr_cross [OF d, symmetric])
    have ig3: "inGrid g3 na" "inGrid g3 (nbr na ((d + 2) mod 8))"
      unfolding cross [symmetric] inGrid_sameCells [OF sc] by (rule na(2), rule nb(2))
    let ?e = "(Port na ((d + 2) mod 8), Port nb ((d + 6) mod 8))"
    have ne3: "getNEdge g3 (Some na) (Some nb) = Some ?e"
      using getNEdge_neighbour [OF wf3 ig3(1) df(4) ig3(2)] unfolding cross [symmetric] df(7) .
    let ?g4 = "setCostAt g3 ?e PInf"
    have r: "balanceEdge g a b = Inr ?g4"
      unfolding unfold if_P [OF True] unfolding n ne3 option.case ..
    have distinct_cells: "na \<noteq> a" "nb \<noteq> a" "na \<noteq> b" "nb \<noteq> b"
      using nbr_neq [of a "(d + 7) mod 8"] nbr_neq [of a "(d + 1) mod 8"]
        nbr_inj [OF df(2) df(1), of a] nbr_inj [OF df(3) df(1), of a] df(5,6)
      by (auto simp add: na(1) nb(1) bn)
    have ek: "{fst ?e, snd ?e} \<noteq> {fst ?k, snd ?k}"
      using distinct_cells by (auto simp add: doubleton_eq_iff)
    have e3: "edgs g3 {fst ?e, snd ?e} = edgs g {fst ?e, snd ?e}"
      unfolding g3_def using distinct_cells ek by (intro balance_steps(4)) auto
    have "inGrid g (nbr na ((d + 2) mod 8))" using nb(2) unfolding cross .
    then have "edgs g (nkey na ((d + 2) mod 8)) \<noteq> None" by (rule linkedD [OF wf(1) na(2) df(4)])
    then have eex: "edgs g {fst ?e, snd ?e} \<noteq> None"
      unfolding nkey_def cross [symmetric] df(7) fst_conv snd_conv .
    then obtain e0 where e0: "edgs g {fst ?e, snd ?e} = Some e0" by blast
    have rc4: "map_option rawCost (edgs ?g4 {fst ?k, snd ?k}) = Some PInf"
      using rc3 ek by (simp add: edgs_setCostAt)
    have nc4: "ndClosed ?g4 a" "ndClosed ?g4 b" using nc3 by (simp_all add: ndClosed_setCostAt)
    have e4: "edgs ?g4 {fst ?e, snd ?e} = Some (setCost PInf e0)"
      using e3 e0 by (simp add: edgs_setCostAt)
    show ?thesis
    proof (rule exI [where x = ?g4], intro conjI allI impI)
      show "balanceEdge g a b = Inr ?g4" by (rule r)
      show "sameEdgeSet g ?g4" by (rule sameEdgeSet_trans [OF ses sameEdgeSet_setCostAt])
      show "map_option rawCost (getEdg ?g4 (Port a d) (Port b ((d + 4) mod 8))) = Some PInf"
        using rc4 by (simp add: getEdg_def)
      show "ndClosed ?g4 a" "ndClosed ?g4 b" by (rule nc4)+
      fix na' nb'
      assume "getNeighbor g (fst a) (snd a) ((d + 7) mod 8) = Some na' \<and>
              getNeighbor g (fst a) (snd a) ((d + 1) mod 8) = Some nb'"
      then have "na' = na" "nb' = nb" using n by (simp_all add: nb3)
      then show "\<exists>e0. getEdg g (Port na' ((d + 2) mod 8)) (Port nb' ((d + 6) mod 8)) = Some e0 \<and>
            getEdg ?g4 (Port na' ((d + 2) mod 8)) (Port nb' ((d + 6) mod 8)) = Some (setCost PInf e0)"
        using e0 e4 by (simp add: getEdg_def)
    qed
  qed
qed

lemma demoGrid_built: "GridGraph 2 2 (0, 0) 1 (1 / 4) demoPens = Inr demoGrid"
proof -
  obtain g where "GridGraph 2 2 (0, 0) 1 (1 / 4) demoPens = Inr g"
    using GridGraph_result [of demoPens 2 2 "(0, 0)" 1 "1 / 4"] by (auto simp add: demoPens_def)
  then show ?thesis by (simp add: demoGrid_def)
qed

lemma demoGrid_inGrid: "inGrid demoGrid c \<longleftrightarrow> fst c < 2 \<and> snd c < 2"
  by (rule GridGraph_inGrid [OF demoGrid_built])

lemma demoGrid_neighbours:
  "getNeighbor demoGrid 0 0 1 = Some (1, 1)" "getNeighbor demoGrid 0 0 0 = Some (0, 1)"
  "getNeighbor demoGrid 0 0 2 = Some (1, 0)"
  by (simp_all add: getNeighbor_iff demoGrid_inGrid nbr_def off_table)

section \<open>Balancing a diagonal edge\<close>

text \<open>
  C8 as stated fails in its last part: after \<open>balanceEdge\<close> on the diagonal from
  \<open>(0, 0)\<close> to \<open>(1, 1)\<close> of a freshly built 2 x 2 grid, the edge between the off-axis
  neighbours \<open>(0, 1)\<close> and \<open>(1, 0)\<close> has raw cost infinity, but its closed flag is still
  false: \<open>balanceEdge\<close> calls \<open>setCost(INF)\<close> on it, not \<open>close()\<close>.
\<close>

theorem balanceEdge_crossing_counterexample:
  "balanceEdge demoGrid (0, 0) (1, 1) = Inr (projr (balanceEdge demoGrid (0, 0) (1, 1))) \<and>
   map_option closedFlag
     (getEdg (projr (balanceEdge demoGrid (0, 0) (1, 1))) (Port (0, 1) 3) (Port (1, 0) 7)) = Some False \<and>
   map_option rawCost
     (getEdg (projr (balanceEdge demoGrid (0, 0) (1, 1))) (Port (0, 1) 3) (Port (1, 0) 7)) = Some PInf"
proof -
  have wf: "linked demoGrid" "mirroredOnly demoGrid"
    by (rule GridGraph_linked [OF demoGrid_built], rule GridGraph_mirroredOnly [OF demoGrid_built])
  have a: "inGrid demoGrid (0, 0)" by (simp add: demoGrid_inGrid)
  have d: "(1::nat) = 1 \<or> (1::nat) = 3 \<or> (1::nat) = 5 \<or> (1::nat) = 7" by simp
  have b: "getNeighbor demoGrid (fst (0, 0)) (snd (0, 0)) 1 = Some (1, 1)"
    unfolding fst_conv snd_conv by (rule demoGrid_neighbours(1))
  have ar: "((1::nat) + 7) mod 8 = 0" "((1::nat) + 1) mod 8 = 2" "((1::nat) + 2) mod 8 = 3"
    "((1::nat) + 6) mod 8 = 7" by simp_all
  obtain g' where g': "balanceEdge demoGrid (0, 0) (1, 1) = Inr g'"
    and cr: "\<forall>na nb. getNeighbor demoGrid 0 0 0 = Some na \<and> getNeighbor demoGrid 0 0 2 = Some nb \<longrightarrow>
              (\<exists>e0. getEdg demoGrid (Port na 3) (Port nb 7) = Some e0 \<and>
                    getEdg g' (Port na 3) (Port nb 7) = Some (setCost PInf e0))"
    using balanceEdge_diagonal_aux [OF wf a d b, unfolded ar fst_conv snd_conv] by blast
  obtain e0 where e0: "getEdg demoGrid (Port (0, 1) 3) (Port (1, 0) 7) = Some e0"
    "getEdg g' (Port (0, 1) 3) (Port (1, 0) 7) = Some (setCost PInf e0)"
    using cr demoGrid_neighbours(2,3) by blast
  have "\<not> closedFlag e0"
    using GridGraph_allOpen [OF demoGrid_built] e0(1) unfolding allOpen_def getEdg_def by blast
  then show ?thesis using g' e0(2) by (simp add: setCost_def)
qed

text \<open>
  C8, amended.  In a well-formed grid let \<open>b\<close> be the neighbour of \<open>a\<close> in a diagonal
  direction \<open>d\<close>.  Then \<open>balanceEdge a b\<close> succeeds, and afterwards the traversal
  edge between \<open>a\<close> and \<open>b\<close> has raw cost infinity and both \<open>a\<close> and \<open>b\<close> are closed.
  If both off-axis neighbours of \<open>a\<close> exist, the inter-cell edge between them has raw
  cost infinity; its closed flag is what it was before.
\<close>

theorem balanceEdge_diagonal:
  assumes "linked g" "mirroredOnly g" "inGrid g a"
    and "d = 1 \<or> d = 3 \<or> d = 5 \<or> d = 7"
    and "getNeighbor g (fst a) (snd a) d = Some b"
  shows "\<exists>g'. balanceEdge g a b = Inr g' \<and>
           map_option rawCost (getEdg g' (Port a d) (Port b ((d + 4) mod 8))) = Some PInf \<and>
           ndClosed g' a \<and> ndClosed g' b \<and>
           (\<forall>na nb. getNeighbor g (fst a) (snd a) ((d + 7) mod 8) = Some na \<and>
                    getNeighbor g (fst a) (snd a) ((d + 1) mod 8) = Some nb \<longrightarrow>
              getNEdge g' (Some na) (Some nb) = Some (Port na ((d + 2) mod 8), Port nb ((d + 6) mod 8)) \<and>
              map_option rawCost (getEdg g' (Port na ((d + 2) mod 8)) (Port nb ((d + 6) mod 8))) = Some PInf \<and>
              map_option closedFlag (getEdg g' (Port na ((d + 2) mod 8)) (Port nb ((d + 6) mod 8))) =
                map_option closedFlag (getEdg g (Port na ((d + 2) mod 8)) (Port nb ((d + 6) mod 8))))"
proof -
  note df = odd_dir_facts [OF assms(4)]
  obtain g' where r: "balanceEdge g a b = Inr g'" and ses: "sameEdgeSet g g'"
    and tr: "map_option rawCost (getEdg g' (Port a d) (Port b ((d + 4) mod 8))) = Some PInf"
    and nc: "ndClosed g' a" "ndClosed g' b"
    and cr: "\<forall>na nb. getNeighbor g (fst a) (snd a) ((d + 7) mod 8) = Some na \<and>
                    getNeighbor g (fst a) (snd a) ((d + 1) mod 8) = Some nb \<longrightarrow>
              (\<exists>e0. getEdg g (Port na ((d + 2) mod 8)) (Port nb ((d + 6) mod 8)) = Some e0 \<and>
                    getEdg g' (Port na ((d + 2) mod 8)) (Port nb ((d + 6) mod 8)) = Some (setCost PInf e0))"
    using balanceEdge_diagonal_aux [OF assms] by blast
  have sc: "sameCells g g'" using ses by (simp add: sameEdgeSet_def)
  have wf': "linked g'" "mirroredOnly g'"
    using linked_sameEdgeSet [OF ses assms(1)] mirroredOnly_sameEdgeSet [OF ses assms(2)] by simp_all
  show ?thesis
  proof (rule exI [where x = g'], intro conjI allI impI)
    show "balanceEdge g a b = Inr g'" by (rule r)
    show "map_option rawCost (getEdg g' (Port a d) (Port b ((d + 4) mod 8))) = Some PInf" by (rule tr)
    show "ndClosed g' a" "ndClosed g' b" by (rule nc)+
  next
    fix na nb
    assume h: "getNeighbor g (fst a) (snd a) ((d + 7) mod 8) = Some na \<and>
               getNeighbor g (fst a) (snd a) ((d + 1) mod 8) = Some nb"
    then obtain e0 where e0: "getEdg g (Port na ((d + 2) mod 8)) (Port nb ((d + 6) mod 8)) = Some e0"
      "getEdg g' (Port na ((d + 2) mod 8)) (Port nb ((d + 6) mod 8)) = Some (setCost PInf e0)"
      using cr by blast
    have na: "na = nbr a ((d + 7) mod 8)" "inGrid g na" using h by (auto simp add: getNeighbor_iff)
    have nb: "nb = nbr a ((d + 1) mod 8)" "inGrid g nb" using h by (auto simp add: getNeighbor_iff)
    have cross: "nb = nbr na ((d + 2) mod 8)"
      unfolding na(1) nb(1) by (rule nbr_cross [OF assms(4), symmetric])
    have ig: "inGrid g' na" "inGrid g' (nbr na ((d + 2) mod 8))"
      unfolding cross [symmetric] inGrid_sameCells [OF sc] by (rule na(2), rule nb(2))
    show "getNEdge g' (Some na) (Some nb) = Some (Port na ((d + 2) mod 8), Port nb ((d + 6) mod 8))"
      using getNEdge_neighbour [OF wf' ig(1) df(4) ig(2)] unfolding cross [symmetric] df(7) .
    show "map_option rawCost (getEdg g' (Port na ((d + 2) mod 8)) (Port nb ((d + 6) mod 8))) = Some PInf"
      unfolding e0(2) by (simp add: setCost_def)
    show "map_option closedFlag (getEdg g' (Port na ((d + 2) mod 8)) (Port nb ((d + 6) mod 8))) =
          map_option closedFlag (getEdg g (Port na ((d + 2) mod 8)) (Port nb ((d + 6) mod 8)))"
      unfolding e0 by (simp add: setCost_def)
  qed
qed

theorem balanceEdge_diagonal_witness:
  "linked demoGrid \<and> mirroredOnly demoGrid \<and> inGrid demoGrid (0, 0) \<and>
   getNeighbor demoGrid 0 0 1 = Some (1, 1) \<and>
   getNeighbor demoGrid 0 0 0 = Some (0, 1) \<and> getNeighbor demoGrid 0 0 2 = Some (1, 0) \<and>
   (\<exists>g'. balanceEdge demoGrid (0, 0) (1, 1) = Inr g' \<and>
      map_option rawCost (getEdg g' (Port (0, 0) 1) (Port (1, 1) 5)) = Some PInf \<and>
      ndClosed g' (0, 0) \<and> ndClosed g' (1, 1) \<and>
      getNEdge g' (Some (0, 1)) (Some (1, 0)) = Some (Port (0, 1) 3, Port (1, 0) 7) \<and>
      map_option rawCost (getEdg g' (Port (0, 1) 3) (Port (1, 0) 7)) = Some PInf)"
proof -
  have wf: "linked demoGrid" "mirroredOnly demoGrid"
    by (rule GridGraph_linked [OF demoGrid_built], rule GridGraph_mirroredOnly [OF demoGrid_built])
  have a: "inGrid demoGrid (0, 0)" by (simp add: demoGrid_inGrid)
  have d: "(1::nat) = 1 \<or> (1::nat) = 3 \<or> (1::nat) = 5 \<or> (1::nat) = 7" by simp
  have b: "getNeighbor demoGrid (fst (0, 0)) (snd (0, 0)) 1 = Some (1, 1)"
    unfolding fst_conv snd_conv by (rule demoGrid_neighbours(1))
  have ar: "((1::nat) + 7) mod 8 = 0" "((1::nat) + 1) mod 8 = 2" "((1::nat) + 2) mod 8 = 3"
    "((1::nat) + 6) mod 8 = 7" "((1::nat) + 4) mod 8 = 5" by simp_all
  show ?thesis
    using balanceEdge_diagonal [OF wf a d b, unfolded ar fst_conv snd_conv] wf a demoGrid_neighbours
    by blast
qed

lemma sameEdgeSet_setEdg:
  assumes "edgs g {a, b} \<noteq> None"
  shows "sameEdgeSet g (setEdg g a b e)"
  using assms by (auto simp add: sameEdgeSet_def sameCells_setEdg edgs_setEdg)

lemma sameEdgeSet_openNode: "sameEdgeSet g (openNode g n)"
  by (simp add: sameEdgeSet_def sameCells_openNode openNode_edgs)

lemma sameEdgeSet_cells: "sameEdgeSet g g' \<Longrightarrow> sameCells g g'"
  by (simp add: sameEdgeSet_def)

lemma nkey_nbr_other:
  assumes "i < 8" "j < 8" "p < 8" "j \<noteq> i"
  shows "nkey n j \<noteq> nkey (nbr n i) p"
proof
  assume "nkey n j = nkey (nbr n i) p"
  then have "(n = nbr n i \<and> j = p) \<or> (nbr n i = nbr n j \<and> p = (j + 4) mod 8)"
    using nkey_eq_iff [OF assms(2,3), of n "nbr n i"] by simp
  then have "nbr n i = nbr n j" using nbr_neq [of n i] by auto
  then show False using nbr_inj [OF assms(1,2)] assms(4) by simp
qed

lemma closeNode_nbr_other:
  assumes "i < 8" "j < 8" "j \<noteq> i"
  shows "edgs (closeNode g (nbr n i)) (nkey n j) = edgs g (nkey n j)"
proof -
  have "\<not> (\<exists>p<8. inGrid g (nbr (nbr n i) p) \<and> nkey n j = nkey (nbr n i) p)"
    using nkey_nbr_other [OF assms(1,2) _ assms(3)] by blast
  then show ?thesis unfolding closeNode_edgs by (simp only: simp_thms if_False)
qed

lemma openNode_nbr_other:
  assumes "i < 8" "j < 8" "j \<noteq> i"
  shows "edgs (openNode g (nbr n i)) (nkey n j) = edgs g (nkey n j)"
proof -
  have "\<not> (\<exists>p<8. inGrid g (nbr (nbr n i) p) \<and> \<not> ndClosed g (nbr (nbr n i) p) \<and> nkey n j = nkey (nbr n i) p)"
    using nkey_nbr_other [OF assms(1,2) _ assms(3)] by blast
  then show ?thesis unfolding openNode_edgs by (simp only: simp_thms if_False)
qed

lemma closeNode_closed_edge:
  assumes "edgs g K = Some e" "closedFlag e"
  shows "edgs (closeNode g m) K = Some e"
  using assms by (simp add: closeNode_edgs closeEdge_def)

lemma openNode_open_edge:
  assumes "edgs g K = Some e" "\<not> closedFlag e"
  shows "edgs (openNode g m) K = Some e"
  using assms by (simp add: openNode_edgs openIfFree_def openEdge_def)

lemma setEdg_nkey: "setEdg g (Port n i) (Port (nbr n i) ((i + 4) mod 8)) e = g\<lparr>edgs := (edgs g)(nkey n i \<mapsto> e)\<rparr>"
  by (simp add: setEdg_def nkey_def)

lemma edgs_setEdg_nkey:
  "edgs (setEdg g (Port n i) (Port (nbr n i) ((i + 4) mod 8)) e) K = (if K = nkey n i then Some e else edgs g K)"
  by (simp add: setEdg_nkey)

lemma getNeighbor_nbr:
  "getNeighbor g (fst n) (snd n) i = (if inGrid g (nbr n i) then Some (nbr n i) else None)"
  by (auto simp add: getNeighbor_def getNode_def inGrid_def nbr_def off_def not_le)

lemma addCostVector_step_effect:
  assumes "i < 8" "inGrid g (nbr n i) \<longrightarrow> edgs g (nkey n i) \<noteq> None"
  shows "\<exists>g'. addCostVector_step n c i (g, iv) =
            Inr (g', iv(i := if inGrid g (nbr n i) then invVal (c i) (edgs g (nkey n i)) else iv i)) \<and>
          sameEdgeSet g g' \<and>
          (inGrid g (nbr n i) \<longrightarrow> edgs g' (nkey n i) = map_option (addEff (c i)) (edgs g (nkey n i))) \<and>
          (\<forall>j<8. j \<noteq> i \<longrightarrow> edgs g' (nkey n j) = edgs g (nkey n j))"
proof (cases "inGrid g (nbr n i)")
  case False
  then have "getNeighbor g (fst n) (snd n) i = None" by (simp add: getNeighbor_nbr)
  then show ?thesis using False by (simp add: addCostVector_step_def sameEdgeSet_refl)
next
  case True
  then have nb: "getNeighbor g (fst n) (snd n) i = Some (nbr n i)" by (simp add: getNeighbor_nbr)
  obtain e where e: "edgs g (nkey n i) = Some e" using assms(2) True by auto
  have ge: "getEdg g (Port n i) (Port (nbr n i) ((i + 4) mod 8)) = Some e" using e by (simp add: nkey_getEdg)
  have ex: "edgs g {Port n i, Port (nbr n i) ((i + 4) mod 8)} \<noteq> None" using e by (simp add: nkey_def)
  have oth: "nkey n j \<noteq> nkey n i" if "j < 8" "j \<noteq> i" for j
    using nkey_same_cell [OF that(1) assms(1), of n] that(2) by simp
  consider (closed) "c i < - 1" "closedFlag e" | (close) "c i < - 1" "\<not> closedFlag e" | (add) "\<not> c i < - 1"
    by blast
  then show ?thesis
  proof cases
    case closed
    have "addCostVector_step n c i (g, iv) = Inr (g, iv(i := 0))"
      using closed nb ge by (simp add: addCostVector_step_def Let_def)
    moreover have "addEff (c i) e = e" using closed by (simp add: addEff_def closeEdge_def)
    ultimately show ?thesis using True e closed by (simp add: sameEdgeSet_refl invVal_def)
  next
    case close
    let ?g1 = "setEdg g (Port n i) (Port (nbr n i) ((i + 4) mod 8)) (closeEdge e)"
    let ?g' = "closeNode ?g1 (nbr n i)"
    have s1: "sameEdgeSet g ?g1" by (rule sameEdgeSet_setEdg [OF ex])
    have nb1: "getNeighbor ?g1 (fst n) (snd n) i = Some (nbr n i)"
      using nb getNeighbor_sameCells [OF sameEdgeSet_cells [OF s1]] by simp
    have r: "addCostVector_step n c i (g, iv) = Inr (?g', iv(i := c i))"
      using close nb ge nb1 by (simp add: addCostVector_step_def Let_def)
    have ses: "sameEdgeSet g ?g'" by (rule sameEdgeSet_trans [OF s1 sameEdgeSet_closeNode])
    have "edgs ?g1 (nkey n i) = Some (closeEdge e)" by (simp add: edgs_setEdg_nkey)
    then have ki: "edgs ?g' (nkey n i) = Some (closeEdge e)"
      by (rule closeNode_closed_edge) (simp add: closeEdge_def)
    have kj: "edgs ?g' (nkey n j) = edgs g (nkey n j)" if "j < 8" "j \<noteq> i" for j
      using closeNode_nbr_other [OF assms(1) that, of ?g1 n] oth [OF that] by (simp add: edgs_setEdg_nkey)
    show ?thesis
    proof (rule exI [where x = ?g'], intro conjI allI impI)
      show "addCostVector_step n c i (g, iv) =
            Inr (?g', iv(i := if inGrid g (nbr n i) then invVal (c i) (edgs g (nkey n i)) else iv i))"
        using r True e close by (simp add: invVal_def)
      show "sameEdgeSet g ?g'" by (rule ses)
      show "edgs ?g' (nkey n i) = map_option (addEff (c i)) (edgs g (nkey n i))"
        using ki e close by (simp add: addEff_def)
      show "edgs ?g' (nkey n j) = edgs g (nkey n j)" if "j < 8" "j \<noteq> i" for j
        using that by (rule kj)
    qed
  next
    case add
    let ?g' = "setEdg g (Port n i) (Port (nbr n i) ((i + 4) mod 8)) (setCost (addCost (rawCost e) (c i)) e)"
    have r: "addCostVector_step n c i (g, iv) = Inr (?g', iv(i := c i))"
      using add nb ge by (simp add: addCostVector_step_def Let_def)
    show ?thesis
    proof (rule exI [where x = ?g'], intro conjI allI impI)
      show "addCostVector_step n c i (g, iv) =
            Inr (?g', iv(i := if inGrid g (nbr n i) then invVal (c i) (edgs g (nkey n i)) else iv i))"
        using r True e add by (simp add: invVal_def)
      show "sameEdgeSet g ?g'" by (rule sameEdgeSet_setEdg [OF ex])
      show "edgs ?g' (nkey n i) = map_option (addEff (c i)) (edgs g (nkey n i))"
        using e add by (simp add: addEff_def edgs_setEdg_nkey)
      show "edgs ?g' (nkey n j) = edgs g (nkey n j)" if "j < 8" "j \<noteq> i" for j
        using oth [OF that] by (simp add: edgs_setEdg_nkey)
    qed
  qed
qed

lemma removeCostVector_step_effect:
  assumes "i < 8" "inGrid g (nbr n i) \<longrightarrow> edgs g (nkey n i) \<noteq> None"
  shows "\<exists>g'. removeCostVector_step n iv i g = Inr g' \<and> sameEdgeSet g g' \<and>
          (inGrid g (nbr n i) \<longrightarrow> edgs g' (nkey n i) = map_option (remEff (iv i)) (edgs g (nkey n i))) \<and>
          (\<forall>j<8. j \<noteq> i \<longrightarrow> edgs g' (nkey n j) = edgs g (nkey n j))"
proof (cases "inGrid g (nbr n i)")
  case False
  then have "getNeighbor g (fst n) (snd n) i = None" by (simp add: getNeighbor_nbr)
  then show ?thesis using False by (simp add: removeCostVector_step_def sameEdgeSet_refl)
next
  case True
  then have nb: "getNeighbor g (fst n) (snd n) i = Some (nbr n i)" by (simp add: getNeighbor_nbr)
  obtain e where e: "edgs g (nkey n i) = Some e" using assms(2) True by auto
  have ge: "getEdg g (Port n i) (Port (nbr n i) ((i + 4) mod 8)) = Some e" using e by (simp add: nkey_getEdg)
  have ex: "edgs g {Port n i, Port (nbr n i) ((i + 4) mod 8)} \<noteq> None" using e by (simp add: nkey_def)
  have oth: "nkey n j \<noteq> nkey n i" if "j < 8" "j \<noteq> i" for j
    using nkey_same_cell [OF that(1) assms(1), of n] that(2) by simp
  show ?thesis
  proof (cases "iv i < - 1")
    case True
    let ?g1 = "setEdg g (Port n i) (Port (nbr n i) ((i + 4) mod 8)) (openEdge e)"
    let ?g' = "openNode ?g1 (nbr n i)"
    have s1: "sameEdgeSet g ?g1" by (rule sameEdgeSet_setEdg [OF ex])
    have nb1: "getNeighbor ?g1 (fst n) (snd n) i = Some (nbr n i)"
      using nb getNeighbor_sameCells [OF sameEdgeSet_cells [OF s1]] by simp
    have r: "removeCostVector_step n iv i g = Inr ?g'"
      using True nb ge nb1 by (simp add: removeCostVector_step_def Let_def)
    have "edgs ?g1 (nkey n i) = Some (openEdge e)" by (simp add: edgs_setEdg_nkey)
    then have ki: "edgs ?g' (nkey n i) = Some (openEdge e)"
      by (rule openNode_open_edge) (simp add: openEdge_def)
    have kj: "edgs ?g' (nkey n j) = edgs g (nkey n j)" if "j < 8" "j \<noteq> i" for j
      using openNode_nbr_other [OF assms(1) that, of ?g1 n] oth [OF that] by (simp add: edgs_setEdg_nkey)
    show ?thesis
    proof (rule exI [where x = ?g'], intro conjI allI impI)
      show "removeCostVector_step n iv i g = Inr ?g'" by (rule r)
      show "sameEdgeSet g ?g'" by (rule sameEdgeSet_trans [OF s1 sameEdgeSet_openNode])
      show "edgs ?g' (nkey n i) = map_option (remEff (iv i)) (edgs g (nkey n i))"
        using ki e True by (simp add: remEff_def)
      show "edgs ?g' (nkey n j) = edgs g (nkey n j)" if "j < 8" "j \<noteq> i" for j
        using that by (rule kj)
    qed
  next
    case False
    let ?g' = "setEdg g (Port n i) (Port (nbr n i) ((i + 4) mod 8)) (setCost (subCost (rawCost e) (iv i)) e)"
    have r: "removeCostVector_step n iv i g = Inr ?g'"
      using False nb ge by (simp add: removeCostVector_step_def Let_def)
    show ?thesis
    proof (rule exI [where x = ?g'], intro conjI allI impI)
      show "removeCostVector_step n iv i g = Inr ?g'" by (rule r)
      show "sameEdgeSet g ?g'" by (rule sameEdgeSet_setEdg [OF ex])
      show "edgs ?g' (nkey n i) = map_option (remEff (iv i)) (edgs g (nkey n i))"
        using e False by (simp add: remEff_def edgs_setEdg_nkey)
      show "edgs ?g' (nkey n j) = edgs g (nkey n j)" if "j < 8" "j \<noteq> i" for j
        using oth [OF that] by (simp add: edgs_setEdg_nkey)
    qed
  qed
qed

lemma hasNEdges_linked: "linked g \<Longrightarrow> inGrid g n \<Longrightarrow> hasNEdges g n"
  unfolding hasNEdges_def using linkedD by blast

lemma hasNEdges_sameEdgeSet:
  assumes "sameEdgeSet g g'" "hasNEdges g n"
  shows "hasNEdges g' n"
proof -
  have "inGrid g' = inGrid g" by (intro ext inGrid_sameCells sameEdgeSet_cells assms(1))
  moreover have "\<And>K. edgs g' K = None \<longleftrightarrow> edgs g K = None" using assms(1) by (simp add: sameEdgeSet_def)
  ultimately show ?thesis using assms(2) by (simp add: hasNEdges_def)
qed

lemma removeCostVector_loop:
  assumes "distinct is" "set is \<subseteq> {0..<8}" "hasNEdges g n"
  shows "\<exists>g'. foldE (removeCostVector_step n iv) is g = Inr g' \<and> sameEdgeSet g g' \<and>
          (\<forall>j<8. inGrid g (nbr n j) \<longrightarrow>
             edgs g' (nkey n j) =
               (if j \<in> set is then map_option (remEff (iv j)) (edgs g (nkey n j)) else edgs g (nkey n j)))"
  using assms
proof (induction "is" arbitrary: g)
  case Nil
  show ?case by (simp add: sameEdgeSet_refl)
next
  case (Cons a "is")
  have a8: "a < 8" using Cons.prems(2) by simp
  have ha: "inGrid g (nbr n a) \<longrightarrow> edgs g (nkey n a) \<noteq> None"
    using Cons.prems(3) a8 by (simp add: hasNEdges_def)
  obtain ga where ga: "removeCostVector_step n iv a g = Inr ga" "sameEdgeSet g ga"
    "inGrid g (nbr n a) \<longrightarrow> edgs ga (nkey n a) = map_option (remEff (iv a)) (edgs g (nkey n a))"
    "\<forall>j<8. j \<noteq> a \<longrightarrow> edgs ga (nkey n j) = edgs g (nkey n j)"
    using removeCostVector_step_effect [OF a8 ha, of iv] by blast
  have ig: "inGrid ga = inGrid g" by (intro ext inGrid_sameCells sameEdgeSet_cells ga(2))
  obtain g' where g': "foldE (removeCostVector_step n iv) is ga = Inr g'" "sameEdgeSet ga g'"
    "\<forall>j<8. inGrid ga (nbr n j) \<longrightarrow>
       edgs g' (nkey n j) =
         (if j \<in> set is then map_option (remEff (iv j)) (edgs ga (nkey n j)) else edgs ga (nkey n j))"
    using Cons.IH [of ga] Cons.prems(1,2) hasNEdges_sameEdgeSet [OF ga(2) Cons.prems(3)] by auto
  show ?case
  proof (rule exI [where x = g'], intro conjI allI impI)
    show "foldE (removeCostVector_step n iv) (a # is) g = Inr g'" using ga(1) g'(1) by simp
    show "sameEdgeSet g g'" by (rule sameEdgeSet_trans [OF ga(2) g'(2)])
    fix j
    assume j: "j < 8" "inGrid g (nbr n j)"
    have e: "edgs g' (nkey n j) =
         (if j \<in> set is then map_option (remEff (iv j)) (edgs ga (nkey n j)) else edgs ga (nkey n j))"
      using g'(3) j by (simp add: ig)
    show "edgs g' (nkey n j) =
         (if j \<in> set (a # is) then map_option (remEff (iv j)) (edgs g (nkey n j)) else edgs g (nkey n j))"
    proof (cases "j = a")
      case True
      then have "j \<notin> set is" using Cons.prems(1) by simp
      then show ?thesis using e True ga(3) j(2) by simp
    next
      case False
      then have "edgs ga (nkey n j) = edgs g (nkey n j)" using ga(4) j(1) by simp
      then show ?thesis using e False by simp
    qed
  qed
qed

lemma addCostVector_loop:
  assumes "distinct is" "set is \<subseteq> {0..<8}" "hasNEdges g n"
  shows "\<exists>g'. foldE (addCostVector_step n c) is (g, iv) =
            Inr (g', \<lambda>j. if j \<in> set is \<and> inGrid g (nbr n j) then invVal (c j) (edgs g (nkey n j)) else iv j) \<and>
          sameEdgeSet g g' \<and>
          (\<forall>j<8. inGrid g (nbr n j) \<longrightarrow>
             edgs g' (nkey n j) =
               (if j \<in> set is then map_option (addEff (c j)) (edgs g (nkey n j)) else edgs g (nkey n j)))"
  using assms
proof (induction "is" arbitrary: g iv)
  case Nil
  show ?case by (simp add: sameEdgeSet_refl)
next
  case (Cons a "is")
  have a8: "a < 8" using Cons.prems(2) by simp
  have ha: "inGrid g (nbr n a) \<longrightarrow> edgs g (nkey n a) \<noteq> None"
    using Cons.prems(3) a8 by (simp add: hasNEdges_def)
  let ?iva = "iv(a := if inGrid g (nbr n a) then invVal (c a) (edgs g (nkey n a)) else iv a)"
  obtain ga where ga: "addCostVector_step n c a (g, iv) = Inr (ga, ?iva)" "sameEdgeSet g ga"
    "inGrid g (nbr n a) \<longrightarrow> edgs ga (nkey n a) = map_option (addEff (c a)) (edgs g (nkey n a))"
    "\<forall>j<8. j \<noteq> a \<longrightarrow> edgs ga (nkey n j) = edgs g (nkey n j)"
    using addCostVector_step_effect [OF a8 ha, of c iv] by blast
  have ig: "inGrid ga = inGrid g" by (intro ext inGrid_sameCells sameEdgeSet_cells ga(2))
  let ?ivr = "\<lambda>j. if j \<in> set is \<and> inGrid ga (nbr n j) then invVal (c j) (edgs ga (nkey n j)) else ?iva j"
  obtain g' where g': "foldE (addCostVector_step n c) is (ga, ?iva) = Inr (g', ?ivr)" "sameEdgeSet ga g'"
    "\<forall>j<8. inGrid ga (nbr n j) \<longrightarrow>
       edgs g' (nkey n j) =
         (if j \<in> set is then map_option (addEff (c j)) (edgs ga (nkey n j)) else edgs ga (nkey n j))"
  proof -
    have d: "distinct is" "set is \<subseteq> {0..<8}" using Cons.prems(1,2) by simp_all
    show ?thesis
      using Cons.IH [OF d hasNEdges_sameEdgeSet [OF ga(2) Cons.prems(3)], of ?iva] that by blast
  qed
  have ivr: "?ivr = (\<lambda>j. if j \<in> set (a # is) \<and> inGrid g (nbr n j) then invVal (c j) (edgs g (nkey n j)) else iv j)"
  proof (rule ext)
    fix j
    show "?ivr j = (if j \<in> set (a # is) \<and> inGrid g (nbr n j) then invVal (c j) (edgs g (nkey n j)) else iv j)"
    proof (cases "j \<in> set is")
      case True
      then have "j < 8" "j \<noteq> a" using Cons.prems(1,2) by auto
      then have "edgs ga (nkey n j) = edgs g (nkey n j)" using ga(4) by simp
      then show ?thesis using True \<open>j \<noteq> a\<close> by (simp add: ig)
    next
      case False
      then show ?thesis by (simp add: ig)
    qed
  qed
  show ?case
  proof (rule exI [where x = g'], intro conjI allI impI)
    show "foldE (addCostVector_step n c) (a # is) (g, iv) =
       Inr (g', \<lambda>j. if j \<in> set (a # is) \<and> inGrid g (nbr n j) then invVal (c j) (edgs g (nkey n j)) else iv j)"
      using ga(1) g'(1) unfolding ivr by simp
    show "sameEdgeSet g g'" by (rule sameEdgeSet_trans [OF ga(2) g'(2)])
    fix j
    assume j: "j < 8" "inGrid g (nbr n j)"
    have e: "edgs g' (nkey n j) =
         (if j \<in> set is then map_option (addEff (c j)) (edgs ga (nkey n j)) else edgs ga (nkey n j))"
      using g'(3) j by (simp add: ig)
    show "edgs g' (nkey n j) =
         (if j \<in> set (a # is) then map_option (addEff (c j)) (edgs g (nkey n j)) else edgs g (nkey n j))"
    proof (cases "j = a")
      case True
      then have "j \<notin> set is" using Cons.prems(1) by simp
      then show ?thesis using e True ga(3) j(2) by simp
    next
      case False
      then have "edgs ga (nkey n j) = edgs g (nkey n j)" using ga(4) j(1) by simp
      then show ?thesis using e False by simp
    qed
  qed
qed

section \<open>The spacing penalty for an edge that is not at the node\<close>

text \<open>
  When the comb node has at least one adjacent edge and \<open>e\<close> is not in its edge
  ordering, \<open>spacingPenalty\<close> logs one warning and returns the zero vector; the grid
  is the one it was given.
\<close>

lemma spacingPenalty_missing_edge:
  assumes "adjList u \<noteq> []" "\<not> has (edgeOrdering u) e"
  shows "spacingPenalty g n u e = Inr (g, [EdgeNotInNode e u], NodeCost0)"
  using assms by (simp add: spacingPenalty_def Let_def)

text \<open>
  C9 at a comb node without adjacent edges: no edge is a member of its (empty) edge
  ordering, and \<open>spacingPenalty\<close> divides by zero instead of warning and returning the
  zero vector.
\<close>

theorem spacingPenalty_isolated_node:
  "\<not> has (edgeOrdering \<lparr>adjList = [], edgeOrdering = []\<rparr>) e \<and>
   spacingPenalty g n \<lparr>adjList = [], edgeOrdering = []\<rparr> e = Inl DivByZero"
  by (simp add: spacingPenalty_def has_def)

section \<open>Placing the relatives of a line\<close>

lemma foldE_pure:
  assumes "\<And>x s. x \<in> set xs \<Longrightarrow> f x s = Inr (h x s)"
  shows "foldE f xs s = Inr (fold h xs s)"
  using assms by (induction xs arbitrary: s) simp_all

lemma place_Nil: "place e etgp [] hc = hc"
  by (simp add: place_def)

lemma place_place: "place e etgp qs (place e etgp ps hc) = place e etgp (ps @ qs) hc"
  by (simp add: place_def)

lemma placeRel_place: "placeRel linePos e etgp rel hc = place e etgp [linePos (etg etgp) rel] hc"
  by (simp add: placeRel_def place_def Let_def)

lemma fold_place:
  "fold (\<lambda>x. place e etgp (h x)) xs hc = place e etgp (concat (map h xs)) hc"
proof (induction xs arbitrary: hc)
  case Nil
  show ?case by (simp add: place_Nil)
next
  case (Cons x xs)
  show ?case by (simp add: Cons.IH place_place)
qed

lemma fold_placeRel:
  "fold (placeRel linePos e etgp) rels hc = place e etgp (map (linePos (etg etgp)) rels) hc"
proof -
  have "placeRel linePos e etgp = (\<lambda>r. place e etgp [linePos (etg etgp) r])"
    by (rule ext, rule ext, rule placeRel_place)
  moreover have "concat (map (\<lambda>r. [linePos (etg etgp) r]) rels) = map (linePos (etg etgp)) rels"
    by (induction rels) simp_all
  ultimately show ?thesis
    using fold_place [where h = "\<lambda>r. [linePos (etg etgp) r]" and xs = rels and hc = hc and e = e and etgp = etgp]
    by simp
qed

lemma lineStep_eq:
  "lineStep getVarVal linePos e etgp tp lo (hc, found) =
     (if getVarVal (getILPVarName e (line lo) tp) > 1 / 2
      then (if found then Inl AssertFailed
            else Inr (place e etgp (map (linePos (etg etgp)) (relatives lo)) hc, True))
      else Inr (hc, found))"
  by (simp add: lineStep_def Let_def fold_placeRel)

lemma lineLoop:
  "foldE (lineStep getVarVal linePos e etgp tp) los (hc, found) =
     (let ch = filter (\<lambda>lo. getVarVal (getILPVarName e (line lo) tp) > 1 / 2) los
      in if length ch + (if found then 1 else 0) \<le> 1
         then Inr (place e etgp (concat (map (\<lambda>lo. map (linePos (etg etgp)) (relatives lo)) ch)) hc,
                   found \<or> ch \<noteq> [])
         else Inl AssertFailed)"
proof (induction los arbitrary: hc found)
  case Nil
  show ?case by (simp add: place_Nil)
next
  case (Cons lo los)
  show ?case
    by (simp add: lineStep_eq Let_def Cons.IH place_place)
qed

lemma slotStep_one:
  assumes "length (chosen getVarVal e tp) = 1"
  shows "slotStep getVarVal linePos e etgp tp hc =
         Inr (place e etgp (concat (map (\<lambda>lo. map (linePos (etg etgp)) (relatives lo)) (chosen getVarVal e tp))) hc)"
proof -
  have ne: "chosen getVarVal e tp \<noteq> []" using assms by auto
  show ?thesis
    using assms ne unfolding slotStep_def lineLoop chosen_def Let_def by simp
qed

lemma slotStep_fails:
  assumes "length (chosen getVarVal e tp) \<noteq> 1"
  shows "slotStep getVarVal linePos e etgp tp hc = Inl AssertFailed"
proof (cases "chosen getVarVal e tp = []")
  case True
  then show ?thesis unfolding slotStep_def lineLoop chosen_def Let_def by simp
next
  case False
  then have "\<not> length (chosen getVarVal e tp) \<le> 1"
    using assms by (cases "chosen getVarVal e tp") auto
  then show ?thesis unfolding slotStep_def lineLoop chosen_def Let_def by simp
qed

lemma etgStep_ok:
  assumes "\<not> wasCut etgp" "\<forall>tp < getCardinality e. length (chosen getVarVal e tp) = 1"
  shows "etgStep getVarVal linePos e etgp hc = Inr (place e etgp (positionsOf getVarVal linePos e etgp) hc)"
proof -
  let ?h = "\<lambda>tp. concat (map (\<lambda>lo. map (linePos (etg etgp)) (relatives lo)) (chosen getVarVal e tp))"
  have "foldE (slotStep getVarVal linePos e etgp) [0..<getCardinality e] hc =
        Inr (fold (\<lambda>tp. place e etgp (?h tp)) [0..<getCardinality e] hc)"
    by (rule foldE_pure) (use assms(2) in \<open>simp add: slotStep_one\<close>)
  then show ?thesis
    using assms(1) by (simp add: etgStep_def fold_place positionsOf_def)
qed

lemma etgStep_cut: "wasCut etgp \<Longrightarrow> etgStep getVarVal linePos e etgp hc = Inr hc"
  by (simp add: etgStep_def)

lemma etgLoop_parts:
  "foldE (etgStep getVarVal linePos e) ps hc =
   foldE (\<lambda>ep. etgStep getVarVal linePos (fst ep) (snd ep)) (map (Pair e) (filter (\<lambda>p. \<not> wasCut p) ps)) hc"
proof (induction ps arbitrary: hc)
  case Nil
  show ?case by simp
next
  case (Cons p ps)
  show ?case
  proof (cases "wasCut p")
    case True
    then show ?thesis by (simp add: etgStep_cut Cons.IH)
  next
    case False
    then show ?thesis by (simp add: Cons.IH split: sum.split)
  qed
qed

lemma edgeLoop_parts:
  "foldE (edgeStep getVarVal linePos n) es hc =
   foldE (\<lambda>ep. etgStep getVarVal linePos (fst ep) (snd ep))
     (concat (map (\<lambda>e. map (Pair e) (filter (\<lambda>p. \<not> wasCut p) (etgs e)))
                  (filter (\<lambda>e. getFrom e = nodeAddr n) es))) hc"
proof (induction es arbitrary: hc)
  case Nil
  show ?case by simp
next
  case (Cons e es)
  show ?case
  proof (cases "getFrom e = nodeAddr n")
    case True
    then have "edgeStep getVarVal linePos n e hc =
               foldE (\<lambda>ep. etgStep getVarVal linePos (fst ep) (snd ep))
                 (map (Pair e) (filter (\<lambda>p. \<not> wasCut p) (etgs e))) hc" for hc
      by (simp add: edgeStep_def etgLoop_parts)
    then show ?thesis using True by (simp add: Cons.IH foldE_append split: sum.split)
  next
    case False
    then have "edgeStep getVarVal linePos n e hc = Inr hc" for hc
      by (simp add: edgeStep_def)
    then show ?thesis using False by (simp add: Cons.IH)
  qed
qed

lemma foldE_concat: "foldE (\<lambda>x. foldE f (h x)) xs s = foldE f (concat (map h xs)) s"
  by (induction xs arbitrary: s) (simp_all add: foldE_append split: sum.split)

lemma getConfigurationFromSolution_parts:
  "getConfigurationFromSolution getVarVal linePos hc g =
   foldE (\<lambda>ep. etgStep getVarVal linePos (fst ep) (snd ep)) (partsOf g) hc"
proof -
  have "(\<lambda>n. foldE (edgeStep getVarVal linePos n) (getAdjList n)) =
        (\<lambda>n. foldE (\<lambda>ep. etgStep getVarVal linePos (fst ep) (snd ep))
                (concat (map (\<lambda>e. map (Pair e) (filter (\<lambda>p. \<not> wasCut p) (etgs e)))
                             (filter (\<lambda>e. getFrom e = nodeAddr n) (getAdjList n)))))"
    by (rule ext, rule ext, rule edgeLoop_parts)
  then show ?thesis
    unfolding getConfigurationFromSolution_def partsOf_def by (simp only: foldE_concat)
qed

lemma getConfigurationFromSolution_places:
  assumes "oneLinePerSlot getVarVal g"
  shows "getConfigurationFromSolution getVarVal linePos hc g =
         Inr (fold (\<lambda>ep. place (fst ep) (snd ep) (positionsOf getVarVal linePos (fst ep) (snd ep)))
                   (partsOf g) hc)"
  unfolding getConfigurationFromSolution_parts
proof (rule foldE_pure)
  fix ep s
  assume m: "ep \<in> set (partsOf g)"
  then have nc: "\<not> wasCut (snd ep)"
    by (auto simp: partsOf_def)
  have "\<forall>tp < getCardinality (fst ep). length (chosen getVarVal (fst ep) tp) = 1"
    using assms m by (auto simp: oneLinePerSlot_def list_all_iff)
  with nc show "etgStep getVarVal linePos (fst ep) (snd ep) s =
                Inr (place (fst ep) (snd ep) (positionsOf getVarVal linePos (fst ep) (snd ep)) s)"
    by (rule etgStep_ok)
qed

lemma demoOptGraph_parts:
  "partsOf demoOptGraph =
     [(demoSeg, \<lparr>etg = 0, dir = True, order = 0, wasCut = False\<rparr>),
      (demoSeg, \<lparr>etg = 1, dir = False, order = 0, wasCut = False\<rparr>)]"
  by (simp add: partsOf_def demoOptGraph_def demoSeg_def)

lemma demoOptGraph_feasible: "oneLinePerSlot (\<lambda>v. 1) demoOptGraph"
  by (simp add: oneLinePerSlot_def demoOptGraph_parts chosen_def) (simp add: demoSeg_def)

lemma demoSeg_positions:
  "positionsOf (\<lambda>v. 1) (\<lambda>t r. r) demoSeg etgp = [0, 1]"
  by (simp add: positionsOf_def chosen_def demoSeg_def)

lemma demoSeg_front: "dir (hd (etgs demoSeg)) = True"
  by (simp add: demoSeg_def)

section \<open>Extracting the order configuration from the solution\<close>

text \<open>
  C4 as stated fails: the segment \<open>demoSeg\<close> has one line with the relatives at the
  original positions 0 and 1, and the solution puts it at the only slot.  For the
  first part the direction agrees with the reference direction (the exclusive or is
  false), and the positions are inserted at the front, giving \<open>[1, 0]\<close>; for the
  second part the direction disagrees (the exclusive or is true), and they are
  appended at the back, giving \<open>[0, 1]\<close>.
\<close>

theorem getConfigurationFromSolution_counterexample:
  "(dir (etgs demoSeg ! 0) \<noteq> dir (hd (etgs demoSeg))) = False \<and>
   (dir (etgs demoSeg ! 1) \<noteq> dir (hd (etgs demoSeg))) = True \<and>
   map_sum id (\<lambda>hc. (hc 0 0, hc 1 0))
     (getConfigurationFromSolution (\<lambda>v. 1) (\<lambda>t r. r) (\<lambda>t k. []) demoOptGraph) =
   Inr ([1, 0], [0, 1])"
proof -
  have "getConfigurationFromSolution (\<lambda>v. 1) (\<lambda>t r. r) (\<lambda>t k. []) demoOptGraph =
        Inr (fold (\<lambda>ep. place (fst ep) (snd ep) (positionsOf (\<lambda>v. 1) (\<lambda>t r. r) (fst ep) (snd ep)))
                  (partsOf demoOptGraph) (\<lambda>t k. []))"
    using demoOptGraph_feasible by (rule getConfigurationFromSolution_places)
  then show ?thesis
    by (simp add: demoOptGraph_parts demoSeg_positions place_def demoSeg_front) (simp add: demoSeg_def)
qed

text \<open>
  C4, with the two cases the way the code has them: when the solution puts exactly
  one line at every slot of every visited part, the extraction succeeds, and for
  each part the original positions of the relatives, taken slot by slot, are
  inserted one by one at the front of the order list at \<open>(etg, order)\<close> if the part's
  direction agrees with the reference direction of the segment, and appended at the
  back if it disagrees.
\<close>

theorem getConfigurationFromSolution_by_direction:
  assumes "oneLinePerSlot getVarVal g"
  shows "getConfigurationFromSolution getVarVal linePos hc g =
         Inr (fold (\<lambda>ep. place (fst ep) (snd ep) (positionsOf getVarVal linePos (fst ep) (snd ep)))
                   (partsOf g) hc)"
  using assms by (rule getConfigurationFromSolution_places)

theorem getConfigurationFromSolution_by_direction_witness:
  "oneLinePerSlot (\<lambda>v. 1) demoOptGraph \<and>
   getConfigurationFromSolution (\<lambda>v. 1) (\<lambda>t r. r) (\<lambda>t k. []) demoOptGraph =
   Inr (fold (\<lambda>ep. place (fst ep) (snd ep) (positionsOf (\<lambda>v. 1) (\<lambda>t r. r) (fst ep) (snd ep)))
             (partsOf demoOptGraph) (\<lambda>t k. []))"
  using getConfigurationFromSolution_by_direction [of "\<lambda>v. 1" demoOptGraph "\<lambda>t r. r" "\<lambda>t k. []"]
    demoOptGraph_feasible
  by simp

section \<open>The rows and columns of the ordering program\<close>

lemma addRow_sel:
  "fst (addRow name b t lp) = numRows lp"
  "numRows (snd (addRow name b t lp)) = numRows lp + 1"
  "rowAt (snd (addRow name b t lp)) =
     (rowAt lp)(numRows lp := \<lparr>rowName = name, bnd = b, rowTy = t, coefs = []\<rparr>)"
  "numCols (snd (addRow name b t lp)) = numCols lp"
  "colAt (snd (addRow name b t lp)) = colAt lp"
  by (simp_all add: addRow_def)

lemma addCol_sel:
  "fst (addCol name t c lp) = numCols lp"
  "numCols (snd (addCol name t c lp)) = numCols lp + 1"
  "colAt (snd (addCol name t c lp)) =
     (colAt lp)(numCols lp := \<lparr>colName = name, colTy = t, objCoef = c\<rparr>)"
  "numRows (snd (addCol name t c lp)) = numRows lp"
  "rowAt (snd (addCol name t c lp)) = rowAt lp"
  by (simp_all add: addCol_def)

lemma addColToRow_sel:
  "numRows (addColToRow r c a lp) = numRows lp"
  "numCols (addColToRow r c a lp) = numCols lp"
  "colAt (addColToRow r c a lp) = colAt lp"
  "rowAt (addColToRow r c a lp) =
     (rowAt lp)(r := (rowAt lp r)\<lparr>coefs := coefs (rowAt lp r) @ [(c, a)]\<rparr>)"
  by (simp_all add: addColToRow_def)

lemma keepsBelow_refl: "keepsBelow (numRows lp) (numCols lp) lp lp"
  by (simp add: keepsBelow_def)

lemma keepsBelow_addRow:
  "keepsBelow N C lp0 lp \<Longrightarrow> keepsBelow N C lp0 (snd (addRow name b t lp))"
  by (simp add: keepsBelow_def addRow_sel)

lemma keepsBelow_addCol:
  "keepsBelow N C lp0 lp \<Longrightarrow> keepsBelow N C lp0 (snd (addCol name t c lp))"
  by (simp add: keepsBelow_def addCol_sel)

lemma keepsBelow_addColToRow:
  "keepsBelow N C lp0 lp \<Longrightarrow> N \<le> r \<Longrightarrow> keepsBelow N C lp0 (addColToRow r c a lp)"
  by (simp add: keepsBelow_def addColToRow_sel)

lemma keepsBelow_rows: "keepsBelow N C lp0 lp \<Longrightarrow> N \<le> numRows lp"
  by (simp add: keepsBelow_def)

lemma foldE_preserve:
  assumes "\<And>x s s'. P s \<Longrightarrow> f x s = Inr s' \<Longrightarrow> P s'"
  shows "P s \<Longrightarrow> foldE f xs s = Inr s' \<Longrightarrow> P s'"
proof (induction xs arbitrary: s)
  case Nil
  then show ?case by simp
next
  case (Cons x xs)
  from Cons.prems(2) obtain s1 where s1: "f x s = Inr s1" "foldE f xs s1 = Inr s'"
    by (auto split: sum.splits)
  from assms [OF Cons.prems(1) s1(1)] have "P s1" .
  then show ?case using s1(2) by (rule Cons.IH)
qed

lemma sameSegComb_keeps:
  assumes "keepsBelow N C lp0 lp" "sameSegComb env node a b lpair dv pc lp = Inr lp'"
  shows "keepsBelow N C lp0 lp'"
proof (cases "crossesSame env node a b pc")
  case False
  then show ?thesis using assms by (simp add: sameSegComb_def)
next
  case True
  have r: "N \<le> fst (addRow nm 3 UP lp)" for nm
    using assms(1) by (simp add: addRow_sel keepsBelow_def)
  show ?thesis
    using assms(2) True
    by (auto simp: sameSegComb_def Let_def split: option.splits
        intro!: keepsBelow_addColToRow keepsBelow_addRow assms(1) r)
qed

lemma sameSegPartner_keeps:
  assumes "keepsBelow N C lp0 lp" "sameSegPartner env node pr a lpair b lp = Inr lp'"
  shows "keepsBelow N C lp0 lp'"
proof (cases "edgeAddr b \<in> set pr")
  case True
  then show ?thesis using assms by (simp add: sameSegPartner_def)
next
  case False
  let ?cc = "addCol (sameSegDecName env node a b lpair) BIN
               (decCoef (getCrossingPenaltySameSeg env node) lpair) lp"
  have k: "keepsBelow N C lp0 (snd ?cc)" using assms(1) by (rule keepsBelow_addCol)
  have f: "foldE (sameSegComb env node a b lpair (fst ?cc)) (getPositionCombinations2 a b) (snd ?cc) = Inr lp'"
    using assms(2) False by (simp add: sameSegPartner_def Let_def)
  show ?thesis
    by (rule foldE_preserve [where P = "keepsBelow N C lp0", OF _ k f]) (rule sameSegComb_keeps)
qed

lemma sameSegSegment_keeps:
  assumes "keepsBelow N C lp0 (snd s)" "sameSegSegment env node a s = Inr s'"
  shows "keepsBelow N C lp0 (snd s')"
proof -
  let ?pr = "edgeAddr a # fst s"
  obtain lp' where f: "foldE (\<lambda>lpair. foldE (sameSegPartner env node ?pr a lpair)
                                   (getEdgePartners env node a lpair))
                         (getLinePairs env a) (snd s) = Inr lp'" and s': "s' = (?pr, lp')"
    using assms(2) by (auto simp: sameSegSegment_def Let_def split: sum.splits)
  have "keepsBelow N C lp0 lp'"
  proof (rule foldE_preserve [where P = "keepsBelow N C lp0", OF _ assms(1) f])
    fix lpair s1 s2
    assume "keepsBelow N C lp0 s1"
      and "foldE (sameSegPartner env node ?pr a lpair) (getEdgePartners env node a lpair) s1 = Inr s2"
    then show "keepsBelow N C lp0 s2"
      by (rule foldE_preserve [where P = "keepsBelow N C lp0", rotated]) (rule sameSegPartner_keeps)
  qed
  then show ?thesis by (simp add: s')
qed

lemma writeSameSegConstraints_keeps:
  assumes "keepsBelow N C lp0 lp" "writeSameSegConstraints env g lp = Inr lp'"
  shows "keepsBelow N C lp0 lp'"
proof (rule foldE_preserve [where P = "keepsBelow N C lp0", OF _ assms(1) assms(2) [unfolded writeSameSegConstraints_def]])
  fix node s1 s2
  assume k: "keepsBelow N C lp0 s1"
    and "(case foldE (sameSegSegment env node) (getAdjList node) ([], s1) of
            Inl err \<Rightarrow> Inl err | Inr s \<Rightarrow> Inr (snd s)) = Inr s2"
  then obtain s where f: "foldE (sameSegSegment env node) (getAdjList node) ([], s1) = Inr s" and s: "s2 = snd s"
    by (auto split: sum.splits)
  have "keepsBelow N C lp0 (snd s)"
    by (rule foldE_preserve [where P = "\<lambda>s. keepsBelow N C lp0 (snd s)", OF _ _ f])
       (erule sameSegSegment_keeps, assumption, simp add: k)
  then show "keepsBelow N C lp0 s2" by (simp add: s)
qed

lemma diffSegComb_keeps:
  assumes "keepsBelow N C lp0 lp" "diffSegComb env node a bs lpair dv pc lp = Inr lp'"
  shows "keepsBelow N C lp0 lp'"
proof (cases "crossesDiff env node a bs pc")
  case False
  then show ?thesis using assms by (simp add: diffSegComb_def)
next
  case True
  have r: "N \<le> fst (addRow nm 1 UP lp)" for nm
    using assms(1) by (simp add: addRow_sel keepsBelow_def)
  show ?thesis
    using assms(2) True
    by (auto simp: diffSegComb_def Let_def split: option.splits
        intro!: keepsBelow_addColToRow keepsBelow_addRow assms(1) r)
qed

lemma diffSegPartner_keeps:
  assumes "keepsBelow N C lp0 lp" "diffSegPartner env node a lpair bs lp = Inr lp'"
  shows "keepsBelow N C lp0 lp'"
proof -
  let ?cc = "addCol (diffSegDecName env node a bs lpair) BIN
               (decCoef (getCrossingPenaltyDiffSeg env node) lpair) lp"
  have k: "keepsBelow N C lp0 (snd ?cc)" using assms(1) by (rule keepsBelow_addCol)
  have f: "foldE (diffSegComb env node a bs lpair (fst ?cc)) (getPositionCombinations1 a) (snd ?cc) = Inr lp'"
    using assms(2) by (simp add: diffSegPartner_def Let_def)
  show ?thesis
    by (rule foldE_preserve [where P = "keepsBelow N C lp0", OF _ k f]) (rule diffSegComb_keeps)
qed

lemma diffSegSegment_keeps:
  assumes "keepsBelow N C lp0 lp" "diffSegSegment env node a lp = Inr lp'"
  shows "keepsBelow N C lp0 lp'"
proof (rule foldE_preserve [where P = "keepsBelow N C lp0", OF _ assms(1) assms(2) [unfolded diffSegSegment_def]])
  fix lpair s1 s2
  assume "keepsBelow N C lp0 s1"
    and "foldE (diffSegPartner env node a lpair) (getEdgePartnerPairs env node a lpair) s1 = Inr s2"
  then show "keepsBelow N C lp0 s2"
    by (rule foldE_preserve [where P = "keepsBelow N C lp0", rotated]) (rule diffSegPartner_keeps)
qed

lemma writeDiffSegConstraints_keeps:
  assumes "keepsBelow N C lp0 lp" "writeDiffSegConstraints env g lp = Inr lp'"
  shows "keepsBelow N C lp0 lp'"
proof (rule foldE_preserve [where P = "keepsBelow N C lp0", OF _ assms(1) assms(2) [unfolded writeDiffSegConstraints_def]])
  fix node s1 s2
  assume "keepsBelow N C lp0 s1"
    and "foldE (diffSegSegment env node) (getAdjList node) s1 = Inr s2"
  then show "keepsBelow N C lp0 s2"
    by (rule foldE_preserve [where P = "keepsBelow N C lp0", rotated]) (rule diffSegSegment_keeps)
qed

lemma colStep_sel:
  "numRows (colStep e l row rowA p lp) = numRows lp"
  "numCols (colStep e l row rowA p lp) = numCols lp + 1"
  "colAt (colStep e l row rowA p lp) =
     (colAt lp)(numCols lp := \<lparr>colName = getILPVarName e (line l) p, colTy = BIN, objCoef = 0\<rparr>)"
  "row \<noteq> rowA + p \<Longrightarrow> rowAt (colStep e l row rowA p lp) =
     (rowAt lp)(row := (rowAt lp row)\<lparr>coefs := coefs (rowAt lp row) @ [(numCols lp, 1)]\<rparr>,
                rowA + p := (rowAt lp (rowA + p))\<lparr>coefs := coefs (rowAt lp (rowA + p)) @ [(numCols lp, 1)]\<rparr>)"
  by (simp_all add: colStep_def Let_def addCol_sel addColToRow_sel)

lemma colLoop:
  assumes "row < rowA \<or> rowA + q \<le> row"
  shows "numRows (fold (colStep e l row rowA) [0..<q] lp) = numRows lp \<and>
         numCols (fold (colStep e l row rowA) [0..<q] lp) = numCols lp + q \<and>
         (\<forall>c. colAt (fold (colStep e l row rowA) [0..<q] lp) c =
               (if numCols lp \<le> c \<and> c < numCols lp + q
                then \<lparr>colName = getILPVarName e (line l) (c - numCols lp), colTy = BIN, objCoef = 0\<rparr>
                else colAt lp c)) \<and>
         (\<forall>r. rowAt (fold (colStep e l row rowA) [0..<q] lp) r =
               (if r = row
                then (rowAt lp r)\<lparr>coefs := coefs (rowAt lp r) @ map (\<lambda>p. (numCols lp + p, 1)) [0..<q]\<rparr>
                else if rowA \<le> r \<and> r < rowA + q
                then (rowAt lp r)\<lparr>coefs := coefs (rowAt lp r) @ [(numCols lp + (r - rowA), 1)]\<rparr>
                else rowAt lp r))"
  using assms
proof (induction q)
  case 0
  show ?case by auto
next
  case (Suc q)
  let ?s = "fold (colStep e l row rowA) [0..<q] lp"
  have ne: "row \<noteq> rowA + q" using Suc.prems by auto
  have ih: "numRows ?s = numRows lp" "numCols ?s = numCols lp + q"
    "\<And>c. colAt ?s c =
       (if numCols lp \<le> c \<and> c < numCols lp + q
        then \<lparr>colName = getILPVarName e (line l) (c - numCols lp), colTy = BIN, objCoef = 0\<rparr>
        else colAt lp c)"
    "\<And>r. rowAt ?s r =
       (if r = row
        then (rowAt lp r)\<lparr>coefs := coefs (rowAt lp r) @ map (\<lambda>p. (numCols lp + p, 1)) [0..<q]\<rparr>
        else if rowA \<le> r \<and> r < rowA + q
        then (rowAt lp r)\<lparr>coefs := coefs (rowAt lp r) @ [(numCols lp + (r - rowA), 1)]\<rparr>
        else rowAt lp r)"
    using Suc.IH Suc.prems by auto
  have f: "fold (colStep e l row rowA) [0..<Suc q] lp = colStep e l row rowA q ?s"
    by simp
  have c1: "numRows (colStep e l row rowA q ?s) = numRows lp"
    by (simp add: colStep_sel ih)
  have c2: "numCols (colStep e l row rowA q ?s) = numCols lp + Suc q"
    by (simp add: colStep_sel ih)
  have c3: "colAt (colStep e l row rowA q ?s) c =
       (if numCols lp \<le> c \<and> c < numCols lp + Suc q
        then \<lparr>colName = getILPVarName e (line l) (c - numCols lp), colTy = BIN, objCoef = 0\<rparr>
        else colAt lp c)" for c
    by (auto simp: colStep_sel ih less_Suc_eq)
  have c4: "rowAt (colStep e l row rowA q ?s) r =
       (if r = row
        then (rowAt lp r)\<lparr>coefs := coefs (rowAt lp r) @ map (\<lambda>p. (numCols lp + p, 1)) [0..<Suc q]\<rparr>
        else if rowA \<le> r \<and> r < rowA + Suc q
        then (rowAt lp r)\<lparr>coefs := coefs (rowAt lp r) @ [(numCols lp + (r - rowA), 1)]\<rparr>
        else rowAt lp r)" for r
    using ne Suc.prems by (auto simp: colStep_sel(4) [OF ne] ih less_Suc_eq)
  show ?case
    unfolding f using c1 c2 c3 c4 by blast
qed

lemma lineRows_effect:
  assumes "rowA + getCardinality e \<le> numRows lp"
  shows "numRows (lineRows e rowA l lp) = numRows lp + 1"
    and "numCols (lineRows e rowA l lp) = numCols lp + getCardinality e"
    and "colAt (lineRows e rowA l lp) c =
           (if numCols lp \<le> c \<and> c < numCols lp + getCardinality e
            then \<lparr>colName = getILPVarName e (line l) (c - numCols lp), colTy = BIN, objCoef = 0\<rparr>
            else colAt lp c)"
    and "rowAt (lineRows e rowA l lp) r =
           (if r = numRows lp
            then \<lparr>rowName = lineRowName e (line l), bnd = 1, rowTy = FIX,
                  coefs = map (\<lambda>p. (numCols lp + p, 1)) [0..<getCardinality e]\<rparr>
            else if rowA \<le> r \<and> r < rowA + getCardinality e
            then (rowAt lp r)\<lparr>coefs := coefs (rowAt lp r) @ [(numCols lp + (r - rowA), 1)]\<rparr>
            else rowAt lp r)"
proof -
  let ?rr = "addRow (lineRowName e (line l)) 1 FIX lp"
  have d: "lineRows e rowA l lp = fold (colStep e l (numRows lp) rowA) [0..<getCardinality e] (snd ?rr)"
    by (simp add: lineRows_def Let_def addRow_sel)
  have a: "numRows lp < rowA \<or> rowA + getCardinality e \<le> numRows lp"
    using assms by simp
  note cl = colLoop [OF a, where e = e and l = l and lp = "snd ?rr"]
  show "numRows (lineRows e rowA l lp) = numRows lp + 1"
    unfolding d using cl by (simp add: addRow_sel)
  show "numCols (lineRows e rowA l lp) = numCols lp + getCardinality e"
    unfolding d using cl by (simp add: addRow_sel)
  show "colAt (lineRows e rowA l lp) c =
           (if numCols lp \<le> c \<and> c < numCols lp + getCardinality e
            then \<lparr>colName = getILPVarName e (line l) (c - numCols lp), colTy = BIN, objCoef = 0\<rparr>
            else colAt lp c)"
    unfolding d using cl by (simp add: addRow_sel)
  have "rowAt (fold (colStep e l (numRows lp) rowA) [0..<getCardinality e] (snd ?rr)) r =
          (if r = numRows lp
           then (rowAt (snd ?rr) r)\<lparr>coefs := coefs (rowAt (snd ?rr) r) @
                   map (\<lambda>p. (numCols (snd ?rr) + p, 1)) [0..<getCardinality e]\<rparr>
           else if rowA \<le> r \<and> r < rowA + getCardinality e
           then (rowAt (snd ?rr) r)\<lparr>coefs := coefs (rowAt (snd ?rr) r) @ [(numCols (snd ?rr) + (r - rowA), 1)]\<rparr>
           else rowAt (snd ?rr) r)"
    using cl by blast
  then show "rowAt (lineRows e rowA l lp) r =
           (if r = numRows lp
            then \<lparr>rowName = lineRowName e (line l), bnd = 1, rowTy = FIX,
                  coefs = map (\<lambda>p. (numCols lp + p, 1)) [0..<getCardinality e]\<rparr>
            else if rowA \<le> r \<and> r < rowA + getCardinality e
            then (rowAt lp r)\<lparr>coefs := coefs (rowAt lp r) @ [(numCols lp + (r - rowA), 1)]\<rparr>
            else rowAt lp r)"
    unfolding d by (simp add: addRow_sel)
qed

lemma idx_lt: "j < L \<Longrightarrow> p < K \<Longrightarrow> j * K + p < L * (K::nat)"
proof -
  assume j: "j < L" and p: "p < K"
  have "j * K + p < Suc j * K" using p by simp
  also have "\<dots> \<le> L * K" using j by (intro mult_le_mono1) simp
  finally show ?thesis .
qed

lemma linesLoop:
  assumes "numRows lp = rowA + getCardinality e"
  shows "numRows (fold (lineRows e rowA) ls lp) = rowA + getCardinality e + length ls \<and>
         numCols (fold (lineRows e rowA) ls lp) = numCols lp + length ls * getCardinality e \<and>
         (\<forall>c<numCols lp. colAt (fold (lineRows e rowA) ls lp) c = colAt lp c) \<and>
         (\<forall>r<rowA. rowAt (fold (lineRows e rowA) ls lp) r = rowAt lp r) \<and>
         (\<forall>p<getCardinality e. rowAt (fold (lineRows e rowA) ls lp) (rowA + p) =
            (rowAt lp (rowA + p))\<lparr>coefs := coefs (rowAt lp (rowA + p)) @
               map (\<lambda>j. (numCols lp + j * getCardinality e + p, 1)) [0..<length ls]\<rparr>) \<and>
         (\<forall>j<length ls. rowAt (fold (lineRows e rowA) ls lp) (rowA + getCardinality e + j) =
            \<lparr>rowName = lineRowName e (line (ls ! j)), bnd = 1, rowTy = FIX,
             coefs = map (\<lambda>p. (numCols lp + j * getCardinality e + p, 1)) [0..<getCardinality e]\<rparr>) \<and>
         (\<forall>j<length ls. \<forall>p<getCardinality e.
            colAt (fold (lineRows e rowA) ls lp) (numCols lp + j * getCardinality e + p) =
            \<lparr>colName = getILPVarName e (line (ls ! j)) p, colTy = BIN, objCoef = 0\<rparr>)"
proof (induction ls rule: rev_induct)
  case Nil
  show ?case using assms by simp
next
  case (snoc l ls)
  let ?K = "getCardinality e"
  let ?L = "length ls"
  let ?C = "numCols lp"
  let ?s = "fold (lineRows e rowA) ls lp"
  have ih1: "numRows ?s = rowA + ?K + ?L" and ih2: "numCols ?s = ?C + ?L * ?K"
    and ih3: "\<And>c. c < ?C \<Longrightarrow> colAt ?s c = colAt lp c"
    and ih4: "\<And>r. r < rowA \<Longrightarrow> rowAt ?s r = rowAt lp r"
    and ih5: "\<And>p. p < ?K \<Longrightarrow> rowAt ?s (rowA + p) =
            (rowAt lp (rowA + p))\<lparr>coefs := coefs (rowAt lp (rowA + p)) @
               map (\<lambda>j. (?C + j * ?K + p, 1)) [0..<?L]\<rparr>"
    and ih6: "\<And>j. j < ?L \<Longrightarrow> rowAt ?s (rowA + ?K + j) =
            \<lparr>rowName = lineRowName e (line (ls ! j)), bnd = 1, rowTy = FIX,
             coefs = map (\<lambda>p. (?C + j * ?K + p, 1)) [0..<?K]\<rparr>"
    and ih7: "\<And>j p. j < ?L \<Longrightarrow> p < ?K \<Longrightarrow> colAt ?s (?C + j * ?K + p) =
            \<lparr>colName = getILPVarName e (line (ls ! j)) p, colTy = BIN, objCoef = 0\<rparr>"
    using snoc.IH by blast+
  have le: "rowA + ?K \<le> numRows ?s" by (simp add: ih1)
  note eff = lineRows_effect [OF le, where l = l]
  have f: "fold (lineRows e rowA) (ls @ [l]) lp = lineRows e rowA l ?s" by simp
  have g1: "numRows (lineRows e rowA l ?s) = rowA + ?K + length (ls @ [l])"
    by (simp add: eff(1) ih1)
  have g2: "numCols (lineRows e rowA l ?s) = ?C + length (ls @ [l]) * ?K"
    by (simp add: eff(2) ih2)
  have g3: "colAt (lineRows e rowA l ?s) c = colAt lp c" if "c < ?C" for c
    using that by (simp add: eff(3) ih2 ih3)
  have g4: "rowAt (lineRows e rowA l ?s) r = rowAt lp r" if "r < rowA" for r
    using that by (simp add: eff(4) ih1 ih4)
  have g5: "rowAt (lineRows e rowA l ?s) (rowA + p) =
            (rowAt lp (rowA + p))\<lparr>coefs := coefs (rowAt lp (rowA + p)) @
               map (\<lambda>j. (?C + j * ?K + p, 1)) [0..<length (ls @ [l])]\<rparr>" if "p < ?K" for p
    using that by (simp add: eff(4) ih1 ih2 ih5)
  have g6: "rowAt (lineRows e rowA l ?s) (rowA + ?K + j) =
            \<lparr>rowName = lineRowName e (line ((ls @ [l]) ! j)), bnd = 1, rowTy = FIX,
             coefs = map (\<lambda>p. (?C + j * ?K + p, 1)) [0..<?K]\<rparr>" if "j < length (ls @ [l])" for j
  proof (cases "j < ?L")
    case True
    then show ?thesis by (simp add: eff(4) ih1 ih6 nth_append)
  next
    case False
    then have "j = ?L" using that by simp
    then show ?thesis by (simp add: eff(4) ih1 ih2 add.assoc)
  qed
  have g7: "colAt (lineRows e rowA l ?s) (?C + j * ?K + p) =
            \<lparr>colName = getILPVarName e (line ((ls @ [l]) ! j)) p, colTy = BIN, objCoef = 0\<rparr>"
    if "j < length (ls @ [l])" "p < ?K" for j p
  proof (cases "j < ?L")
    case True
    then have "j * ?K + p < ?L * ?K" using that(2) by (rule idx_lt)
    then show ?thesis using True that(2) by (simp add: eff(3) ih2 ih7 nth_append)
  next
    case False
    then have "j = ?L" using that by simp
    then show ?thesis using that(2) by (simp add: eff(3) ih2)
  qed
  show ?case
    unfolding f using g1 g2 g3 g4 g5 g6 g7 by blast
qed

lemma slotLoop:
  "numRows (fold (\<lambda>p lp. snd (addRow (slotRowName e p) 1 FIX lp)) [0..<q] lp) = numRows lp + q \<and>
   numCols (fold (\<lambda>p lp. snd (addRow (slotRowName e p) 1 FIX lp)) [0..<q] lp) = numCols lp \<and>
   colAt (fold (\<lambda>p lp. snd (addRow (slotRowName e p) 1 FIX lp)) [0..<q] lp) = colAt lp \<and>
   (\<forall>r. rowAt (fold (\<lambda>p lp. snd (addRow (slotRowName e p) 1 FIX lp)) [0..<q] lp) r =
         (if numRows lp \<le> r \<and> r < numRows lp + q
          then \<lparr>rowName = slotRowName e (r - numRows lp), bnd = 1, rowTy = FIX, coefs = []\<rparr>
          else rowAt lp r))"
proof (induction q)
  case 0
  show ?case by auto
next
  case (Suc q)
  let ?s = "fold (\<lambda>p lp. snd (addRow (slotRowName e p) 1 FIX lp)) [0..<q] lp"
  have ih: "numRows ?s = numRows lp + q" "numCols ?s = numCols lp" "colAt ?s = colAt lp"
    "\<And>r. rowAt ?s r =
         (if numRows lp \<le> r \<and> r < numRows lp + q
          then \<lparr>rowName = slotRowName e (r - numRows lp), bnd = 1, rowTy = FIX, coefs = []\<rparr>
          else rowAt lp r)"
    using Suc.IH by blast+
  have f: "fold (\<lambda>p lp. snd (addRow (slotRowName e p) 1 FIX lp)) [0..<Suc q] lp =
           snd (addRow (slotRowName e q) 1 FIX ?s)"
    by simp
  have "rowAt (snd (addRow (slotRowName e q) 1 FIX ?s)) r =
         (if numRows lp \<le> r \<and> r < numRows lp + Suc q
          then \<lparr>rowName = slotRowName e (r - numRows lp), bnd = 1, rowTy = FIX, coefs = []\<rparr>
          else rowAt lp r)" for r
    by (auto simp: addRow_sel ih less_Suc_eq)
  then show ?case
    unfolding f by (simp add: addRow_sel ih)
qed

lemma segRows_effect:
  "numRows (segRows e lp) = numRows lp + getCardinality e + length (getLines e)"
  "numCols (segRows e lp) = numCols lp + length (getLines e) * getCardinality e"
  "keepsBelow (numRows lp) (numCols lp) lp (segRows e lp)"
  "segWritten e (numRows lp) (numCols lp) (segRows e lp)"
proof -
  let ?K = "getCardinality e"
  let ?s = "fold (\<lambda>p lp. snd (addRow (slotRowName e p) 1 FIX lp)) [0..<?K] lp"
  have d: "segRows e lp = fold (lineRows e (numRows lp)) (getLines e) ?s"
    by (simp add: segRows_def Let_def getNumConstrs_def)
  have s1: "numRows ?s = numRows lp + ?K" and s2: "numCols ?s = numCols lp"
    and s3: "colAt ?s = colAt lp"
    and s4: "\<And>r. rowAt ?s r =
         (if numRows lp \<le> r \<and> r < numRows lp + ?K
          then \<lparr>rowName = slotRowName e (r - numRows lp), bnd = 1, rowTy = FIX, coefs = []\<rparr>
          else rowAt lp r)"
    using slotLoop [of e ?K lp] by blast+
  note ll = linesLoop [OF s1, where ls = "getLines e", unfolded s2 s3, folded d]
  show "numRows (segRows e lp) = numRows lp + ?K + length (getLines e)"
    using ll by blast
  show "numCols (segRows e lp) = numCols lp + length (getLines e) * ?K"
    using ll by blast
  have r: "\<forall>r<numRows lp. rowAt (segRows e lp) r = rowAt lp r"
    using ll s4 by simp
  have c: "\<forall>c<numCols lp. colAt (segRows e lp) c = colAt lp c"
    using ll by blast
  show "keepsBelow (numRows lp) (numCols lp) lp (segRows e lp)"
    unfolding keepsBelow_def using ll r c by simp
  have w1: "\<forall>p<?K. rowAt (segRows e lp) (numRows lp + p) =
         \<lparr>rowName = slotRowName e p, bnd = 1, rowTy = FIX,
          coefs = map (\<lambda>j. (numCols lp + j * ?K + p, 1)) [0..<length (getLines e)]\<rparr>"
  proof (intro allI impI)
    fix p assume p: "p < ?K"
    have "rowAt (segRows e lp) (numRows lp + p) =
          (rowAt ?s (numRows lp + p))\<lparr>coefs := coefs (rowAt ?s (numRows lp + p)) @
               map (\<lambda>j. (numCols lp + j * ?K + p, 1)) [0..<length (getLines e)]\<rparr>"
      using ll p by blast
    then show "rowAt (segRows e lp) (numRows lp + p) =
         \<lparr>rowName = slotRowName e p, bnd = 1, rowTy = FIX,
          coefs = map (\<lambda>j. (numCols lp + j * ?K + p, 1)) [0..<length (getLines e)]\<rparr>"
      using p by (simp add: s4)
  qed
  show "segWritten e (numRows lp) (numCols lp) (segRows e lp)"
    unfolding segWritten_def using w1 ll by blast
qed

lemma keepsBelow_trans:
  assumes "keepsBelow N C lp0 lp1" "keepsBelow (numRows lp1) (numCols lp1) lp1 lp2"
  shows "keepsBelow N C lp0 lp2"
  using assms unfolding keepsBelow_def by auto

lemma keepsBelow_mono:
  assumes "keepsBelow N C lp0 lp" "N' \<le> N" "C' \<le> C"
  shows "keepsBelow N' C' lp0 lp"
  using assms unfolding keepsBelow_def by auto

lemma segWritten_keeps:
  assumes "segWritten e N C lp"
    "keepsBelow (N + getCardinality e + length (getLines e)) (C + length (getLines e) * getCardinality e) lp lp'"
  shows "segWritten e N C lp'"
proof -
  have r: "rowAt lp' r = rowAt lp r" if "r < N + getCardinality e + length (getLines e)" for r
    using assms(2) that unfolding keepsBelow_def by blast
  have c: "colAt lp' c = colAt lp c" if "c < C + length (getLines e) * getCardinality e" for c
    using assms(2) that unfolding keepsBelow_def by blast
  have c': "colAt lp' (C + j * getCardinality e + p) = colAt lp (C + j * getCardinality e + p)"
    if "j < length (getLines e)" "p < getCardinality e" for j p
    using idx_lt [OF that] by (intro c) simp
  show ?thesis
    using assms(1) unfolding segWritten_def by (simp add: r c')
qed

lemma segLoop_keeps:
  "keepsBelow N C lp0 lp \<Longrightarrow> keepsBelow N C lp0 (fold segRows es lp)"
proof (induction es arbitrary: lp)
  case Nil
  then show ?case by simp
next
  case (Cons e es)
  have "keepsBelow N C lp0 (segRows e lp)"
    using Cons.prems segRows_effect(3) by (rule keepsBelow_trans)
  then show ?case by (simp add: Cons.IH)
qed

lemma segLoop_counts:
  "numRows (fold segRows es lp) = numRows lp + rowBase es \<and>
   numCols (fold segRows es lp) = numCols lp + colBase es"
  by (induction es arbitrary: lp) (simp_all add: rowBase_def colBase_def segRows_effect)

lemma segLoop_written:
  "segWritten e (numRows lp + rowBase pre) (numCols lp + colBase pre) (fold segRows (pre @ e # post) lp)"
proof -
  let ?s = "fold segRows pre lp"
  have n: "numRows ?s = numRows lp + rowBase pre" "numCols ?s = numCols lp + colBase pre"
    using segLoop_counts [of pre lp] by blast+
  have w: "segWritten e (numRows ?s) (numCols ?s) (segRows e ?s)"
    by (rule segRows_effect)
  have k: "keepsBelow (numRows (segRows e ?s)) (numCols (segRows e ?s)) (segRows e ?s)
             (fold segRows post (segRows e ?s))"
    by (rule segLoop_keeps) (rule keepsBelow_refl)
  have k': "keepsBelow (numRows ?s + getCardinality e + length (getLines e))
              (numCols ?s + length (getLines e) * getCardinality e) (segRows e ?s)
              (fold segRows post (segRows e ?s))"
    using k by (simp add: segRows_effect)
  have "segWritten e (numRows ?s) (numCols ?s) (fold segRows post (segRows e ?s))"
    using w k' by (rule segWritten_keeps)
  then show ?thesis by (simp add: n)
qed

lemma fold_concat_map: "fold (\<lambda>x. fold f (h x)) xs s = fold f (concat (map h xs)) s"
  by (induction xs arbitrary: s) simp_all

lemma writeSegments_segments: "writeSegments g lp = fold segRows (segmentsOf g) lp"
proof -
  have e: "fold (segStep n) es lp = fold segRows (filter (\<lambda>e. getFrom e = nodeAddr n) es) lp" for n es lp
    by (induction es arbitrary: lp) (simp_all add: segStep_def)
  have "(\<lambda>n. fold (segStep n) (getAdjList n)) =
        (\<lambda>n. fold segRows (filter (\<lambda>e. getFrom e = nodeAddr n) (getAdjList n)))"
    by (rule ext, rule ext, rule e)
  then show ?thesis
    unfolding writeSegments_def segmentsOf_def by (simp only: fold_concat_map)
qed

lemma rowBase_append: "rowBase (xs @ ys) = rowBase xs + rowBase ys"
  by (simp add: rowBase_def)

lemma colBase_append: "colBase (xs @ ys) = colBase xs + colBase ys"
  by (simp add: colBase_def)

lemma createProblem_written:
  assumes "createProblem env g = Inr lp" "k < length (segmentsOf g)"
  shows "segWritten (segmentsOf g ! k) (rowBase (take k (segmentsOf g))) (colBase (take k (segmentsOf g))) lp"
    and "rowBase (take k (segmentsOf g)) + getCardinality (segmentsOf g ! k) +
           length (getLines (segmentsOf g ! k)) \<le> numRows lp"
    and "colBase (take k (segmentsOf g)) +
           length (getLines (segmentsOf g ! k)) * getCardinality (segmentsOf g ! k) \<le> numCols lp"
proof -
  let ?segs = "segmentsOf g"
  let ?pre = "take k ?segs"
  let ?e = "?segs ! k"
  let ?post = "drop (Suc k) ?segs"
  let ?lp1 = "writeSegments g getSolver"
  have sp: "?segs = ?pre @ ?e # ?post"
    using assms(2) by (rule id_take_nth_drop)
  have z: "numRows getSolver = 0" "numCols getSolver = 0"
    by (simp_all add: getSolver_def)
  have l1: "?lp1 = fold segRows (?pre @ ?e # ?post) getSolver"
    unfolding writeSegments_segments using sp by simp
  have w1: "segWritten ?e (rowBase ?pre) (colBase ?pre) ?lp1"
    unfolding l1 using segLoop_written [of ?e getSolver ?pre ?post] by (simp add: z)
  have n1: "numRows ?lp1 = rowBase ?pre + (getCardinality ?e + length (getLines ?e)) + rowBase ?post"
    "numCols ?lp1 = colBase ?pre + length (getLines ?e) * getCardinality ?e + colBase ?post"
    unfolding l1 using segLoop_counts [of "?pre @ ?e # ?post" getSolver]
    by (simp_all add: z rowBase_append colBase_append) (simp_all add: rowBase_def colBase_def)
  obtain lp2 where p2: "writeSameSegConstraints env g ?lp1 = Inr lp2"
    and p3: "writeDiffSegConstraints env g lp2 = Inr lp"
    using assms(1) by (auto simp: createProblem_def Let_def split: sum.splits)
  have "keepsBelow (numRows ?lp1) (numCols ?lp1) ?lp1 lp2"
    using keepsBelow_refl p2 by (rule writeSameSegConstraints_keeps)
  then have k: "keepsBelow (numRows ?lp1) (numCols ?lp1) ?lp1 lp"
    using p3 by (rule writeDiffSegConstraints_keeps)
  have k': "keepsBelow (rowBase ?pre + getCardinality ?e + length (getLines ?e))
              (colBase ?pre + length (getLines ?e) * getCardinality ?e) ?lp1 lp"
    using k by (rule keepsBelow_mono) (simp_all add: n1)
  show "segWritten ?e (rowBase ?pre) (colBase ?pre) lp"
    using w1 k' by (rule segWritten_keeps)
  show "rowBase ?pre + getCardinality ?e + length (getLines ?e) \<le> numRows lp"
    using k' by (simp add: keepsBelow_def)
  show "colBase ?pre + length (getLines ?e) * getCardinality ?e \<le> numCols lp"
    using k' by (simp add: keepsBelow_def)
qed

lemma feasible_row: "feasible lp v \<Longrightarrow> r < numRows lp \<Longrightarrow> rowHolds v (rowAt lp r)"
  by (simp add: feasible_def list_all_iff)

lemma rowHolds_FIX:
  assumes "rowHolds v \<lparr>rowName = nm, bnd = 1, rowTy = FIX, coefs = map (\<lambda>i. (f i, 1)) xs\<rparr>"
  shows "sum_list (map (\<lambda>i. v (f i)) xs) = 1"
proof -
  have "(\<lambda>ca. snd ca * v (fst ca)) \<circ> (\<lambda>i. (f i, 1)) = (\<lambda>i. v (f i))"
    by (rule ext) simp
  then show ?thesis using assms by (simp add: rowHolds_def rowSum_def)
qed

lemma createProblem_sums:
  assumes "createProblem env g = Inr lp" "feasible lp v" "k < length (segmentsOf g)"
  shows "(\<forall>p<getCardinality (segmentsOf g ! k).
            sum_list (map (\<lambda>j. v (xCol g k j p)) [0..<length (getLines (segmentsOf g ! k))]) = 1) \<and>
         (\<forall>j<length (getLines (segmentsOf g ! k)).
            sum_list (map (\<lambda>p. v (xCol g k j p)) [0..<getCardinality (segmentsOf g ! k)]) = 1) \<and>
         (\<forall>j<length (getLines (segmentsOf g ! k)). \<forall>p<getCardinality (segmentsOf g ! k).
            xCol g k j p < numCols lp \<and>
            colAt lp (xCol g k j p) =
              \<lparr>colName = getILPVarName (segmentsOf g ! k) (line (getLines (segmentsOf g ! k) ! j)) p,
               colTy = BIN, objCoef = 0\<rparr>)"
proof -
  let ?e = "segmentsOf g ! k"
  let ?K = "getCardinality ?e"
  let ?L = "length (getLines ?e)"
  let ?N = "rowBase (take k (segmentsOf g))"
  let ?C = "colBase (take k (segmentsOf g))"
  note cw = createProblem_written [OF assms(1,3)]
  have x: "xCol g k j p = ?C + j * ?K + p" for j p by (simp add: xCol_def)
  have a: "sum_list (map (\<lambda>j. v (xCol g k j p)) [0..<?L]) = 1" if "p < ?K" for p
  proof -
    have "?N + p < numRows lp" using cw(2) that by simp
    then have "rowHolds v (rowAt lp (?N + p))" by (rule feasible_row [OF assms(2)])
    moreover have "rowAt lp (?N + p) =
        \<lparr>rowName = slotRowName ?e p, bnd = 1, rowTy = FIX,
         coefs = map (\<lambda>j. (?C + j * ?K + p, 1)) [0..<?L]\<rparr>"
      using cw(1) that unfolding segWritten_def by blast
    ultimately show ?thesis unfolding x by (metis rowHolds_FIX)
  qed
  have b: "sum_list (map (\<lambda>p. v (xCol g k j p)) [0..<?K]) = 1" if "j < ?L" for j
  proof -
    have "?N + ?K + j < numRows lp" using cw(2) that by simp
    then have "rowHolds v (rowAt lp (?N + ?K + j))" by (rule feasible_row [OF assms(2)])
    moreover have "rowAt lp (?N + ?K + j) =
        \<lparr>rowName = lineRowName ?e (line (getLines ?e ! j)), bnd = 1, rowTy = FIX,
         coefs = map (\<lambda>p. (?C + j * ?K + p, 1)) [0..<?K]\<rparr>"
      using cw(1) that unfolding segWritten_def by blast
    ultimately show ?thesis unfolding x by (metis rowHolds_FIX)
  qed
  have c: "xCol g k j p < numCols lp \<and>
           colAt lp (xCol g k j p) =
             \<lparr>colName = getILPVarName ?e (line (getLines ?e ! j)) p, colTy = BIN, objCoef = 0\<rparr>"
    if "j < ?L" "p < ?K" for j p
  proof -
    have "j * ?K + p < ?L * ?K" using that by (rule idx_lt)
    then have "xCol g k j p < numCols lp" using cw(3) by (simp add: x)
    moreover have "colAt lp (?C + j * ?K + p) =
             \<lparr>colName = getILPVarName ?e (line (getLines ?e ! j)) p, colTy = BIN, objCoef = 0\<rparr>"
      using cw(1) that unfolding segWritten_def by blast
    ultimately show ?thesis by (simp add: x)
  qed
  show ?thesis using a b c by blast
qed

lemma demoProblem_built: "createProblem demoEnv demoOptGraph2 = Inr demoProblem"
proof -
  have "writeSameSegConstraints demoEnv demoOptGraph2 lp = Inr lp" for lp
    by (simp add: writeSameSegConstraints_def sameSegSegment_def demoEnv_def demoOptGraph2_def)
  moreover have "writeDiffSegConstraints demoEnv demoOptGraph2 lp = Inr lp" for lp
    by (simp add: writeDiffSegConstraints_def diffSegSegment_def demoEnv_def demoOptGraph2_def)
  ultimately have "createProblem demoEnv demoOptGraph2 = Inr (writeSegments demoOptGraph2 getSolver)"
    by (simp add: createProblem_def Let_def)
  then show ?thesis by (simp add: demoProblem_def)
qed

lemma demoOptGraph2_segments: "segmentsOf demoOptGraph2 = [demoSeg2]"
  by (simp add: segmentsOf_def demoOptGraph2_def demoSeg2_def)

lemma upt2: "[0..<2] = [0, 1]"
  by (simp add: upt_rec)

lemma demoProblem_feasible: "feasible demoProblem demoSolution"
proof -
  have "writeSameSegConstraints demoEnv demoOptGraph2 lp = Inr lp" for lp
    by (simp add: writeSameSegConstraints_def sameSegSegment_def demoEnv_def demoOptGraph2_def)
  moreover have "writeDiffSegConstraints demoEnv demoOptGraph2 lp = Inr lp" for lp
    by (simp add: writeDiffSegConstraints_def diffSegSegment_def demoEnv_def demoOptGraph2_def)
  ultimately have e: "demoProblem = fold segRows [demoSeg2] getSolver"
    by (simp add: demoProblem_def createProblem_def Let_def writeSegments_segments demoOptGraph2_segments)
  have K: "getCardinality demoSeg2 = 2" "length (getLines demoSeg2) = 2"
    by (simp_all add: demoSeg2_def)
  have z: "numRows getSolver = 0" "numCols getSolver = 0"
    by (simp_all add: getSolver_def)
  have n: "numRows demoProblem = 4" "numCols demoProblem = 4"
    unfolding e by (simp_all add: segRows_effect K z)
  have w: "segWritten demoSeg2 0 0 demoProblem"
    unfolding e using segRows_effect(4) [of demoSeg2 getSolver] by (simp add: z)
  have s: "demoSolution p + demoSolution (2 + p) = 1" if "p < 2" for p
    using that by (auto simp: demoSolution_def less_2_cases_iff)
  have l: "demoSolution (j * 2) + demoSolution (j * 2 + 1) = 1" if "j < 2" for j
    using that by (auto simp: demoSolution_def less_2_cases_iff)
  have r: "rowHolds demoSolution (rowAt demoProblem r)" if "r < 4" for r
  proof (cases "r < 2")
    case True
    then have "rowAt demoProblem (0 + r) =
        \<lparr>rowName = slotRowName demoSeg2 r, bnd = 1, rowTy = FIX,
         coefs = map (\<lambda>j. (0 + j * 2 + r, 1)) [0..<2]\<rparr>"
      using w unfolding segWritten_def K by blast
    then show ?thesis using s [OF True] by (simp add: rowHolds_def rowSum_def upt2)
  next
    case False
    then have j: "r - 2 < 2" "r = 0 + 2 + (r - 2)" using that by simp_all
    have "rowAt demoProblem (0 + 2 + (r - 2)) =
        \<lparr>rowName = lineRowName demoSeg2 (line (getLines demoSeg2 ! (r - 2))), bnd = 1, rowTy = FIX,
         coefs = map (\<lambda>p. (0 + (r - 2) * 2 + p, 1)) [0..<2]\<rparr>"
      using w j(1) unfolding segWritten_def K by blast
    then have "rowAt demoProblem r =
        \<lparr>rowName = lineRowName demoSeg2 (line (getLines demoSeg2 ! (r - 2))), bnd = 1, rowTy = FIX,
         coefs = map (\<lambda>p. (0 + (r - 2) * 2 + p, 1)) [0..<2]\<rparr>"
      using j(2) by simp
    then show ?thesis using l [OF j(1)] by (simp add: rowHolds_def rowSum_def upt2)
  qed
  show ?thesis
    by (simp add: feasible_def n list_all_iff r) (simp add: demoSolution_def)
qed

section \<open>Slot-exclusive and line-unique rows of the ordering program\<close>

text \<open>
  C2: when \<open>createProblem\<close> returns the program \<open>lp\<close>, every feasible solution \<open>v\<close> of
  \<open>lp\<close> and every segment the function visits (the \<open>k\<close>-th, with \<open>K\<close> slots and the lines
  \<open>L\<close>) satisfy: for every slot \<open>p < K\<close> the values of the variables \<open>x(s, l, p)\<close> over
  the lines \<open>l\<close> of \<open>L\<close> sum to 1, and for every line \<open>l\<close> of \<open>L\<close> the values of
  \<open>x(s, l, p)\<close> over the slots \<open>p < K\<close> sum to 1.  The variable \<open>x(s, l, p)\<close> of the
  \<open>j\<close>-th line is the column \<open>xCol g k j p\<close>, a binary column of \<open>lp\<close> that carries the
  name \<open>getILPVarName\<close> gives it.  The rows the two crossing passes add later leave
  these rows as they are.
\<close>

theorem createProblem_slot_exclusive_line_unique:
  assumes "createProblem env g = Inr lp" "feasible lp v" "k < length (segmentsOf g)"
  shows "(\<forall>p<getCardinality (segmentsOf g ! k).
            sum_list (map (\<lambda>j. v (xCol g k j p)) [0..<length (getLines (segmentsOf g ! k))]) = 1) \<and>
         (\<forall>j<length (getLines (segmentsOf g ! k)).
            sum_list (map (\<lambda>p. v (xCol g k j p)) [0..<getCardinality (segmentsOf g ! k)]) = 1) \<and>
         (\<forall>j<length (getLines (segmentsOf g ! k)). \<forall>p<getCardinality (segmentsOf g ! k).
            xCol g k j p < numCols lp \<and>
            colAt lp (xCol g k j p) =
              \<lparr>colName = getILPVarName (segmentsOf g ! k) (line (getLines (segmentsOf g ! k) ! j)) p,
               colTy = BIN, objCoef = 0\<rparr>)"
  using assms by (rule createProblem_sums)

theorem createProblem_slot_exclusive_line_unique_witness:
  "createProblem demoEnv demoOptGraph2 = Inr demoProblem \<and> feasible demoProblem demoSolution \<and>
   0 < length (segmentsOf demoOptGraph2) \<and>
   demoSolution (xCol demoOptGraph2 0 0 0) + demoSolution (xCol demoOptGraph2 0 1 0) = 1 \<and>
   demoSolution (xCol demoOptGraph2 0 0 1) + demoSolution (xCol demoOptGraph2 0 1 1) = 1 \<and>
   demoSolution (xCol demoOptGraph2 0 0 0) + demoSolution (xCol demoOptGraph2 0 0 1) = 1 \<and>
   demoSolution (xCol demoOptGraph2 0 1 0) + demoSolution (xCol demoOptGraph2 0 1 1) = 1"
proof -
  have k: "0 < length (segmentsOf demoOptGraph2)"
    by (simp add: demoOptGraph2_segments)
  have K: "getCardinality (segmentsOf demoOptGraph2 ! 0) = 2"
    "length (getLines (segmentsOf demoOptGraph2 ! 0)) = 2"
    by (simp_all add: demoOptGraph2_segments demoSeg2_def)
  note t = createProblem_slot_exclusive_line_unique [OF demoProblem_built demoProblem_feasible k,
      unfolded K upt2]
  have "demoSolution (xCol demoOptGraph2 0 0 0) + demoSolution (xCol demoOptGraph2 0 1 0) = 1"
    using t [THEN conjunct1, rule_format, of 0] by simp
  moreover have "demoSolution (xCol demoOptGraph2 0 0 1) + demoSolution (xCol demoOptGraph2 0 1 1) = 1"
    using t [THEN conjunct1, rule_format, of 1] by simp
  moreover have "demoSolution (xCol demoOptGraph2 0 0 0) + demoSolution (xCol demoOptGraph2 0 0 1) = 1"
    using t [THEN conjunct2, THEN conjunct1, rule_format, of 0] by simp
  moreover have "demoSolution (xCol demoOptGraph2 0 1 0) + demoSolution (xCol demoOptGraph2 0 1 1) = 1"
    using t [THEN conjunct2, THEN conjunct1, rule_format, of 1] by simp
  ultimately show ?thesis
    using demoProblem_built demoProblem_feasible k by blast
qed

section \<open>Rounding to a double\<close>

lemma find_upto_Some:
  "find P [i..j] = Some k \<longleftrightarrow> i \<le> k \<and> k \<le> j \<and> P k \<and> (\<forall>l. i \<le> l \<and> l < k \<longrightarrow> \<not> P l)"
proof (induction i j rule: upto.induct)
  case (1 i j)
  show ?case
  proof (cases "i \<le> j")
    case False
    then show ?thesis by (simp add: upto.simps)
  next
    case True
    then have u: "[i..j] = i # [i + 1..j]" by (simp add: upto.simps)
    show ?thesis
    proof (cases "P i")
      case True
      then show ?thesis using \<open>i \<le> j\<close> unfolding u by auto
    next
      case False
      have "(\<forall>l. i + 1 \<le> l \<and> l < k \<longrightarrow> \<not> P l) \<longleftrightarrow> (\<forall>l. i \<le> l \<and> l < k \<longrightarrow> \<not> P l)"
        using False by (metis add1_zle_eq order_le_less)
      moreover have "i + 1 \<le> k \<and> P k \<longleftrightarrow> i \<le> k \<and> P k"
        using False by (metis add1_zle_eq order_le_less)
      ultimately show ?thesis using False 1 [OF True] unfolding u by auto
    qed
  qed
qed

lemma find_upto_None: "find P [i..j] = None \<longleftrightarrow> (\<forall>k. i \<le> k \<and> k \<le> j \<longrightarrow> \<not> P k)"
  by (auto simp: find_None_iff)

lemma powi_mono2: "a \<le> b \<Longrightarrow> (2::real) powi a \<le> 2 powi b"
  by (rule power_int_increasing) simp_all

lemma powi_strict2: "a < b \<Longrightarrow> (2::real) powi a < 2 powi b"
  by (rule power_int_strict_increasing) simp_all

lemma dexp_range: "- 1074 \<le> dexp x \<and> dexp x \<le> 971"
proof (cases "find (\<lambda>e. \<bar>x\<bar> < 2 powi (e + 53)) [- 1074..971]")
  case None
  then have "dexp x = 971" by (simp only: dexp_def option.case)
  then show ?thesis by simp
next
  case (Some e)
  then have "dexp x = e" by (simp only: dexp_def option.case)
  moreover have "- 1074 \<le> e \<and> e \<le> 971" using Some unfolding find_upto_Some by blast
  ultimately show ?thesis by simp
qed

lemma dexp_eq:
  assumes "- 1074 \<le> e" "e \<le> 971" "\<bar>x\<bar> < 2 powi (e + 53)" "e = - 1074 \<or> 2 powi (e + 52) \<le> \<bar>x\<bar>"
  shows "dexp x = e"
proof -
  have "\<not> \<bar>x\<bar> < 2 powi (l + 53)" if "- 1074 \<le> l" "l < e" for l
  proof -
    have "e \<noteq> - 1074" using that by simp
    then have "2 powi (e + 52) \<le> \<bar>x\<bar>" using assms(4) by blast
    moreover have "(2::real) powi (l + 53) \<le> 2 powi (e + 52)" using that(2) by (intro powi_mono2) simp
    ultimately show ?thesis by simp
  qed
  then have "find (\<lambda>e. \<bar>x\<bar> < 2 powi (e + 53)) [- 1074..971] = Some e"
    using assms(1-3) unfolding find_upto_Some by blast
  then show ?thesis by (simp only: dexp_def option.case)
qed

lemma dexp_le:
  assumes "- 1074 \<le> k" "k \<le> 971" "\<bar>x\<bar> < 2 powi (k + 53)"
  shows "dexp x \<le> k" "\<bar>x\<bar> < 2 powi (dexp x + 53)"
proof -
  have "find (\<lambda>e. \<bar>x\<bar> < 2 powi (e + 53)) [- 1074..971] \<noteq> None"
    using assms unfolding find_upto_None by blast
  then obtain e where e: "find (\<lambda>e. \<bar>x\<bar> < 2 powi (e + 53)) [- 1074..971] = Some e" by blast
  then have d: "dexp x = e" by (simp only: dexp_def option.case)
  have p: "- 1074 \<le> e" "\<bar>x\<bar> < 2 powi (e + 53)" "\<forall>l. - 1074 \<le> l \<and> l < e \<longrightarrow> \<not> \<bar>x\<bar> < 2 powi (l + 53)"
    using e unfolding find_upto_Some by blast+
  show "dexp x \<le> k" unfolding d using p(3) assms(1,3) by (meson not_le)
  show "\<bar>x\<bar> < 2 powi (dexp x + 53)" unfolding d by (rule p(2))
qed

lemma rne_of_int: "rne (of_int z) = z"
  by (simp add: rne_def)

lemma rne_nonneg: "0 \<le> q \<Longrightarrow> 0 \<le> rne q"
  unfolding rne_def Let_def by (auto simp: zero_le_floor intro: add_nonneg_nonneg)

lemma rne_le: "q \<le> of_int n \<Longrightarrow> rne q \<le> n"
proof -
  assume a: "q \<le> of_int n"
  show ?thesis
  proof (cases "q = of_int n")
    case True
    then show ?thesis by (simp add: rne_of_int)
  next
    case False
    then have "q < of_int n" using a by simp
    then have "\<lfloor>q\<rfloor> < n" by (simp add: floor_less_iff)
    then have "\<lfloor>q\<rfloor> + 1 \<le> n" by simp
    then show ?thesis unfolding rne_def Let_def by auto
  qed
qed

lemma DBL_MAX_pos: "0 < DBL_MAX"
  by (simp add: DBL_MAX_def)

lemma fl_exact:
  assumes "x = of_int m * 2 powi k" "\<bar>m\<bar> < 2 ^ 53" "- 1074 \<le> k" "k \<le> 971"
  shows "fl x = Fin x"
proof -
  let ?e = "dexp x"
  have ax: "\<bar>x\<bar> = of_int \<bar>m\<bar> * 2 powi k" by (simp add: assms(1) abs_mult)
  have "of_int \<bar>m\<bar> < (2::real) ^ 53" using assms(2) by (metis of_int_less_iff of_int_numeral of_int_power)
  then have "\<bar>x\<bar> < 2 ^ 53 * 2 powi k" unfolding ax by (intro mult_strict_right_mono) simp_all
  then have lt: "\<bar>x\<bar> < 2 powi (k + 53)" by (simp add: power_int_add mult.commute)
  have ek: "?e \<le> k" using dexp_le(1) [OF assms(3,4) lt] .
  have "x / 2 powi ?e = of_int m * 2 powi (k - ?e)"
    by (simp add: assms(1) power_int_diff)
  also have "\<dots> = of_int (m * 2 ^ nat (k - ?e))"
    using ek by (simp add: power_int_def)
  finally have q: "x / 2 powi ?e = of_int (m * 2 ^ nat (k - ?e))" .
  have y: "of_int (rne (x / 2 powi ?e)) * 2 powi ?e = x"
    unfolding q rne_of_int unfolding q [symmetric] by simp
  have "of_int \<bar>m\<bar> \<le> (2::real) ^ 53 - 1"
  proof -
    have "\<bar>m\<bar> \<le> 2 ^ 53 - 1" using assms(2) by simp
    then have "(of_int \<bar>m\<bar> :: real) \<le> of_int (2 ^ 53 - 1)" by (simp only: of_int_le_iff)
    then show ?thesis by simp
  qed
  moreover have "(2::real) powi k \<le> 2 powi 971" using assms(4) by (rule powi_mono2)
  ultimately have "\<bar>x\<bar> \<le> (2 ^ 53 - 1) * 2 powi 971"
    unfolding ax by (intro mult_mono) simp_all
  then have b: "\<bar>x\<bar> \<le> DBL_MAX" by (simp add: DBL_MAX_def)
  then have "\<not> DBL_MAX < x" "\<not> x < - DBL_MAX" by linarith+
  then show ?thesis unfolding fl_def Let_def y by simp
qed

lemma fl_zero: "fl 0 = Fin 0"
  using fl_exact [of 0 0 0] by simp

lemma fl_nat:
  assumes "n \<le> 2 ^ 53"
  shows "fl (real n) = Fin (real n)"
proof (cases "n = 2 ^ 53")
  case True
  have "fl (of_int (2 ^ 52) * 2 powi 1) = Fin (of_int (2 ^ 52) * 2 powi 1)"
    by (rule fl_exact [OF refl]) simp_all
  then show ?thesis by (simp add: True)
next
  case False
  then have "n < 2 ^ 53" using assms by simp
  then have "\<bar>int n\<bar> < 2 ^ 53" by simp
  then have "fl (of_int (int n) * 2 powi 0) = Fin (of_int (int n) * 2 powi 0)"
    by (intro fl_exact [OF refl]) simp_all
  then show ?thesis by simp
qed

lemma fl_bounds:
  assumes "0 \<le> x" "x < 2 ^ 52"
  shows "\<exists>y. fl x = Fin y \<and> 0 \<le> y \<and> y \<le> 2 ^ 52"
proof -
  let ?e = "dexp x"
  let ?q = "x / 2 powi ?e"
  let ?y = "of_int (rne ?q) * (2::real) powi ?e"
  have lt: "\<bar>x\<bar> < 2 powi (- 1 + 53)" using assms by simp
  have e: "?e \<le> - 1" "\<bar>x\<bar> < 2 powi (?e + 53)" using dexp_le [OF _ _ lt] by simp_all
  have "0 \<le> ?q" using assms(1) by simp
  then have n: "0 \<le> rne ?q" by (rule rne_nonneg)
  have "?q < 2 powi (?e + 53) / 2 powi ?e"
    using e(2) assms(1) by (intro divide_strict_right_mono) simp_all
  then have "?q < 2 ^ 53" by (simp add: power_int_add)
  then have "?q \<le> of_int (2 ^ 53)" by simp
  then have "rne ?q \<le> 2 ^ 53" by (rule rne_le)
  then have "(of_int (rne ?q) :: real) \<le> of_int (2 ^ 53)" by (simp only: of_int_le_iff)
  then have "?y \<le> 2 ^ 53 * 2 powi ?e" by (intro mult_right_mono) simp_all
  also have "\<dots> = 2 powi (?e + 53)" by (simp add: power_int_add)
  also have "\<dots> \<le> 2 powi 52" using e(1) by (intro powi_mono2) simp
  finally have u: "?y \<le> 2 ^ 52" by simp
  have y0: "0 \<le> ?y" using n by simp
  have "(2::real) ^ 52 \<le> DBL_MAX" by (simp add: DBL_MAX_def)
  then have "\<not> DBL_MAX < ?y" "\<not> ?y < - DBL_MAX" using u y0 DBL_MAX_pos by linarith+
  then have "fl x = Fin ?y" unfolding fl_def Let_def by simp
  then show ?thesis using y0 u by blast
qed

lemma fl_round:
  assumes "- 1074 \<le> e" "e \<le> 971" "\<bar>x\<bar> < 2 powi (e + 53)" "e = - 1074 \<or> 2 powi (e + 52) \<le> \<bar>x\<bar>"
    and "rne (x / 2 powi e) = z" "\<bar>of_int z * 2 powi e\<bar> \<le> DBL_MAX"
  shows "fl x = Fin (of_int z * 2 powi e)"
proof -
  have d: "dexp x = e" using assms(1-4) by (rule dexp_eq)
  have "\<not> DBL_MAX < of_int z * 2 powi e" "\<not> of_int z * 2 powi e < - DBL_MAX"
    using assms(6) by linarith+
  then show ?thesis unfolding fl_def Let_def d assms(5) by simp
qed

lemma fl_nonneg:
  assumes "0 \<le> x" "fl x = Fin y"
  shows "0 \<le> y"
proof -
  let ?y = "of_int (rne (x / 2 powi dexp x)) * (2::real) powi dexp x"
  have "0 \<le> x / 2 powi dexp x" using assms(1) by simp
  then have "0 \<le> rne (x / 2 powi dexp x)" by (rule rne_nonneg)
  then have y0: "0 \<le> ?y" by simp
  have "y = ?y" using assms(2) unfolding fl_def Let_def by (auto split: if_splits)
  then show ?thesis using y0 by simp
qed

lemma to_size_t_Fin:
  assumes "0 \<le> v" "v \<le> 2 ^ 52"
  shows "to_size_t (Fin v) = Inr (nat \<lfloor>v\<rfloor>)"
proof -
  have "v < 2 ^ 64" using assms(2) by (rule order_le_less_trans) simp
  then show ?thesis using assms(1) by (simp add: to_size_t_def)
qed

lemma floor_bounds:
  assumes "0 \<le> (v::real)" "v \<le> 2 ^ 52"
  shows "0 \<le> \<lfloor>v\<rfloor>" "\<lfloor>v\<rfloor> \<le> 2 ^ 52" "v - 1 < of_int \<lfloor>v\<rfloor>" "of_int \<lfloor>v\<rfloor> \<le> v"
proof -
  show "0 \<le> \<lfloor>v\<rfloor>" using assms(1) by simp
  have "v \<le> of_int (2 ^ 52)" using assms(2) by simp
  then have "\<lfloor>v\<rfloor> \<le> \<lfloor>(of_int (2 ^ 52))::real\<rfloor>" by (rule floor_mono)
  then show "\<lfloor>v\<rfloor> \<le> 2 ^ 52" by (simp only: floor_of_int)
  show "v - 1 < of_int \<lfloor>v\<rfloor>" by linarith
  show "of_int \<lfloor>v\<rfloor> \<le> v" by simp
qed

lemma heurCost_distinct:
  assumes dist: "(xa, ya) \<noteq> (xb, yb)"
    and m: "m = nat (max \<bar>sint xb - sint xa\<bar> \<bar>sint yb - sint ya\<bar>)" "m \<le> 2 ^ 53"
    and mp: "mp = min (verticalPen c) (min (horizontalPen c) (diagonalPen c))"
      "0 \<le> mp" "real m * mp < 2 ^ 52"
    and d: "p_135 c \<le> p_45 c" "fl (p_45 c - p_135 c) = Fin D" "real (m - 1) * D < 2 ^ 52"
  shows "\<exists>A B. fl (real m * mp) = Fin A \<and> fl (real (m - 1) * D) = Fin B \<and>
           heurCost c xa ya xb yb = Inr (Fin (of_int (\<lfloor>A\<rfloor> + \<lfloor>B\<rfloor>))) \<and>
           0 \<le> \<lfloor>A\<rfloor> + \<lfloor>B\<rfloor> \<and>
           A + B - 2 < of_int (\<lfloor>A\<rfloor> + \<lfloor>B\<rfloor>) \<and> of_int (\<lfloor>A\<rfloor> + \<lfloor>B\<rfloor>) \<le> A + B"
proof -
  let ?dx = "sint xb - sint xa" and ?dy = "sint yb - sint ya"
  have D0: "0 \<le> D" using d(1,2) fl_nonneg [of "p_45 c - p_135 c" D] by simp
  obtain A where A: "fl (real m * mp) = Fin A" "0 \<le> A" "A \<le> 2 ^ 52"
    using fl_bounds [OF _ mp(3)] mp(2) by auto
  obtain B where B: "fl (real (m - 1) * D) = Fin B" "0 \<le> B" "B \<le> 2 ^ 52"
    using fl_bounds [OF _ d(3)] D0 by auto
  note fa = floor_bounds [OF A(2,3)] and fb = floor_bounds [OF B(2,3)]
  have "0 \<le> max \<bar>?dx\<bar> \<bar>?dy\<bar>" by linarith
  then have mx: "max \<bar>?dx\<bar> \<bar>?dy\<bar> = int m" unfolding m(1) by (simp only: int_nat_eq if_True)
  have "int m \<le> 2 ^ 53" using m(2) by (metis of_nat_le_iff of_nat_numeral of_nat_power)
  moreover have "(2::int) ^ 53 < 2 ^ 63" by simp
  ultimately have r: "- (2 ^ 63) < ?dx \<and> ?dx < 2 ^ 63 \<and> - (2 ^ 63) < ?dy \<and> ?dy < 2 ^ 63"
    using mx by linarith
  have om: "of_size_t m = Fin (real m)" unfolding of_size_t_def using m(2) by (rule fl_nat)
  have "m - 1 \<le> 2 ^ 53" using m(2) by simp
  then have om1: "of_size_t (m - 1) = Fin (real (m - 1))" unfolding of_size_t_def by (rule fl_nat)
  have ds: "dsub (Fin (p_45 c)) (Fin (p_135 c)) = Fin D"
    using d(2) by (simp add: dsub_def)
  have e: "to_size_t (dmul (of_size_t m) (Fin mp)) = Inr (nat \<lfloor>A\<rfloor>)"
    unfolding om dmul.simps A(1) by (rule to_size_t_Fin [OF A(2,3)])
  have h: "to_size_t (dmul (of_size_t (m - 1)) (dsub (Fin (p_45 c)) (Fin (p_135 c)))) = Inr (nat \<lfloor>B\<rfloor>)"
    unfolding om1 ds dmul.simps B(1) by (rule to_size_t_Fin [OF B(2,3)])
  have s53: "nat \<lfloor>A\<rfloor> + nat \<lfloor>B\<rfloor> \<le> 2 ^ 53"
  proof -
    have "nat \<lfloor>A\<rfloor> \<le> nat (2 ^ 52)" "nat \<lfloor>B\<rfloor> \<le> nat (2 ^ 52)"
      using fa(2) fb(2) by (simp_all only: nat_mono)
    then show ?thesis by simp
  qed
  have "nat \<lfloor>A\<rfloor> + nat \<lfloor>B\<rfloor> < 2 ^ 64"
    using s53 by (rule order_le_less_trans) simp
  then have md: "(nat \<lfloor>A\<rfloor> + nat \<lfloor>B\<rfloor>) mod 2 ^ 64 = nat \<lfloor>A\<rfloor> + nat \<lfloor>B\<rfloor>" by simp
  have "real (nat \<lfloor>A\<rfloor> + nat \<lfloor>B\<rfloor>) = of_int (\<lfloor>A\<rfloor> + \<lfloor>B\<rfloor>)"
    using fa(1) fb(1) by simp
  then have res: "of_size_t ((nat \<lfloor>A\<rfloor> + nat \<lfloor>B\<rfloor>) mod 2 ^ 64) = Fin (of_int (\<lfloor>A\<rfloor> + \<lfloor>B\<rfloor>))"
    unfolding md of_size_t_def using fl_nat [OF s53] by simp
  have ne: "\<not> (xa = xb \<and> ya = yb)" using dist by simp
  have "heurCost c xa ya xb yb = Inr (Fin (of_int (\<lfloor>A\<rfloor> + \<lfloor>B\<rfloor>)))"
    unfolding heurCost_def Let_def mx mp(1) [symmetric]
    using ne r e h res by (simp only: if_False if_True nat_int sum.case simp_thms)
  moreover have "0 \<le> \<lfloor>A\<rfloor> + \<lfloor>B\<rfloor>" using fa(1) fb(1) by simp
  moreover have "A + B - 2 < of_int (\<lfloor>A\<rfloor> + \<lfloor>B\<rfloor>)" using fa(3) fb(3) unfolding of_int_add by linarith
  moreover have "of_int (\<lfloor>A\<rfloor> + \<lfloor>B\<rfloor>) \<le> A + B" using fa(4) fb(4) unfolding of_int_add by linarith
  ultimately show ?thesis using A(1) B(1) by blast
qed

lemma fl_two: "fl 2 = Fin 2"
  using fl_exact [of 2 2 0] by simp

lemma fl_five_halves: "fl (5 / 2) = Fin (5 / 2)"
  using fl_exact [of "5 / 2" 5 "- 1"] by simp

lemma dblPens_diff: "fl (p_45 dblPens - p_135 dblPens) = Fin (5 / 2)"
proof -
  have "p_45 dblPens - p_135 dblPens = 5 / 2" by (simp add: dblPens_def)
  then show ?thesis by (simp only: fl_five_halves)
qed

lemma demo_hops: "nat (max \<bar>sint (2::64 word) - sint (0::64 word)\<bar> \<bar>sint (0::64 word) - sint (0::64 word)\<bar>) = 2"
  by simp

lemma demo_minPen: "min (verticalPen dblPens) (min (horizontalPen dblPens) (diagonalPen dblPens)) = 1"
  by (simp add: dblPens_def)

section \<open>The heuristic\<close>

text \<open>
  C6 as stated: for distinct cells \<open>heurCost\<close> returns exactly
  \<open>minHops * min(verticalPen, horizontalPen, diagonalPen) + (minHops - 1) * (p_45 - p_135)\<close>.
  This fails: between the cells \<open>(0, 0)\<close> and \<open>(2, 0)\<close>, with the smallest traversal
  penalty 1 and \<open>p_45 - p_135 = 5/2\<close>, that expression is \<open>9/2\<close>, and \<open>heurCost\<close> returns 4.
\<close>

theorem heurCost_exact_counterexample:
  "heurCost dblPens 0 0 2 0 = Inr (Fin 4) \<and>
   real (nat (max \<bar>sint (2::64 word) - sint (0::64 word)\<bar> \<bar>sint (0::64 word) - sint (0::64 word)\<bar>)) *
     min (verticalPen dblPens) (min (horizontalPen dblPens) (diagonalPen dblPens)) +
   (real (nat (max \<bar>sint (2::64 word) - sint (0::64 word)\<bar> \<bar>sint (0::64 word) - sint (0::64 word)\<bar>)) - 1) *
     (p_45 dblPens - p_135 dblPens) = 9 / 2"
proof -
  have "\<exists>A B. fl (real 2 * 1) = Fin A \<and> fl (real (2 - 1) * (5 / 2)) = Fin B \<and>
           heurCost dblPens 0 0 2 0 = Inr (Fin (of_int (\<lfloor>A\<rfloor> + \<lfloor>B\<rfloor>))) \<and>
           0 \<le> \<lfloor>A\<rfloor> + \<lfloor>B\<rfloor> \<and>
           A + B - 2 < of_int (\<lfloor>A\<rfloor> + \<lfloor>B\<rfloor>) \<and> of_int (\<lfloor>A\<rfloor> + \<lfloor>B\<rfloor>) \<le> A + B"
    by (rule heurCost_distinct [where c = dblPens and D = "5 / 2"])
       (simp_all add: demo_minPen dblPens_diff, simp add: dblPens_def)
  then obtain A B where ab: "fl (real 2 * 1) = Fin A" "fl (real (2 - 1) * (5 / 2)) = Fin B"
    "heurCost dblPens 0 0 2 0 = Inr (Fin (of_int (\<lfloor>A\<rfloor> + \<lfloor>B\<rfloor>)))" by blast
  have "Fin A = Fin 2" using ab(1) by (simp add: fl_two)
  then have "A = 2" by (simp only: cost.inject)
  then have fA: "\<lfloor>A\<rfloor> = 2" by simp
  have "Fin B = Fin (5 / 2)" using ab(2) by (simp add: fl_five_halves)
  then have "B = 5 / 2" by (simp only: cost.inject)
  then have "\<lfloor>B\<rfloor> = \<lfloor>5 / 2 :: real\<rfloor>" by (simp only:)
  then have fB: "\<lfloor>B\<rfloor> = 2" by simp
  have "heurCost dblPens 0 0 2 0 = Inr (Fin 4)" using ab(3) unfolding fA fB by simp
  moreover have "p_45 dblPens - p_135 dblPens = 5 / 2" by (simp add: dblPens_def)
  ultimately show ?thesis unfolding demo_hops demo_minPen by simp
qed

text \<open>
  C6, amended.  Let the two cells be distinct, \<open>m\<close> their Chebyshev distance, at most
  \<open>2^53\<close>, \<open>mp\<close> the smallest traversal penalty, not negative, and \<open>D\<close> the \<open>double\<close>
  difference of \<open>p_45\<close> and \<open>p_135\<close>, with \<open>p_135 \<le> p_45\<close>; let the products \<open>m * mp\<close> and
  \<open>(m - 1) * D\<close> be below \<open>2^52\<close>.  Then the two products, rounded to \<open>double\<close>, are finite
  values \<open>A\<close> and \<open>B\<close>, no conversion is undefined, and \<open>heurCost\<close> returns the whole
  number \<open>floor A + floor B\<close>: it is not negative, and it lies at most 2 below \<open>A + B\<close>
  and never above.  For equal cells \<open>heurCost\<close> returns 0.
\<close>

theorem heurCost_truncated:
  assumes "(xa, ya) \<noteq> (xb, yb)"
    and "m = nat (max \<bar>sint xb - sint xa\<bar> \<bar>sint yb - sint ya\<bar>)" "m \<le> 2 ^ 53"
    and "mp = min (verticalPen c) (min (horizontalPen c) (diagonalPen c))"
      "0 \<le> mp" "real m * mp < 2 ^ 52"
    and "p_135 c \<le> p_45 c" "fl (p_45 c - p_135 c) = Fin D" "real (m - 1) * D < 2 ^ 52"
  shows "(\<exists>A B. fl (real m * mp) = Fin A \<and> fl (real (m - 1) * D) = Fin B \<and>
            heurCost c xa ya xb yb = Inr (Fin (of_int (\<lfloor>A\<rfloor> + \<lfloor>B\<rfloor>))) \<and>
            0 \<le> \<lfloor>A\<rfloor> + \<lfloor>B\<rfloor> \<and>
            A + B - 2 < of_int (\<lfloor>A\<rfloor> + \<lfloor>B\<rfloor>) \<and> of_int (\<lfloor>A\<rfloor> + \<lfloor>B\<rfloor>) \<le> A + B) \<and>
         heurCost c xa ya xa ya = Inr (Fin 0)"
proof
  show "\<exists>A B. fl (real m * mp) = Fin A \<and> fl (real (m - 1) * D) = Fin B \<and>
            heurCost c xa ya xb yb = Inr (Fin (of_int (\<lfloor>A\<rfloor> + \<lfloor>B\<rfloor>))) \<and>
            0 \<le> \<lfloor>A\<rfloor> + \<lfloor>B\<rfloor> \<and>
            A + B - 2 < of_int (\<lfloor>A\<rfloor> + \<lfloor>B\<rfloor>) \<and> of_int (\<lfloor>A\<rfloor> + \<lfloor>B\<rfloor>) \<le> A + B"
    using assms by (rule heurCost_distinct)
  show "heurCost c xa ya xa ya = Inr (Fin 0)" by (simp add: heurCost_def)
qed

theorem heurCost_truncated_witness:
  "((0::64 word), (0::64 word)) \<noteq> (2, 0) \<and>
   (2::nat) = nat (max \<bar>sint (2::64 word) - sint (0::64 word)\<bar> \<bar>sint (0::64 word) - sint (0::64 word)\<bar>) \<and>
   (2::nat) \<le> 2 ^ 53 \<and>
   1 = min (verticalPen dblPens) (min (horizontalPen dblPens) (diagonalPen dblPens)) \<and>
   real 2 * 1 < 2 ^ 52 \<and> p_135 dblPens \<le> p_45 dblPens \<and>
   fl (p_45 dblPens - p_135 dblPens) = Fin (5 / 2) \<and> real (2 - 1) * (5 / 2) < 2 ^ 52 \<and>
   heurCost dblPens 0 0 2 0 = Inr (Fin 4) \<and> heurCost dblPens 0 0 0 0 = Inr (Fin 0)"
proof -
  have h: "((0::64 word), (0::64 word)) \<noteq> (2, 0)"
    "(2::nat) = nat (max \<bar>sint (2::64 word) - sint (0::64 word)\<bar> \<bar>sint (0::64 word) - sint (0::64 word)\<bar>)"
    "(2::nat) \<le> 2 ^ 53"
    "1 = min (verticalPen dblPens) (min (horizontalPen dblPens) (diagonalPen dblPens))"
    "(0::real) \<le> 1" "real 2 * 1 < 2 ^ 52" "p_135 dblPens \<le> p_45 dblPens"
    "fl (p_45 dblPens - p_135 dblPens) = Fin (5 / 2)" "real (2 - 1) * (5 / 2) < 2 ^ 52"
    by (simp_all add: demo_minPen dblPens_diff) (simp add: dblPens_def)
  note t = heurCost_truncated [OF h]
  obtain A B where ab: "fl (real 2 * 1) = Fin A" "fl (real (2 - 1) * (5 / 2)) = Fin B"
    "heurCost dblPens 0 0 2 0 = Inr (Fin (of_int (\<lfloor>A\<rfloor> + \<lfloor>B\<rfloor>)))"
    using t by blast
  have "Fin A = Fin 2" using ab(1) by (simp add: fl_two)
  then have "A = 2" by (simp only: cost.inject)
  then have fA: "\<lfloor>A\<rfloor> = 2" by simp
  have "Fin B = Fin (5 / 2)" using ab(2) by (simp add: fl_five_halves)
  then have "B = 5 / 2" by (simp only: cost.inject)
  then have "\<lfloor>B\<rfloor> = \<lfloor>5 / 2 :: real\<rfloor>" by (simp only:)
  then have fB: "\<lfloor>B\<rfloor> = 2" by simp
  have "heurCost dblPens 0 0 2 0 = Inr (Fin 4)" using ab(3) unfolding fA fB by simp
  moreover have "heurCost dblPens 0 0 0 0 = Inr (Fin 0)" using t by blast
  ultimately show ?thesis using h by blast
qed

text \<open>
  Outside these bounds a conversion can be undefined: with a traversal penalty of
  \<open>-3/2\<close> the first product is \<open>-3/2\<close>, which no \<open>size_t\<close> holds.
\<close>

lemma heurCost_negative_penalty:
  "heurCost (dblPens\<lparr>verticalPen := - (3 / 2)\<rparr>) 0 0 1 0 = Inl Undefined"
proof -
  have "fl (- (3 / 2)) = Fin (- (3 / 2))"
    using fl_exact [of "- (3 / 2)" "- 3" "- 1"] by simp
  moreover have "of_size_t 1 = Fin 1" using fl_nat [of 1] by (simp add: of_size_t_def)
  ultimately show ?thesis
    by (simp add: heurCost_def dblPens_def to_size_t_def)
qed

text \<open>
  The rounding of a product can also go up: ten hops at the \<open>double\<close> nearest to \<open>0.7\<close>
  give the product \<open>6.99...\<close>, which is rounded to 7, so that \<open>heurCost\<close> returns 25 where
  the exact products sum to less.
\<close>

lemma fl_ten_times:
  "fl (10 * (3152519739159347 / 2 ^ 52)) = Fin 7"
proof -
  have "fl (10 * (3152519739159347 / 2 ^ 52)) = Fin (of_int 7881299347898368 * 2 powi (- 50))"
  proof (rule fl_round)
    show "rne (10 * (3152519739159347 / 2 ^ 52) / 2 powi (- 50)) = 7881299347898368"
      by (simp add: rne_def power_int_minus)
    show "\<bar>real_of_int 7881299347898368 * 2 powi (- 50)\<bar> \<le> DBL_MAX"
      by (simp add: DBL_MAX_def power_int_minus)
  qed (simp_all add: power_int_minus)
  then show ?thesis by (simp add: power_int_minus)
qed

lemma heurCost_rounds_up:
  "heurCost roundPens 0 0 10 0 = Inr (Fin 25) \<and>
   10 * min (verticalPen roundPens) (min (horizontalPen roundPens) (diagonalPen roundPens)) +
     (10 - 1) * (p_45 roundPens - p_135 roundPens) < 25"
proof -
  have mp: "min (verticalPen roundPens) (min (horizontalPen roundPens) (diagonalPen roundPens)) =
            3152519739159347 / 2 ^ 52"
    by (simp add: roundPens_def)
  have d: "fl (p_45 roundPens - p_135 roundPens) = Fin 2"
  proof -
    have "p_45 roundPens - p_135 roundPens = 2" by (simp add: roundPens_def)
    then show ?thesis by (simp only: fl_two)
  qed
  have m: "nat (max \<bar>sint (10::64 word) - sint (0::64 word)\<bar> \<bar>sint (0::64 word) - sint (0::64 word)\<bar>) = 10"
    by simp
  have "\<exists>A B. fl (real 10 * (3152519739159347 / 2 ^ 52)) = Fin A \<and> fl (real (10 - 1) * 2) = Fin B \<and>
           heurCost roundPens 0 0 10 0 = Inr (Fin (of_int (\<lfloor>A\<rfloor> + \<lfloor>B\<rfloor>))) \<and>
           0 \<le> \<lfloor>A\<rfloor> + \<lfloor>B\<rfloor> \<and>
           A + B - 2 < of_int (\<lfloor>A\<rfloor> + \<lfloor>B\<rfloor>) \<and> of_int (\<lfloor>A\<rfloor> + \<lfloor>B\<rfloor>) \<le> A + B"
    by (rule heurCost_distinct [where c = roundPens and D = 2])
       (simp_all add: mp d m, simp add: roundPens_def)
  then obtain A B where ab: "fl (real 10 * (3152519739159347 / 2 ^ 52)) = Fin A"
    "fl (real (10 - 1) * 2) = Fin B"
    "heurCost roundPens 0 0 10 0 = Inr (Fin (of_int (\<lfloor>A\<rfloor> + \<lfloor>B\<rfloor>)))" by blast
  have "Fin A = Fin 7" using ab(1) fl_ten_times by simp
  then have "A = 7" by (simp only: cost.inject)
  then have fA: "\<lfloor>A\<rfloor> = 7" by simp
  have "fl (real (10 - 1) * 2) = Fin 18" using fl_exact [of 18 18 0] by simp
  then have "Fin B = Fin 18" using ab(2) by simp
  then have "B = 18" by (simp only: cost.inject)
  then have fB: "\<lfloor>B\<rfloor> = 18" by simp
  have "heurCost roundPens 0 0 10 0 = Inr (Fin 25)" using ab(3) unfolding fA fB by simp
  moreover have "p_45 roundPens - p_135 roundPens = 2" by (simp add: roundPens_def)
  ultimately show ?thesis unfolding mp by simp
qed

section \<open>The initial costs of a constructed grid\<close>

lemma initialCost_rawCost: "rawCost (initialCost c i e) = Fin (dirPen c i)"
proof -
  consider "i mod 2 \<noteq> 0" | "i mod 2 = 0" "i mod 4 = 0" | "i mod 2 = 0" "i mod 4 \<noteq> 0" by blast
  then show ?thesis
  proof cases
    case 1
    then show ?thesis by (simp add: initialCost_def dirPen_def Let_def setCost_def)
  next
    case 2
    then have "(i + 2) mod 4 \<noteq> 0" by presburger
    then show ?thesis using 2 by (simp add: initialCost_def dirPen_def Let_def setCost_def)
  next
    case 3
    then have "(i + 2) mod 4 = 0" by presburger
    then show ?thesis using 3 by (simp add: initialCost_def dirPen_def Let_def setCost_def)
  qed
qed

lemma dirPen_opp: "dirPen c ((i + 4) mod 8) = dirPen c i"
proof -
  have "((i + 4) mod 8) mod 2 = (i + 4) mod 2" "((i + 4) mod 8) mod 4 = (i + 4) mod 4"
    by (rule mod_mod_cancel, simp)+
  moreover have "(i + 4) mod 2 = i mod 2" "(i + 4) mod 4 = i mod 4" by presburger+
  ultimately have "((i + 4) mod 8) mod 2 = i mod 2" "((i + 4) mod 8) mod 4 = i mod 4" by simp_all
  then show ?thesis unfolding dirPen_def by (simp only:)
qed

lemma foldE_establish_inv:
  assumes "x0 \<in> set xs" "I s" "foldE f xs s = Inr s'"
    and inv: "\<And>x s s'. x \<in> set xs \<Longrightarrow> I s \<Longrightarrow> f x s = Inr s' \<Longrightarrow> I s'"
    and est: "\<And>s s'. I s \<Longrightarrow> f x0 s = Inr s' \<Longrightarrow> P s'"
    and pres: "\<And>x s s'. x \<in> set xs \<Longrightarrow> I s \<Longrightarrow> P s \<Longrightarrow> f x s = Inr s' \<Longrightarrow> P s'"
  shows "P s'"
proof -
  have keep: "I s \<Longrightarrow> P s \<Longrightarrow> set ys \<subseteq> set xs \<Longrightarrow> foldE f ys s = Inr s' \<Longrightarrow> P s'" for ys s
  proof (induction ys arbitrary: s)
    case Nil
    then show ?case by simp
  next
    case (Cons y ys)
    obtain s1 where s1: "f y s = Inr s1" "foldE f ys s1 = Inr s'"
      using Cons.prems(4) by (auto split: sum.splits)
    have y: "y \<in> set xs" using Cons.prems(3) by simp
    have "I s1" using inv [OF y Cons.prems(1) s1(1)] .
    moreover have "P s1" using pres [OF y Cons.prems(1,2) s1(1)] .
    ultimately show ?case using Cons.IH s1(2) Cons.prems(3) by simp
  qed
  have "x0 \<in> set ys \<Longrightarrow> I s \<Longrightarrow> set ys \<subseteq> set xs \<Longrightarrow> foldE f ys s = Inr s' \<Longrightarrow> P s'" for ys s
  proof (induction ys arbitrary: s)
    case Nil
    then show ?case by simp
  next
    case (Cons y ys)
    obtain s1 where s1: "f y s = Inr s1" "foldE f ys s1 = Inr s'"
      using Cons.prems(4) by (auto split: sum.splits)
    have y: "y \<in> set xs" and sub: "set ys \<subseteq> set xs" using Cons.prems(3) by simp_all
    have i1: "I s1" using inv [OF y Cons.prems(2) s1(1)] .
    show ?case
    proof (cases "x0 \<in> set ys")
      case True
      then show ?thesis using Cons.IH i1 sub s1(2) by blast
    next
      case False
      then have "y = x0" using Cons.prems(1) by simp
      then have "P s1" using est [OF Cons.prems(2)] s1(1) by simp
      then show ?thesis using keep [OF i1 _ sub s1(2)] by blast
    qed
  qed
  then show ?thesis using assms(1-3) by blast
qed

lemma initRel_pens: "initRel g g' \<Longrightarrow> pens g' = pens g"
  by (simp add: initRel_def sameEdgeSet_def sameCells_def sameParams_def)

lemma initPort_step:
  assumes "linked g" "inGrid g n" "i < 8"
  shows "\<exists>e. edgs g (nkey n i) = (if inGrid g (nbr n i) then Some e else edgs g (nkey n i)) \<and>
             initPort n i g =
               Inr (if inGrid g (nbr n i)
                    then setEdg g (Port n i) (Port (nbr n i) ((i + 4) mod 8)) (initialCost (pens g) i e)
                    else g)"
proof (cases "inGrid g (nbr n i)")
  case False
  then show ?thesis by (simp add: initPort_def getNeighbor_nbr)
next
  case True
  then obtain e where e: "edgs g (nkey n i) = Some e" using linkedD [OF assms True] by blast
  then show ?thesis using True by (simp add: initPort_def getNeighbor_nbr nkey_getEdg)
qed

lemma initial_cost_written:
  assumes l: "linked g0" and c0: "inGrid g0 c0" and i0: "i0 < 8" and n0: "inGrid g0 (nbr c0 i0)"
    and tot: "\<And>c. fst c < xWidth g0 \<Longrightarrow> snd c < yHeight g0 \<Longrightarrow> grid g0 c"
    and w: "writeInitialCosts g0 = Inr g"
  shows "\<exists>e. edgs g (nkey c0 i0) = Some e \<and> rawCost e = Fin (dirPen (pens g0) i0)"
proof -
  let ?P = "\<lambda>s. \<exists>e. edgs s (nkey c0 i0) = Some e \<and> rawCost e = Fin (dirPen (pens g0) i0)"
  let ?I = "initRel g0"
  have ctx: "linked s" "inGrid s = inGrid g0" "pens s = pens g0" if "?I s" for s
    using initRel_linked [OF that l] initRel_inGrid [OF that] initRel_pens [OF that] by auto
  have port_I: "?I s'" if "?I s" "inGrid g0 n" "i < 8" "initPort n i s = Inr s'" for s s' n i
  proof -
    have "\<exists>g'. initPort n i s = Inr g' \<and> initRel s g'"
      by (rule initPort_ok) (simp_all add: ctx [OF that(1)] that)
    then show ?thesis using that(4) initRel_trans [OF that(1)] by auto
  qed
  have port_eff: "\<exists>e. s' = (if inGrid g0 (nbr n i)
                    then setEdg s (Port n i) (Port (nbr n i) ((i + 4) mod 8)) (initialCost (pens g0) i e)
                    else s)"
    if h: "?I s" "inGrid g0 n" "i < 8" "initPort n i s = Inr s'" for s s' n i
  proof -
    have "linked s" "inGrid s n" using ctx [OF h(1)] h(2) by simp_all
    from initPort_step [OF this h(3)] obtain e where
      "initPort n i s =
         Inr (if inGrid s (nbr n i)
              then setEdg s (Port n i) (Port (nbr n i) ((i + 4) mod 8)) (initialCost (pens s) i e)
              else s)" by blast
    then have "s' = (if inGrid g0 (nbr n i)
              then setEdg s (Port n i) (Port (nbr n i) ((i + 4) mod 8)) (initialCost (pens g0) i e)
              else s)"
      using h(4) unfolding ctx(2,3) [OF h(1)] by simp
    then show ?thesis by blast
  qed
  have port_pres: "?P s'" if h: "?I s" "?P s" "inGrid g0 n" "i < 8" "initPort n i s = Inr s'" for s s' n i
  proof -
    obtain e where s': "s' = (if inGrid g0 (nbr n i)
                    then setEdg s (Port n i) (Port (nbr n i) ((i + 4) mod 8)) (initialCost (pens g0) i e)
                    else s)"
      using port_eff [OF h(1,3,4,5)] by blast
    show ?thesis
    proof (cases "inGrid g0 (nbr n i)")
      case False
      then have "s' = s" using s' by simp
      then show ?thesis using h(2) by simp
    next
      case True
      then have e': "edgs s' K = (if K = nkey n i then Some (initialCost (pens g0) i e) else edgs s K)" for K
        using s' by (simp add: edgs_setEdg_nkey)
      show ?thesis
      proof (cases "nkey n i = nkey c0 i0")
        case False
        then have "edgs s' (nkey c0 i0) = edgs s (nkey c0 i0)" unfolding e' by metis
        then show ?thesis using h(2) by simp
      next
        case eq: True
        then have "(n = c0 \<and> i = i0) \<or> (c0 = nbr n i \<and> i0 = (i + 4) mod 8)"
          using nkey_eq_iff [OF h(4) i0, of n c0] by blast
        then have d: "dirPen (pens g0) i = dirPen (pens g0) i0" using dirPen_opp [of "pens g0" i] by auto
        have "edgs s' (nkey c0 i0) = Some (initialCost (pens g0) i e)" unfolding e' using eq by simp
        then show ?thesis using d by (simp add: initialCost_rawCost)
      qed
    qed
  qed
  have port_est: "?P s'" if h: "?I s" "initPort c0 i0 s = Inr s'" for s s'
  proof -
    obtain e where s': "s' = (if inGrid g0 (nbr c0 i0)
                    then setEdg s (Port c0 i0) (Port (nbr c0 i0) ((i0 + 4) mod 8)) (initialCost (pens g0) i0 e)
                    else s)"
      using port_eff [OF h(1) c0 i0 h(2)] by blast
    then have "edgs s' (nkey c0 i0) = Some (initialCost (pens g0) i0 e)"
      using n0 by (simp add: edgs_setEdg_nkey)
    then show ?thesis by (simp add: initialCost_rawCost)
  qed
  have cell_fold: "initCell (fst c) (snd c) s = foldE (initPort c) [0..<8] s" if "?I s" "inGrid g0 c" for s c
  proof -
    have "inGrid s (fst c, snd c)" using that by (simp add: ctx)
    then have "getNode s (fst c) (snd c) = Some (fst c, snd c)" by (simp add: getNode_Some)
    then show ?thesis by (simp add: initCell_def)
  qed
  have cell_I: "?I s'" if "?I s" "inGrid g0 c" "initCell (fst c) (snd c) s = Inr s'" for s s' c
  proof -
    have f: "foldE (initPort c) [0..<8] s = Inr s'" using that(3) cell_fold [OF that(1,2)] by simp
    have "\<exists>s'. foldE (initPort c) [0..<8] s = Inr s' \<and> ?I s'"
    proof (rule foldE_invariant [where P = ?I])
      show "?I s" by (rule that(1))
      fix i t
      assume i: "i \<in> set [0..<8]" and t: "?I t"
      have "\<exists>t'. initPort c i t = Inr t' \<and> initRel t t'"
        by (rule initPort_ok) (use i in \<open>simp_all add: ctx [OF t] that(2)\<close>)
      then show "\<exists>t'. initPort c i t = Inr t' \<and> ?I t'" using initRel_trans [OF t] by blast
    qed
    then show ?thesis using f by simp
  qed
  have cell_pres: "?P s'" if "?I s" "?P s" "inGrid g0 c" "initCell (fst c) (snd c) s = Inr s'" for s s' c
  proof -
    have f: "foldE (initPort c) [0..<8] s = Inr s'" using that(4) cell_fold [OF that(1,3)] by simp
    have "?I s' \<and> ?P s'"
    proof (rule foldE_preserve [where P = "\<lambda>s. ?I s \<and> ?P s" and f = "\<lambda>i s. if i < 8 then initPort c i s else Inr s", rotated 2])
      show "?I s \<and> ?P s" using that(1,2) by blast
      have "foldE (\<lambda>i s. if i < 8 then initPort c i s else Inr s) xs t = foldE (initPort c) xs t"
        if "set xs \<subseteq> {0..<8}" for xs t
        using that by (induction xs arbitrary: t) (simp_all split: sum.split)
      then show "foldE (\<lambda>i s. if i < 8 then initPort c i s else Inr s) [0..<8] s = Inr s'"
        using f by simp
    next
      fix i t t'
      assume "?I t \<and> ?P t" and "(if i < 8 then initPort c i t else Inr t) = Inr t'"
      then show "?I t' \<and> ?P t'"
        using port_I [of t c i t'] port_pres [of t c i t'] that(3) by (auto split: if_splits)
    qed
    then show ?thesis by blast
  qed
  have cell_est: "?P s'" if "?I s" "initCell (fst c0) (snd c0) s = Inr s'" for s s'
  proof -
    have f: "foldE (initPort c0) [0..<8] s = Inr s'" using that(2) cell_fold [OF that(1) c0] by simp
    show ?thesis
    proof (rule foldE_establish_inv [where I = ?I and P = ?P and ?x0.0 = i0, OF _ that(1) f])
      show "i0 \<in> set [0..<8]" using i0 by simp
    next
      fix i t t'
      assume "i \<in> set [0..<8]" "?I t" "initPort c0 i t = Inr t'"
      then show "?I t'" using port_I [of t c0 i t'] c0 by simp
    next
      fix t t'
      assume "?I t" "initPort c0 i0 t = Inr t'"
      then show "?P t'" by (rule port_est)
    next
      fix i t t'
      assume "i \<in> set [0..<8]" "?I t" "?P t" "initPort c0 i t = Inr t'"
      then show "?P t'" using port_pres [of t c0 i t'] c0 by simp
    qed
  qed
  have cells: "inGrid g0 c" if "c \<in> set (allCells (xWidth g0) (yHeight g0))" for c
    using that tot by (simp add: set_allCells inGrid_def)
  have f: "foldE (\<lambda>c. initCell (fst c) (snd c)) (allCells (xWidth g0) (yHeight g0)) g0 = Inr g"
    using w unfolding writeInitialCosts_def foldE_cells .
  show ?thesis
  proof (rule foldE_establish_inv [where I = ?I and P = ?P and ?x0.0 = c0, OF _ initRel_refl f])
    show "c0 \<in> set (allCells (xWidth g0) (yHeight g0))"
      using c0 by (simp add: set_allCells inGrid_def)
  next
    fix c t t'
    assume "c \<in> set (allCells (xWidth g0) (yHeight g0))" "?I t" "initCell (fst c) (snd c) t = Inr t'"
    then show "?I t'" using cell_I cells by blast
  next
    fix t t'
    assume "?I t" "initCell (fst c0) (snd c0) t = Inr t'"
    then show "?P t'" by (rule cell_est)
  next
    fix c t t'
    assume "c \<in> set (allCells (xWidth g0) (yHeight g0))" "?I t" "?P t" "initCell (fst c) (snd c) t = Inr t'"
    then show "?P t'" using cell_pres cells by blast
  qed
qed

lemma GridGraph_initial_cost:
  assumes "GridGraph w h ll cs sp c = Inr g" "inGrid g c0" "i0 < 8" "inGrid g (nbr c0 i0)"
  shows "\<exists>e. edgs g (nkey c0 i0) = Some e \<and> rawCost e = Fin (dirPen c i0)"
proof -
  let ?g0 = "linkedGrid w h ll cs sp c"
  have v: "p_0 c < p_135 c \<and> p_135 c < p_90 c \<and> p_90 c < p_45 c"
    using GridGraph_assert [of c w h ll cs sp] assms(1) by auto
  have w: "writeInitialCosts ?g0 = Inr g"
    using GridGraph_unfold [of c w h ll cs sp] v assms(1) by simp
  have ig: "inGrid ?g0 = inGrid g"
    using initRel_inGrid [OF GridGraph_Inr [OF assms(1)]] by auto
  have "\<exists>e. edgs g (nkey c0 i0) = Some e \<and> rawCost e = Fin (dirPen (pens ?g0) i0)"
  proof (rule initial_cost_written [OF _ _ assms(3) _ _ w])
    show "linked ?g0" unfolding linkedGrid_def by (rule linked_linkCells)
    show "inGrid ?g0 c0" "inGrid ?g0 (nbr c0 i0)" using assms(2,4) by (simp_all add: ig)
    fix cl
    assume "fst cl < xWidth ?g0" "snd cl < yHeight ?g0"
    then show "grid ?g0 cl" by (simp add: linkedGrid_params linkedGrid_grid)
  qed
  then show ?thesis by (simp add: linkedGrid_params)
qed

section \<open>Applying and removing a cost vector\<close>

lemma subCost_zero: "isDouble d \<Longrightarrow> subCost d 0 = d"
  by (cases d) (simp_all add: subCost_def dsub_def isDouble_def)

lemma subCost_addCost_exact:
  assumes "isDouble d" "exactSum d x"
  shows "subCost (addCost d x) x = d"
proof (cases d)
  case (Fin a)
  then have "fl a = Fin a" "fl (a + x) = Fin (a + x)" using assms by (simp_all add: isDouble_def exactSum_def)
  then show ?thesis using Fin by (simp add: subCost_def addCost_def dsub_def)
qed (simp_all add: subCost_def addCost_def dsub_def)

lemma roundTrip_exact:
  assumes "isDouble (rawCost e)" "x < - 1 \<or> exactSum (rawCost e) x"
  shows "roundTrip x e = rawCost e"
  using assms by (auto simp add: roundTrip_def subCost_zero subCost_addCost_exact)

lemma round_trip_edge:
  "rawCost (remEff (invVal x (Some e)) (addEff x e)) = roundTrip x e \<and>
   closedFlag (remEff (invVal x (Some e)) (addEff x e)) = closedFlag e"
proof -
  consider (closed) "x < - 1" "closedFlag e" | (close) "x < - 1" "\<not> closedFlag e" | (add) "\<not> x < - 1"
    by blast
  then show ?thesis
  proof cases
    case closed
    then show ?thesis
      by (simp add: invVal_def remEff_def addEff_def closeEdge_def setCost_def roundTrip_def)
  next
    case close
    then show ?thesis by (simp add: invVal_def remEff_def addEff_def closeEdge_def openEdge_def roundTrip_def)
  next
    case add
    then show ?thesis by (simp add: invVal_def remEff_def addEff_def setCost_def roundTrip_def)
  qed
qed

lemma cost_vector_round_trip_edges:
  assumes "linked g" "inGrid g n"
  shows "\<exists>g1 iv g2. addCostVector g n c = Inr (g1, iv) \<and> removeCostVector g1 n iv = Inr g2 \<and>
     (\<forall>i<8. \<forall>m. getNeighbor g (fst n) (snd n) i = Some m \<longrightarrow>
        (\<exists>e e2. getEdg g (Port n i) (Port m ((i + 4) mod 8)) = Some e \<and>
                getEdg g2 (Port n i) (Port m ((i + 4) mod 8)) = Some e2 \<and>
                closedFlag e2 = closedFlag e \<and> rawCost e2 = roundTrip (c i) e \<and>
                (isDouble (rawCost e) \<and> (c i < - 1 \<or> exactSum (rawCost e) (c i))
                   \<longrightarrow> rawCost e2 = rawCost e)))"
proof -
  have h: "hasNEdges g n" using assms by (rule hasNEdges_linked)
  have d8: "distinct [0..<8::nat]" "set [0..<8::nat] \<subseteq> {0..<8}" by simp_all
  let ?iv = "\<lambda>j. if j \<in> set [0..<8] \<and> inGrid g (nbr n j) then invVal (c j) (edgs g (nkey n j)) else NodeCost0 j"
  obtain g1 where g1: "addCostVector g n c = Inr (g1, ?iv)" "sameEdgeSet g g1"
    "\<forall>j<8. inGrid g (nbr n j) \<longrightarrow>
       edgs g1 (nkey n j) =
         (if j \<in> set [0..<8] then map_option (addEff (c j)) (edgs g (nkey n j)) else edgs g (nkey n j))"
    using addCostVector_loop [OF d8 h, of c NodeCost0] unfolding addCostVector_def by blast
  have ig: "inGrid g1 = inGrid g" by (intro ext inGrid_sameCells sameEdgeSet_cells g1(2))
  obtain g2 where g2: "removeCostVector g1 n ?iv = Inr g2"
    "\<forall>j<8. inGrid g1 (nbr n j) \<longrightarrow>
       edgs g2 (nkey n j) =
         (if j \<in> set [0..<8] then map_option (remEff (?iv j)) (edgs g1 (nkey n j)) else edgs g1 (nkey n j))"
    using removeCostVector_loop [OF d8 hasNEdges_sameEdgeSet [OF g1(2) h], of ?iv]
    unfolding removeCostVector_def by blast
  show ?thesis
  proof (rule exI [where x = g1], rule exI [where x = ?iv], rule exI [where x = g2], intro conjI allI impI)
    show "addCostVector g n c = Inr (g1, ?iv)" by (rule g1(1))
    show "removeCostVector g1 n ?iv = Inr g2" by (rule g2(1))
    fix i m
    assume i: "i < 8" and m: "getNeighbor g (fst n) (snd n) i = Some m"
    have mn: "m = nbr n i" "inGrid g (nbr n i)" using m by (auto simp add: getNeighbor_iff)
    obtain e where e: "edgs g (nkey n i) = Some e" using h i mn(2) unfolding hasNEdges_def by blast
    have e1: "edgs g1 (nkey n i) = Some (addEff (c i) e)" using g1(3) i mn(2) e by simp
    have "?iv i = invVal (c i) (Some e)" using i mn(2) e by simp
    then have e2: "edgs g2 (nkey n i) = Some (remEff (invVal (c i) (Some e)) (addEff (c i) e))"
      using g2(2) i mn(2) e1 by (simp add: ig)
    show "\<exists>e e2. getEdg g (Port n i) (Port m ((i + 4) mod 8)) = Some e \<and>
                getEdg g2 (Port n i) (Port m ((i + 4) mod 8)) = Some e2 \<and>
                closedFlag e2 = closedFlag e \<and> rawCost e2 = roundTrip (c i) e \<and>
                (isDouble (rawCost e) \<and> (c i < - 1 \<or> exactSum (rawCost e) (c i))
                   \<longrightarrow> rawCost e2 = rawCost e)"
      unfolding mn(1) nkey_getEdg e e2
      using round_trip_edge [of "c i" e] roundTrip_exact [of e "c i"] by auto
  qed
qed

lemma demoGridD_built: "GridGraph 2 1 (0, 0) 1 (1 / 4) dblPens = Inr demoGridD"
proof -
  obtain g where "GridGraph 2 1 (0, 0) 1 (1 / 4) dblPens = Inr g"
    using GridGraph_result [of dblPens 2 1 "(0, 0)" 1 "1 / 4"] by (auto simp add: dblPens_def)
  then show ?thesis by (simp add: demoGridD_def)
qed

lemma demoGridD_inGrid: "inGrid demoGridD c \<longleftrightarrow> fst c < 2 \<and> snd c < 1"
  by (rule GridGraph_inGrid [OF demoGridD_built])

lemma demoGridD_neighbour: "getNeighbor demoGridD 0 0 2 = Some (1, 0)"
  by (simp add: getNeighbor_iff demoGridD_inGrid nbr_def off_table)

lemma demoGridD_edge:
  "\<exists>e. getEdg demoGridD (Port (0, 0) 2) (Port (1, 0) 6) = Some e \<and> rawCost e = Fin 1"
proof -
  have n: "nbr (0, 0) 2 = (1, 0)" by (simp add: nbr_def off_table)
  have "\<exists>e. edgs demoGridD (nkey (0, 0) 2) = Some e \<and> rawCost e = Fin (dirPen dblPens 2)"
    by (rule GridGraph_initial_cost [OF demoGridD_built]) (simp_all add: demoGridD_inGrid n)
  moreover have "dirPen dblPens 2 = 1" by (simp add: dirPen_def dblPens_def)
  moreover have "edgs demoGridD (nkey (0, 0) 2) = getEdg demoGridD (Port (0, 0) 2) (Port (1, 0) 6)"
    using nkey_getEdg [of demoGridD "(0, 0)" 2] by (simp add: n)
  ultimately show ?thesis by simp
qed

lemma fl_one: "fl 1 = Fin 1"
  using fl_exact [of 1 1 0] by simp

lemma add_two_fifths: "fl (1 + 3602879701896397 / 2 ^ 53) = Fin (6305039478318694 / 2 ^ 52)"
proof -
  have "fl (1 + 3602879701896397 / 2 ^ 53) = Fin (of_int 6305039478318694 * 2 powi (- 52))"
  proof (rule fl_round)
    show "rne ((1 + 3602879701896397 / 2 ^ 53) / 2 powi (- 52)) = 6305039478318694"
      by (simp add: rne_def power_int_minus)
    show "\<bar>real_of_int 6305039478318694 * 2 powi (- 52)\<bar> \<le> DBL_MAX"
      by (simp add: DBL_MAX_def power_int_minus)
  qed (simp_all add: power_int_minus)
  then show ?thesis by (simp add: power_int_minus)
qed

lemma sub_two_fifths:
  "fl (6305039478318694 / 2 ^ 52 + - (3602879701896397 / 2 ^ 53)) = Fin (9007199254740991 / 2 ^ 53)"
proof -
  have "(6305039478318694 / 2 ^ 52 + - (3602879701896397 / 2 ^ 53) :: real) =
        of_int 9007199254740991 * 2 powi (- 53)"
    by (simp add: power_int_minus)
  moreover have "fl (of_int 9007199254740991 * 2 powi (- 53)) = Fin (of_int 9007199254740991 * 2 powi (- 53))"
    by (rule fl_exact [OF refl]) simp_all
  ultimately show ?thesis by (simp add: power_int_minus)
qed

lemma roundTrip_two_fifths:
  assumes "rawCost e = Fin 1"
  shows "roundTrip (3602879701896397 / 2 ^ 53) e = Fin (9007199254740991 / 2 ^ 53)"
proof -
  have "\<not> (3602879701896397 / 2 ^ 53 :: real) < - 1" by simp
  then have "roundTrip (3602879701896397 / 2 ^ 53) e =
             dadd (dadd (Fin 1) (Fin (3602879701896397 / 2 ^ 53))) (Fin (- (3602879701896397 / 2 ^ 53)))"
    unfolding roundTrip_def assms subCost_def addCost_def dsub_def by (simp only: if_False dneg.simps)
  also have "\<dots> = Fin (9007199254740991 / 2 ^ 53)"
    unfolding dadd.simps add_two_fifths sub_two_fifths ..
  finally show ?thesis .
qed

text \<open>
  C1 as stated fails for the raw cost.  On the grid of two cells the inter-cell edge
  east of \<open>(0, 0)\<close> has the raw cost 1.  Applying the vector whose slot 2 is the
  \<open>double\<close> nearest to \<open>0.4\<close> gives the sum \<open>1 + 0.4\<close>, which lies halfway between two
  \<open>double\<close>s and is rounded down; subtracting the slot again gives
  \<open>9007199254740991 / 2^53\<close>, the \<open>double\<close> just below 1, and not 1.
\<close>

theorem cost_vector_round_trip_counterexample:
  "\<exists>g1 iv g2 e e2.
     addCostVector demoGridD (0, 0) demoCostInexact = Inr (g1, iv) \<and>
     removeCostVector g1 (0, 0) iv = Inr g2 \<and>
     getNeighbor demoGridD 0 0 2 = Some (1, 0) \<and>
     getEdg demoGridD (Port (0, 0) 2) (Port (1, 0) 6) = Some e \<and>
     getEdg g2 (Port (0, 0) 2) (Port (1, 0) 6) = Some e2 \<and>
     rawCost e = Fin 1 \<and> rawCost e2 = Fin (9007199254740991 / 2 ^ 53) \<and> rawCost e2 \<noteq> rawCost e"
proof -
  have l: "linked demoGridD" by (rule GridGraph_linked [OF demoGridD_built])
  have a: "inGrid demoGridD (0, 0)" by (simp add: demoGridD_inGrid)
  obtain g1 iv g2 where r: "addCostVector demoGridD (0, 0) demoCostInexact = Inr (g1, iv)"
    "removeCostVector g1 (0, 0) iv = Inr g2"
    and all: "\<forall>i<8. \<forall>m. getNeighbor demoGridD 0 0 i = Some m \<longrightarrow>
        (\<exists>e e2. getEdg demoGridD (Port (0, 0) i) (Port m ((i + 4) mod 8)) = Some e \<and>
                getEdg g2 (Port (0, 0) i) (Port m ((i + 4) mod 8)) = Some e2 \<and>
                closedFlag e2 = closedFlag e \<and> rawCost e2 = roundTrip (demoCostInexact i) e \<and>
                (isDouble (rawCost e) \<and> (demoCostInexact i < - 1 \<or> exactSum (rawCost e) (demoCostInexact i))
                   \<longrightarrow> rawCost e2 = rawCost e))"
    using cost_vector_round_trip_edges [OF l a, of demoCostInexact, unfolded fst_conv snd_conv] by blast
  have ar: "(2::nat) < 8" "((2::nat) + 4) mod 8 = 6" by simp_all
  obtain e e2 where e: "getEdg demoGridD (Port (0, 0) 2) (Port (1, 0) 6) = Some e"
    "getEdg g2 (Port (0, 0) 2) (Port (1, 0) 6) = Some e2"
    "rawCost e2 = roundTrip (demoCostInexact 2) e"
    using all ar demoGridD_neighbour by metis
  obtain e' where e': "getEdg demoGridD (Port (0, 0) 2) (Port (1, 0) 6) = Some e'" "rawCost e' = Fin 1"
    using demoGridD_edge by blast
  then have c1: "rawCost e = Fin 1" using e(1) by simp
  have dc: "demoCostInexact 2 = 3602879701896397 / 2 ^ 53" by (simp add: demoCostInexact_def)
  have c2: "rawCost e2 = Fin (9007199254740991 / 2 ^ 53)"
    unfolding e(3) dc by (rule roundTrip_two_fifths [OF c1])
  have "rawCost e2 \<noteq> rawCost e" unfolding c1 c2 by simp
  then show ?thesis using r demoGridD_neighbour e(1,2) c1 c2 by blast
qed

text \<open>
  C1, amended.  Let \<open>n\<close> be a node of a grid in which every cell is linked to its
  neighbours (I2), and \<open>c\<close> any cost vector; a slot is read as the closed sentinel when
  it is below \<open>-1\<close> and as additive otherwise.  Then \<open>addCostVector\<close> succeeds with some
  inverse vector, \<open>removeCostVector\<close> with that vector succeeds, and afterwards every
  inter-cell edge at a port of \<open>n\<close> has the closed flag it had before.  Its raw cost is
  \<open>roundTrip\<close> of the slot and the old payload: for an additive slot the old raw cost
  plus the slot minus the slot, in \<open>double\<close> arithmetic.  That is the old raw cost
  whenever the old raw cost is a \<open>double\<close> and the slot is a sentinel or the sum of the
  two needs no rounding.
\<close>

theorem cost_vector_round_trip:
  assumes "linked g" "inGrid g n"
  shows "\<exists>g1 iv g2. addCostVector g n c = Inr (g1, iv) \<and> removeCostVector g1 n iv = Inr g2 \<and>
     (\<forall>i<8. \<forall>m. getNeighbor g (fst n) (snd n) i = Some m \<longrightarrow>
        (\<exists>e e2. getEdg g (Port n i) (Port m ((i + 4) mod 8)) = Some e \<and>
                getEdg g2 (Port n i) (Port m ((i + 4) mod 8)) = Some e2 \<and>
                closedFlag e2 = closedFlag e \<and> rawCost e2 = roundTrip (c i) e \<and>
                (isDouble (rawCost e) \<and> (c i < - 1 \<or> exactSum (rawCost e) (c i))
                   \<longrightarrow> rawCost e2 = rawCost e)))"
  using assms by (rule cost_vector_round_trip_edges)

theorem cost_vector_round_trip_witness:
  "linked demoGridD \<and> inGrid demoGridD (0, 0) \<and> getNeighbor demoGridD 0 0 2 = Some (1, 0) \<and>
   (\<exists>g1 iv g2. addCostVector demoGridD (0, 0) demoCostExact = Inr (g1, iv) \<and>
      removeCostVector g1 (0, 0) iv = Inr g2 \<and>
      (\<exists>e e2. getEdg demoGridD (Port (0, 0) 2) (Port (1, 0) 6) = Some e \<and>
              getEdg g2 (Port (0, 0) 2) (Port (1, 0) 6) = Some e2 \<and>
              isDouble (rawCost e) \<and> exactSum (rawCost e) (demoCostExact 2) \<and>
              closedFlag e2 = closedFlag e \<and> rawCost e2 = rawCost e))"
proof -
  have l: "linked demoGridD" by (rule GridGraph_linked [OF demoGridD_built])
  have a: "inGrid demoGridD (0, 0)" by (simp add: demoGridD_inGrid)
  obtain g1 iv g2 where r: "addCostVector demoGridD (0, 0) demoCostExact = Inr (g1, iv)"
    "removeCostVector g1 (0, 0) iv = Inr g2"
    and all: "\<forall>i<8. \<forall>m. getNeighbor demoGridD 0 0 i = Some m \<longrightarrow>
        (\<exists>e e2. getEdg demoGridD (Port (0, 0) i) (Port m ((i + 4) mod 8)) = Some e \<and>
                getEdg g2 (Port (0, 0) i) (Port m ((i + 4) mod 8)) = Some e2 \<and>
                closedFlag e2 = closedFlag e \<and> rawCost e2 = roundTrip (demoCostExact i) e \<and>
                (isDouble (rawCost e) \<and> (demoCostExact i < - 1 \<or> exactSum (rawCost e) (demoCostExact i))
                   \<longrightarrow> rawCost e2 = rawCost e))"
    using cost_vector_round_trip [OF l a, of demoCostExact, unfolded fst_conv snd_conv] by blast
  have ar: "(2::nat) < 8" "((2::nat) + 4) mod 8 = 6" by simp_all
  obtain e e2 where e: "getEdg demoGridD (Port (0, 0) 2) (Port (1, 0) 6) = Some e"
    "getEdg g2 (Port (0, 0) 2) (Port (1, 0) 6) = Some e2"
    "closedFlag e2 = closedFlag e"
    "isDouble (rawCost e) \<and> (demoCostExact 2 < - 1 \<or> exactSum (rawCost e) (demoCostExact 2))
       \<longrightarrow> rawCost e2 = rawCost e"
    using all ar demoGridD_neighbour by metis
  obtain e' where e': "getEdg demoGridD (Port (0, 0) 2) (Port (1, 0) 6) = Some e'" "rawCost e' = Fin 1"
    using demoGridD_edge by blast
  then have c1: "rawCost e = Fin 1" using e(1) by simp
  have d: "isDouble (rawCost e)" unfolding c1 by (simp add: isDouble_def fl_one)
  have "fl (1 + 1) = Fin (1 + 1)" using fl_two by simp
  then have x: "exactSum (rawCost e) (demoCostExact 2)"
    unfolding c1 by (simp add: exactSum_def demoCostExact_def)
  have "rawCost e2 = rawCost e" using e(4) d x by blast
  then show ?thesis using l a demoGridD_neighbour r e(1,2,3) d x by blast
qed

end
